(* ===== verification/Qeli_Prelude.thy ===== *)
theory Qeli_Prelude
  imports Main "HOL-Library.Word" "HOL-Library.AList"
begin

unbundle bit_operations_syntax

text \<open>
  Shared vocabulary of the qeli development: bytes and fixed-width integers with their
  big- and little-endian wire forms, Rust slices and \<^verbatim>\<open>chunks\<close>, Rust's checked
  \<^verbatim>\<open>usize\<close> arithmetic, hash tables as association lists, and the contract of a
  table whose buffered bytes are accounted (two reassemblers of the program implement it).
  \<^verbatim>\<open>usize\<close> is a natural number of the 64-bit targets; \<^verbatim>\<open>u8\<close> to \<^verbatim>\<open>u128\<close>
  are words; an \<^verbatim>\<open>Instant\<close> and a \<^verbatim>\<open>Duration\<close> are natural numbers of nanoseconds.
\<close>

named_theorems wire_simps \<open>laws of the wire encodings\<close>
named_theorems table_simps \<open>laws of the hash tables\<close>

type_synonym byte = "8 word"
type_synonym bytes = "byte list"
type_synonym u8 = "8 word"
type_synonym u16 = "16 word"
type_synonym u32 = "32 word"
type_synonym u64 = "64 word"
type_synonym u128 = "128 word"
type_synonym instant = nat
type_synonym duration = nat

abbreviation duration_secs :: "nat \<Rightarrow> duration" where
  "duration_secs n \<equiv> n * 1000000000"

abbreviation duration_millis :: "nat \<Rightarrow> duration" where
  "duration_millis n \<equiv> n * 1000000"

section \<open>Results\<close>

type_synonym ('e, 'a) result = "'e + 'a"

abbreviation Err :: "'e \<Rightarrow> ('e, 'a) result" where "Err \<equiv> Inl"
abbreviation Ok :: "'a \<Rightarrow> ('e, 'a) result" where "Ok \<equiv> Inr"

definition is_ok :: "('e, 'a) result \<Rightarrow> bool" where
  "is_ok r = (case r of Inl _ \<Rightarrow> False | Inr _ \<Rightarrow> True)"

lemma is_ok_simps [simp]: "is_ok (Inl e) = False" "is_ok (Inr a) = True"
  by (simp_all add: is_ok_def)

lemma is_ok_conv: "is_ok r \<longleftrightarrow> (\<exists>a. r = Inr a)"
  by (cases r) simp_all

section \<open>usize arithmetic\<close>

definition usize_max :: nat where
  "usize_max = 2 ^ 64 - 1"

definition u16_max :: nat where
  "u16_max = 65535"

definition checked_add :: "nat \<Rightarrow> nat \<Rightarrow> nat option" where
  "checked_add a b = (if a + b \<le> usize_max then Some (a + b) else None)"

definition checked_sub :: "nat \<Rightarrow> nat \<Rightarrow> nat option" where
  "checked_sub a b = (if b \<le> a then Some (a - b) else None)"

definition checked_mul :: "nat \<Rightarrow> nat \<Rightarrow> nat option" where
  "checked_mul a b = (if a * b \<le> usize_max then Some (a * b) else None)"

definition saturating_add :: "nat \<Rightarrow> nat \<Rightarrow> nat" where
  "saturating_add a b = min (a + b) usize_max"

lemma checked_code [code]:
  "checked_add a b = (if int a + int b \<le> 18446744073709551615 then Some (a + b) else None)"
  "checked_mul a b = (if int a * int b \<le> 18446744073709551615 then Some (a * b) else None)"
  "saturating_add a b = (if int a + int b \<le> 18446744073709551615 then a + b else usize_max)"
  by (auto simp: checked_add_def checked_mul_def saturating_add_def usize_max_def zle_int simp flip: of_nat_add of_nat_mult)

definition div_ceil :: "nat \<Rightarrow> nat \<Rightarrow> nat" where
  "div_ceil a b = (if a mod b > 0 then a div b + 1 else a div b)"

lemma div_ceil_le_iff: "0 < b \<Longrightarrow> div_ceil a b \<le> c \<longleftrightarrow> a \<le> c * b"
proof -
  assume b: "0 < b"
  define q where "q = a div b"
  define r where "r = a mod b"
  have a: "a = q * b + r" unfolding q_def r_def by (rule div_mult_mod_eq [symmetric])
  have r: "r < b" using b by (simp add: r_def)
  have dc: "div_ceil a b = (if 0 < r then q + 1 else q)"
    by (simp add: div_ceil_def q_def r_def)
  show ?thesis
  proof (cases "r = 0")
    case True
    with a dc b show ?thesis by simp
  next
    case False
    have "q + 1 \<le> c \<longleftrightarrow> q * b + r \<le> c * b"
    proof
      assume "q + 1 \<le> c"
      then have "(q + 1) * b \<le> c * b" by (rule mult_le_mono1)
      with r show "q * b + r \<le> c * b" by simp
    next
      assume le: "q * b + r \<le> c * b"
      have "\<not> c \<le> q"
      proof
        assume "c \<le> q"
        then have "c * b \<le> q * b" by (rule mult_le_mono1)
        with le False show False by simp
      qed
      then show "q + 1 \<le> c" by simp
    qed
    with a dc False show ?thesis by simp
  qed
qed

lemma div_ceil_mult_ge: "0 < b \<Longrightarrow> a \<le> div_ceil a b * b"
  using div_ceil_le_iff by blast

lemma less_div_ceil_iff: "0 < b \<Longrightarrow> i < div_ceil a b \<longleftrightarrow> i * b < a"
  using div_ceil_le_iff [of b a i] by linarith

lemma div_ceil_pos_iff: "0 < b \<Longrightarrow> 0 < div_ceil a b \<longleftrightarrow> 0 < a"
  using less_div_ceil_iff [of b 0 a] by simp

lemma div_ceil_diff: "0 < b \<Longrightarrow> b \<le> a \<Longrightarrow> div_ceil a b = Suc (div_ceil (a - b) b)"
proof -
  assume b: "0 < b" and "b \<le> a"
  then obtain k where "a = b + k" using le_Suc_ex by blast
  with b show ?thesis by (simp add: div_ceil_def div_add_self1)
qed

lemma div_ceil_le_base: "0 < b \<Longrightarrow> 0 < a \<Longrightarrow> a \<le> b \<Longrightarrow> div_ceil a b = 1"
  by (cases "a = b") (simp_all add: div_ceil_def)

section \<open>Slices\<close>

text \<open>\<^verbatim>\<open>xs[a..b]\<close>, in range whenever the source evaluates it.\<close>

definition slice :: "nat \<Rightarrow> nat \<Rightarrow> 'a list \<Rightarrow> 'a list" where
  "slice a b xs = take (b - a) (drop a xs)"

lemma length_slice [simp]: "length (slice a b xs) = min (b - a) (length xs - a)"
  by (simp add: slice_def)

lemma slice_append_right:
  "length xs \<le> a \<Longrightarrow> slice a b (xs @ ys) = slice (a - length xs) (b - length xs) ys"
  by (simp add: slice_def)

lemma slice_append_exact: "length xs = b - a \<Longrightarrow> slice 0 (b - a) (xs @ ys) = xs"
  by (simp add: slice_def)

lemma slice_0: "slice 0 b xs = take b xs"
  by (simp add: slice_def)

lemma slice_to_end: "slice a (length xs) xs = drop a xs"
  by (simp add: slice_def)

lemma set_slice_subset: "set (slice a b xs) \<subseteq> set xs"
  by (auto simp: slice_def dest: in_set_takeD in_set_dropD)

lemma slice_split: "a \<le> b \<Longrightarrow> b \<le> c \<Longrightarrow> slice a b xs @ slice b c xs = slice a c xs"
proof -
  assume ab: "a \<le> b" and bc: "b \<le> c"
  have "drop (b - a) (drop a xs) = drop b xs" using ab by simp
  moreover have "c - a = (b - a) + (c - b)" using ab bc by simp
  ultimately show ?thesis unfolding slice_def by (metis take_add)
qed

fun chunks :: "nat \<Rightarrow> 'a list \<Rightarrow> 'a list list" where
  "chunks n xs = (if n = 0 \<or> xs = [] then [] else take n xs # chunks n (drop n xs))"

declare chunks.simps [simp del]

lemma chunks_Nil [simp]: "chunks n [] = []"
  by (simp add: chunks.simps)

lemma concat_chunks: "0 < n \<Longrightarrow> concat (chunks n xs) = xs"
proof (induction n xs rule: chunks.induct)
  case (1 n xs)
  then show ?case by (simp add: chunks.simps [of n xs])
qed

lemma length_chunks: "0 < n \<Longrightarrow> length (chunks n xs) = div_ceil (length xs) n"
proof (induction n xs rule: chunks.induct)
  case (1 n xs)
  show ?case
  proof (cases "xs = []")
    case True
    then show ?thesis by (simp add: div_ceil_def)
  next
    case False
    with 1 have IH: "length (chunks n (drop n xs)) = div_ceil (length xs - n) n" by simp
    show ?thesis
    proof (cases "length xs \<le> n")
      case True
      with False 1(2) have "div_ceil (length xs) n = 1" by (simp add: div_ceil_le_base)
      with True False 1(2) show ?thesis by (simp add: chunks.simps [of n xs])
    next
      case F: False
      with False 1(2) IH show ?thesis
        by (simp add: chunks.simps [of n xs] div_ceil_diff [of n "length xs"])
    qed
  qed
qed

lemma nth_chunks:
  "0 < n \<Longrightarrow> i < div_ceil (length xs) n \<Longrightarrow> chunks n xs ! i = take n (drop (i * n) xs)"
proof (induction n xs arbitrary: i rule: chunks.induct)
  case (1 n xs)
  have ne: "xs \<noteq> []"
    using 1(2,3) by (auto simp: div_ceil_def)
  show ?case
  proof (cases i)
    case 0
    with ne 1(2) show ?thesis by (simp add: chunks.simps [of n xs])
  next
    case (Suc j)
    have "j * n + n < length xs" using 1(2,3) Suc by (simp add: less_div_ceil_iff add.commute)
    then have "j < div_ceil (length (drop n xs)) n" using 1(2) by (simp add: less_div_ceil_iff)
    then have "chunks n (drop n xs) ! j = take n (drop (j * n) (drop n xs))"
      using 1 ne by simp
    with Suc ne 1(2) show ?thesis by (simp add: chunks.simps [of n xs] add.commute)
  qed
qed

lemma chunks_not_Nil: "0 < n \<Longrightarrow> c \<in> set (chunks n xs) \<Longrightarrow> c \<noteq> [] \<and> length c \<le> n"
proof (induction n xs rule: chunks.induct)
  case (1 n xs)
  then show ?case by (cases "xs = []") (auto simp: chunks.simps [of n xs])
qed

section \<open>Wire integers\<close>

primrec le_bytes :: "nat \<Rightarrow> nat \<Rightarrow> bytes" where
  "le_bytes 0 v = []"
| "le_bytes (Suc n) v = of_nat (v mod 256) # le_bytes n (v div 256)"

primrec le_val :: "bytes \<Rightarrow> nat" where
  "le_val [] = 0"
| "le_val (b # bs) = unat b + 256 * le_val bs"

lemma length_le_bytes [simp]: "length (le_bytes n v) = n"
  by (induction n arbitrary: v) simp_all

lemma unat_byte_less [simp]: "unat (b :: byte) < 256"
proof -
  have "unat b < 2 ^ LENGTH(8)" by (rule unsigned_less)
  then show ?thesis by simp
qed

lemma le_val_less: "le_val bs < 256 ^ length bs"
proof (induction bs)
  case (Cons b bs)
  have "unat b < 256" by simp
  with Cons have "unat b + 256 * le_val bs < 256 * 256 ^ length bs" by linarith
  then show ?case by simp
qed simp

lemma le_val_le_bytes: "le_val (le_bytes n v) = v mod 256 ^ n"
proof (induction n arbitrary: v)
  case (Suc n)
  have "unat (of_nat (v mod 256) :: byte) = v mod 256" by (simp add: unat_of_nat)
  with Suc show ?case by (simp add: mod_mult2_eq)
qed simp

lemma le_bytes_le_val: "le_bytes (length bs) (le_val bs) = bs"
proof (induction bs)
  case (Cons b bs)
  have b: "unat b < 256" by simp
  have "(unat b + 256 * le_val bs) mod 256 = unat b" using b by simp
  moreover have "(unat b + 256 * le_val bs) div 256 = le_val bs" using b by simp
  ultimately show ?case using Cons by simp
qed simp

definition to_le_bytes :: "'a::len word \<Rightarrow> bytes" where
  "to_le_bytes w = le_bytes (LENGTH('a) div 8) (unat w)"

definition from_le_bytes :: "bytes \<Rightarrow> 'a::len word" where
  "from_le_bytes bs = of_nat (le_val bs)"

definition to_be_bytes :: "'a::len word \<Rightarrow> bytes" where
  "to_be_bytes w = rev (to_le_bytes w)"

definition from_be_bytes :: "bytes \<Rightarrow> 'a::len word" where
  "from_be_bytes bs = from_le_bytes (rev bs)"

lemma length_to_le_bytes [simp]: "length (to_le_bytes (w :: 'a::len word)) = LENGTH('a) div 8"
  by (simp add: to_le_bytes_def)

lemma length_to_be_bytes [simp]: "length (to_be_bytes (w :: 'a::len word)) = LENGTH('a) div 8"
  by (simp add: to_be_bytes_def)

lemma pow256: "256 ^ n = (2::nat) ^ (8 * n)"
  by (simp add: power_mult)

lemma from_to_le_bytes [wire_simps]:
  "8 dvd LENGTH('a) \<Longrightarrow> from_le_bytes (to_le_bytes (w :: 'a::len word)) = w"
proof -
  assume "8 dvd LENGTH('a)"
  then have "256 ^ (LENGTH('a) div 8) = (2::nat) ^ LENGTH('a)" by (simp add: pow256)
  then show ?thesis by (simp add: from_le_bytes_def to_le_bytes_def le_val_le_bytes)
qed

lemma unat_of_nat_eq': "n < 2 ^ LENGTH('a) \<Longrightarrow> unat (of_nat n :: 'a::len word) = n"
  by (simp add: unsigned_of_nat take_bit_nat_eq_self)

lemma to_from_le_bytes [wire_simps]:
  assumes "8 * length bs = LENGTH('a)"
  shows "to_le_bytes (from_le_bytes bs :: 'a::len word) = bs"
proof -
  have "le_val bs < 2 ^ LENGTH('a)"
    using le_val_less [of bs] assms by (simp add: pow256)
  then have "unat (of_nat (le_val bs) :: 'a word) = le_val bs"
    by (simp add: unat_of_nat_eq')
  moreover have "LENGTH('a) div 8 = length bs" using assms by linarith
  ultimately show ?thesis by (simp add: from_le_bytes_def to_le_bytes_def le_bytes_le_val)
qed

text \<open>Evaluation of the encodings, on words throughout.\<close>

lemma from_le_bytes_code [code]:
  "from_le_bytes bs = (foldr (\<lambda>b w. ucast b + 256 * w) bs 0 :: 'a::len word)"
  unfolding from_le_bytes_def by (induction bs) simp_all

lemma le_bytes_conv: "le_bytes n v = map (\<lambda>i. of_nat (v div 256 ^ i mod 256)) [0..<n]"
proof (induction n arbitrary: v)
  case (Suc n)
  have "map (\<lambda>i. of_nat (v div 256 ^ i mod 256) :: byte) [0..<Suc n] = of_nat (v mod 256) # map (\<lambda>i. of_nat (v div 256 ^ Suc i mod 256)) [0..<n]"
    by (simp only: upt_conv_Cons map_Suc_upt [symmetric] map_map zero_less_Suc list.map(2) power_0 div_by_1 comp_def)
  then show ?case using Suc by (simp add: div_mult2_eq)
qed simp

lemma to_le_bytes_code [code]:
  "to_le_bytes (w :: 'a::len word) = map (\<lambda>i. ucast (drop_bit (8 * i) w)) [0..<LENGTH('a) div 8]"
proof -
  have "of_nat (unat w div 256 ^ i mod 256) = (ucast (drop_bit (8 * i) w) :: byte)" for i
  proof -
    have "unat w div 256 ^ i = unat (drop_bit (8 * i) w)" by (simp add: unat_drop_bit_eq drop_bit_nat_def pow256)
    then show ?thesis by (intro word_unat_eq_iff [THEN iffD2]) (simp add: unsigned_ucast_eq take_bit_eq_mod unat_of_nat)
  qed
  then show ?thesis by (simp add: to_le_bytes_def le_bytes_conv)
qed

lemma from_to_be_bytes [wire_simps]:
  "8 dvd LENGTH('a) \<Longrightarrow> from_be_bytes (to_be_bytes (w :: 'a::len word)) = w"
  by (simp add: from_be_bytes_def to_be_bytes_def from_to_le_bytes)

lemma to_from_be_bytes [wire_simps]:
  "8 * length bs = LENGTH('a) \<Longrightarrow> to_be_bytes (from_be_bytes bs :: 'a::len word) = bs"
  by (simp add: from_be_bytes_def to_be_bytes_def to_from_le_bytes)

lemma to_be_bytes_inj:
  "8 dvd LENGTH('a) \<Longrightarrow> to_be_bytes (v :: 'a::len word) = to_be_bytes w \<longleftrightarrow> v = w"
  using from_to_be_bytes by metis

lemma two_elements: "length xs = 2 \<Longrightarrow> \<exists>a b. xs = [a, b]"
  by (cases xs; cases "tl xs") auto

lemma u16_be_bytes:
  fixes w :: u16
  obtains a b where "to_be_bytes w = [a, b]" and "(from_be_bytes [a, b] :: u16) = w"
proof -
  obtain a b where ab: "to_be_bytes w = [a, b]"
    using two_elements [of "to_be_bytes w"] by auto
  moreover have "(from_be_bytes [a, b] :: u16) = w"
    using from_to_be_bytes [of w] by (simp add: ab)
  ultimately show thesis by (rule that)
qed

lemma u16_le_bytes:
  fixes w :: u16
  obtains a b where "to_le_bytes w = [a, b]" and "(from_le_bytes [a, b] :: u16) = w"
proof -
  obtain a b where ab: "to_le_bytes w = [a, b]"
    using two_elements [of "to_le_bytes w"] by auto
  moreover have "(from_le_bytes [a, b] :: u16) = w"
    using from_to_le_bytes [of w] by (simp add: ab)
  ultimately show thesis by (rule that)
qed

lemma unat_inc:
  fixes v :: "'a::len word"
  assumes "v \<noteq> - 1"
  shows "unat (v + 1) = Suc (unat v)" and "Suc (unat v) < 2 ^ LENGTH('a)"
proof -
  have "1 + v \<noteq> 0" using assms by (metis add.commute add_eq_0_iff)
  then show eq: "unat (v + 1) = Suc (unat v)" by (metis unatSuc add.commute)
  have "unat (v + 1) < 2 ^ LENGTH('a)" by (rule unsigned_less)
  then show "Suc (unat v) < 2 ^ LENGTH('a)" using eq by simp
qed

lemma unat_of_nat_u16 [simp]: "n \<le> 65535 \<Longrightarrow> unat (of_nat n :: u16) = n"
  by (simp add: unat_of_nat_eq')

lemma u16_of_nat_eq_iff:
  assumes "a < 65536" "b < 65536"
  shows "(of_nat a :: u16) = of_nat b \<longleftrightarrow> a = b"
proof
  assume "(of_nat a :: u16) = of_nat b"
  then have "unat (of_nat a :: u16) = unat (of_nat b :: u16)" by (rule arg_cong)
  then show "a = b" using assms by simp
qed simp

lemma unat_of_nat_u32 [simp]: "n < 4294967296 \<Longrightarrow> unat (of_nat n :: u32) = n"
  by (simp add: unat_of_nat_eq')

lemma unat_u16_le [simp]: "unat (w :: u16) \<le> 65535"
proof -
  have "unat w < 2 ^ LENGTH(16)" by (rule unsigned_less)
  then show ?thesis by simp
qed

lemma unat_u32_less [simp]: "unat (w :: u32) < 4294967296"
proof -
  have "unat w < 2 ^ LENGTH(32)" by (rule unsigned_less)
  then show ?thesis by simp
qed

section \<open>Hash tables\<close>

text \<open>
  A \<^verbatim>\<open>HashMap\<close> is an association list with distinct keys; the code never depends on
  the iteration order. \<^verbatim>\<open>get\<close> is \<^const>\<open>map_of\<close>, \<^verbatim>\<open>insert\<close> is
  \<^const>\<open>AList.update\<close>, \<^verbatim>\<open>remove\<close> is \<^const>\<open>AList.delete\<close>.
\<close>

definition total_cost :: "('v \<Rightarrow> nat) \<Rightarrow> ('k \<times> 'v) list \<Rightarrow> nat" where
  "total_cost cost es = sum_list (map (cost \<circ> snd) es)"

definition accounted :: "('v \<Rightarrow> nat) \<Rightarrow> ('k \<times> 'v) list \<Rightarrow> nat \<Rightarrow> bool" where
  "accounted cost es n \<longleftrightarrow> distinct (map fst es) \<and> n = total_cost cost es"

lemma total_cost_simps [simp]:
  "total_cost cost [] = 0" "total_cost cost (e # es) = cost (snd e) + total_cost cost es"
  "total_cost cost (es @ fs) = total_cost cost es + total_cost cost fs"
  by (simp_all add: total_cost_def)

lemma delete_eq_filter: "AList.delete k es = filter (\<lambda>e. fst e \<noteq> k) es"
  by (simp add: AList.delete_eq case_prod_unfold eq_commute)

lemma total_cost_filter_le: "total_cost cost (filter P es) \<le> total_cost cost es"
  by (induction es) auto

lemma update_new: "k \<notin> fst ` set es \<Longrightarrow> AList.update k v es = es @ [(k, v)]"
  by (induction es) auto

lemma map_of_None_iff: "map_of es k = None \<longleftrightarrow> k \<notin> fst ` set es"
  by (simp add: map_of_eq_None_iff)

lemma delete_absent: "k \<notin> fst ` set es \<Longrightarrow> AList.delete k es = es"
  by (auto simp: delete_eq_filter filter_id_conv)

lemma total_cost_delete [table_simps]:
  "distinct (map fst es) \<Longrightarrow> map_of es k = Some e \<Longrightarrow> total_cost cost (AList.delete k es) + cost e = total_cost cost es"
proof (induction es)
  case (Cons x es)
  show ?case
  proof (cases "fst x = k")
    case True
    then have "AList.delete k es = es" using Cons.prems by (intro delete_absent) auto
    with True Cons.prems show ?thesis by (simp add: delete_eq_filter split: if_splits)
  next
    case False
    with Cons show ?thesis by (auto simp: delete_eq_filter split: if_splits)
  qed
qed simp

lemma total_cost_update [table_simps]:
  "distinct (map fst es) \<Longrightarrow> map_of es k = Some e \<Longrightarrow>
     total_cost cost (AList.update k v es) + cost e = total_cost cost es + cost v"
  by (induction es) (auto split: if_splits)

lemma length_update_present [table_simps]:
  "map_of es k = Some e \<Longrightarrow> length (AList.update k v es) = length es"
  by (induction es) (auto split: if_splits)

lemma length_update_new [table_simps]:
  "map_of es k = None \<Longrightarrow> length (AList.update k v es) = Suc (length es)"
  by (simp add: map_of_None_iff update_new)

lemma cost_le_total: "map_of es k = Some e \<Longrightarrow> cost e \<le> total_cost cost es"
  by (induction es) (auto split: if_splits)

lemma set_update_subset: "set (AList.update k v es) \<subseteq> insert (k, v) (set es)"
  by (induction es) auto

lemma set_delete_subset: "set (AList.delete k es) \<subseteq> set es"
  by (auto simp: delete_eq_filter)

lemma length_delete_le': "length (AList.delete k es) \<le> length es"
  by (simp add: delete_eq_filter)

section \<open>Tables that account for what they buffer\<close>

text \<open>
  The contract two reassemblers share: a table of pending items with a creation time and a
  cost, and a counter of the buffered bytes that removal keeps exact. Expiry is the
  removal of every item older than the timeout.
\<close>

locale accounted_table =
  fixes entries :: "'s \<Rightarrow> ('k \<times> 'v) list"
    and buffered :: "'s \<Rightarrow> nat"
    and remove_key :: "'k \<Rightarrow> 's \<Rightarrow> 's"
    and cost :: "'v \<Rightarrow> nat"
  assumes entries_remove: "entries (remove_key k s) = AList.delete k (entries s)"
    and buffered_remove: "buffered (remove_key k s) =
      (case map_of (entries s) k of None \<Rightarrow> buffered s | Some e \<Rightarrow> buffered s - cost e)"
begin

lemma accounted_remove:
  assumes "accounted cost (entries s) (buffered s)"
  shows "accounted cost (entries (remove_key k s)) (buffered (remove_key k s))"
proof (cases "map_of (entries s) k")
  case None
  moreover from None have "AList.delete k (entries s) = entries s"
    by (simp add: delete_absent map_of_None_iff)
  ultimately show ?thesis using assms by (simp add: entries_remove buffered_remove)
next
  case (Some e)
  have "total_cost cost (AList.delete k (entries s)) + cost e = total_cost cost (entries s)"
    using assms Some by (intro total_cost_delete) (auto simp: accounted_def)
  then show ?thesis using assms Some
    by (auto simp: accounted_def entries_remove buffered_remove distinct_delete)
qed

lemma buffered_remove_le: "buffered (remove_key k s) \<le> buffered s"
  by (simp add: buffered_remove split: option.splits)

lemma accounted_fold_remove:
  "accounted cost (entries s) (buffered s) \<Longrightarrow>
     accounted cost (entries (fold remove_key ks s)) (buffered (fold remove_key ks s))"
  by (induction ks arbitrary: s) (simp_all add: accounted_remove)

lemma buffered_fold_remove_le: "buffered (fold remove_key ks s) \<le> buffered s"
proof (induction ks arbitrary: s)
  case (Cons k ks)
  have "buffered (fold remove_key ks (remove_key k s)) \<le> buffered (remove_key k s)" by (rule Cons)
  also have "\<dots> \<le> buffered s" by (rule buffered_remove_le)
  finally show ?case by simp
qed simp

lemma entries_fold_remove: "entries (fold remove_key ks s) = filter (\<lambda>e. fst e \<notin> set ks) (entries s)"
proof (induction ks arbitrary: s)
  case (Cons k ks)
  show ?case by (simp add: Cons entries_remove delete_eq_filter conj_commute)
qed simp

lemma entries_expire:
  assumes "distinct (map fst (entries s))"
  shows "entries (fold remove_key (map fst (filter (\<lambda>e. old (snd e)) (entries s))) s)
    = filter (\<lambda>e. \<not> old (snd e)) (entries s)"
proof -
  have "fst e \<in> set (map fst (filter (\<lambda>e. old (snd e)) (entries s))) \<longleftrightarrow> old (snd e)"
    if "e \<in> set (entries s)" for e
  proof
    assume "fst e \<in> set (map fst (filter (\<lambda>e. old (snd e)) (entries s)))"
    then obtain e' where e': "e' \<in> set (entries s)" "fst e' = fst e" "old (snd e')" by auto
    then have "snd e' = snd e"
      using assms that by (metis eq_key_imp_eq_value prod.collapse)
    with e' show "old (snd e)" by simp
  qed (use that in auto)
  then show ?thesis by (simp add: entries_fold_remove cong: filter_cong)
qed

lemma map_of_expire:
  assumes "distinct (map fst (entries s))"
  shows "map_of (entries (fold remove_key (map fst (filter (\<lambda>e. old (snd e)) (entries s))) s)) k =
    (case map_of (entries s) k of None \<Rightarrow> None | Some e \<Rightarrow> if old e then None else Some e)"
proof -
  have "map_of (filter (\<lambda>e. \<not> old (snd e)) es) k =
      (case map_of es k of None \<Rightarrow> None | Some e \<Rightarrow> if old e then None else Some e)"
    if "distinct (map fst es)" for es :: "('k \<times> 'v) list"
    using that by (induction es) (force split: option.splits simp: map_of_eq_None_iff)+
  then show ?thesis using assms by (simp add: entries_expire)
qed

end

end
