(* ===== verification/Replay_Window.thy ===== *)
theory Replay_Window
  imports Qeli_Prelude
begin

unbundle bit_operations_syntax

text \<open>
  The anti-replay window of \<^verbatim>\<open>protocol/packet.rs\<close>: the 2048-bit array over 32
  words with its in-place multi-word shift, its refinement to a finite set of sequence
  numbers, and the exact verdict of every packet of a session in terms of the history.
\<close>

section \<open>The window as the code has it\<close>

definition REPLAY_WINDOW_SIZE :: nat where
  "REPLAY_WINDOW_SIZE = 2048"

definition REPLAY_WORDS :: nat where
  "REPLAY_WORDS = REPLAY_WINDOW_SIZE div 64"

record ReplayWindow =
  highest :: u64
  bits :: "u64 list"
  initialized :: bool

definition ReplayWindow_new :: ReplayWindow where
  "ReplayWindow_new = \<lparr>highest = 0, bits = replicate REPLAY_WORDS 0, initialized = False\<rparr>"

definition get_bit :: "ReplayWindow \<Rightarrow> nat \<Rightarrow> bool" where
  "get_bit w d = (drop_bit (d mod 64) (bits w ! (d div 64)) AND 1 \<noteq> 0)"

definition set_bit_at :: "nat \<Rightarrow> ReplayWindow \<Rightarrow> ReplayWindow" where
  "set_bit_at d w = w\<lparr>bits := (bits w)[d div 64 := bits w ! (d div 64) OR push_bit (d mod 64) 1]\<rparr>"

text \<open>One iteration of the descending loop of \<^verbatim>\<open>shift\<close>, on the array in place.\<close>

definition shift_word :: "nat \<Rightarrow> nat \<Rightarrow> nat \<Rightarrow> u64 list \<Rightarrow> u64" where
  "shift_word words off i bs =
     (if off = 0 then (if words \<le> i then bs ! (i - words) else 0)
      else (let lo = (if words \<le> i then push_bit off (bs ! (i - words)) else 0);
                hi = (if words < i then drop_bit (64 - off) (bs ! (i - words - 1)) else 0)
            in lo OR hi))"

primrec shift_loop :: "nat \<Rightarrow> nat \<Rightarrow> nat \<Rightarrow> u64 list \<Rightarrow> u64 list" where
  "shift_loop words off 0 bs = bs"
| "shift_loop words off (Suc i) bs = shift_loop words off i (bs[i := shift_word words off i bs])"

definition shift :: "nat \<Rightarrow> ReplayWindow \<Rightarrow> ReplayWindow" where
  "shift n w = w\<lparr>bits := shift_loop (n div 64) (n mod 64) REPLAY_WORDS (bits w)\<rparr>"

definition check_and_record :: "ReplayWindow \<Rightarrow> u64 \<Rightarrow> bool \<times> ReplayWindow" where
  "check_and_record w seq =
     (if \<not> initialized w then
        (True, set_bit_at 0 (w\<lparr>highest := seq, initialized := True, bits := replicate REPLAY_WORDS 0\<rparr>))
      else if highest w < seq then
        (let advance = seq - highest w;
             w' = (if of_nat REPLAY_WINDOW_SIZE \<le> advance then w\<lparr>bits := replicate REPLAY_WORDS 0\<rparr>
                   else shift (unat advance) w)
         in (True, set_bit_at 0 (w'\<lparr>highest := seq\<rparr>)))
      else
        (let distance = highest w - seq
         in if of_nat REPLAY_WINDOW_SIZE \<le> distance then (False, w)
            else if get_bit w (unat distance) then (False, w)
            else (True, set_bit_at (unat distance) w)))"

primrec replay_run :: "ReplayWindow \<Rightarrow> u64 list \<Rightarrow> bool list" where
  "replay_run w [] = []"
| "replay_run w (s # ss) = (let (ok, w') = check_and_record w s in ok # replay_run w' ss)"

definition conformance_replay_sequence :: "u64 list \<Rightarrow> bool list" where
  "conformance_replay_sequence seqs = replay_run ReplayWindow_new seqs"

section \<open>The bit array\<close>

text \<open>A window is well formed when its array has its 32 words; no operation changes that.\<close>

definition window_wf :: "ReplayWindow \<Rightarrow> bool" where
  "window_wf w \<longleftrightarrow> length (bits w) = REPLAY_WORDS"

definition bit_at :: "u64 list \<Rightarrow> nat \<Rightarrow> bool" where
  "bit_at bs d = bit (bs ! (d div 64)) (d mod 64)"

lemma REPLAY_WORDS_eq [simp]: "REPLAY_WORDS = 32"
  by (simp add: REPLAY_WORDS_def REPLAY_WINDOW_SIZE_def)

lemma get_bit_bit_at: "get_bit w d = bit_at (bits w) d"
  by (simp add: get_bit_def bit_at_def and_one_eq bit_iff_odd_drop_bit even_iff_mod_2_eq_zero
      flip: bit_0)

lemma bit_at_split: "q < 64 \<Longrightarrow> bit_at bs (k * 64 + q) = bit (bs ! k) q"
  by (simp add: bit_at_def)

lemma bit_at_replicate: "d < 2048 \<Longrightarrow> \<not> bit_at (replicate 32 0) d"
  by (simp add: bit_at_def)

lemma length_shift_loop [simp]: "length (shift_loop ws off i bs) = length bs"
  by (induction i arbitrary: bs) simp_all

text \<open>
  The loop writes in descending order and every iteration reads at or below the word it
  writes, so in place it computes the same words as from a copy.
\<close>

lemma shift_word_cong:
  "(\<And>j. j \<le> i \<Longrightarrow> bs ! j = cs ! j) \<Longrightarrow> shift_word ws off i bs = shift_word ws off i cs"
  by (simp add: shift_word_def Let_def)

lemma shift_loop_nth:
  assumes "i \<le> length bs" and "j < length bs"
  shows "shift_loop ws off i bs ! j = (if j < i then shift_word ws off j bs else bs ! j)"
  using assms
proof (induction i arbitrary: bs)
  case (Suc i)
  let ?bs = "bs[i := shift_word ws off i bs]"
  have "shift_loop ws off (Suc i) bs ! j = (if j < i then shift_word ws off j ?bs else ?bs ! j)"
    using Suc by simp
  moreover have "j < i \<Longrightarrow> shift_word ws off j ?bs = shift_word ws off j bs"
    by (rule shift_word_cong) simp
  ultimately show ?case using Suc.prems by (auto simp: nth_list_update less_Suc_eq)
qed simp

lemma bit_shift_word:
  assumes "p < 64" and "off < 64"
  shows "bit (shift_word ws off i bs) p \<longleftrightarrow>
    ws * 64 + off \<le> i * 64 + p \<and> bit_at bs (i * 64 + p - (ws * 64 + off))"
proof (cases "off \<le> p")
  case True
  have "bit (drop_bit (64 - off) x) p = False" if "0 < off" for x :: u64
    using that True assms by (auto simp: bit_drop_bit_eq dest: bit_imp_le_length)
  moreover have "bit_at bs (i * 64 + p - (ws * 64 + off)) = bit (bs ! (i - ws)) (p - off)" if "ws \<le> i"
  proof -
    have "i * 64 + p - (ws * 64 + off) = (i - ws) * 64 + (p - off)"
      using that True by (simp add: algebra_simps)
    then show ?thesis using assms by (simp add: bit_at_split)
  qed
  ultimately show ?thesis using True assms
    by (cases "ws \<le> i") (auto simp: shift_word_def Let_def bit_simps)
next
  case False
  then have off: "0 < off" by simp
  have "bit_at bs (i * 64 + p - (ws * 64 + off)) = bit (bs ! (i - ws - 1)) (64 - off + p)" if "ws < i"
  proof -
    have "i * 64 + p - (ws * 64 + off) = (i - ws - 1) * 64 + (64 - off + p)"
      using that False assms by (simp add: algebra_simps)
    then show ?thesis using False by (simp add: bit_at_split)
  qed
  then show ?thesis using False off assms
    by (cases "ws < i") (auto simp: shift_word_def Let_def bit_simps)
qed

lemma bit_at_shift_loop:
  assumes "length bs = 32" and "d < 2048"
  shows "bit_at (shift_loop (n div 64) (n mod 64) 32 bs) d \<longleftrightarrow> n \<le> d \<and> bit_at bs (d - n)"
proof -
  have i: "d div 64 < 32" using assms by simp
  have "bit_at (shift_loop (n div 64) (n mod 64) 32 bs) d
      = bit (shift_word (n div 64) (n mod 64) (d div 64) bs) (d mod 64)"
    using assms i by (simp add: bit_at_def shift_loop_nth)
  also have "\<dots> \<longleftrightarrow> n \<le> d \<and> bit_at bs (d - n)"
    by (subst bit_shift_word) simp_all
  finally show ?thesis .
qed

lemma bit_at_set_bit:
  assumes "length (bits w) = 32" and "d < 2048" and "e < 2048"
  shows "bit_at (bits (set_bit_at d w)) e \<longleftrightarrow> e = d \<or> bit_at (bits w) e"
proof (cases "e div 64 = d div 64")
  case True
  then have "e = d \<longleftrightarrow> e mod 64 = d mod 64" by (metis div_mod_decomp)
  with True assms show ?thesis
    by (auto simp: set_bit_at_def bit_at_def bit_simps)
next
  case False
  with assms show ?thesis by (auto simp: set_bit_at_def bit_at_def)
qed

section \<open>Refinement to a set of sequence numbers\<close>

text \<open>
  What the window promises: after any packets, the highest sequence number and the set of
  recorded numbers less than 2048 behind it.
\<close>

definition seen_set :: "ReplayWindow \<Rightarrow> nat set" where
  "seen_set w = {s. s \<le> unat (highest w) \<and> unat (highest w) - s < REPLAY_WINDOW_SIZE
     \<and> bit_at (bits w) (unat (highest w) - s)}"

definition abs_window :: "ReplayWindow \<Rightarrow> (nat \<times> nat set) option" where
  "abs_window w = (if initialized w then Some (unat (highest w), seen_set w) else None)"

fun spec_check :: "(nat \<times> nat set) option \<Rightarrow> nat \<Rightarrow> bool \<times> (nat \<times> nat set) option" where
  "spec_check None s = (True, Some (s, {s}))"
| "spec_check (Some (h, S)) s =
     (if h < s then (True, Some (s, insert s {x \<in> S. s - x < REPLAY_WINDOW_SIZE}))
      else if REPLAY_WINDOW_SIZE \<le> h - s \<or> s \<in> S then (False, Some (h, S))
      else (True, Some (h, insert s S)))"

lemma window_wf_new: "window_wf ReplayWindow_new"
  by (simp add: window_wf_def ReplayWindow_new_def)

lemma window_wf_check: "window_wf w \<Longrightarrow> window_wf (snd (check_and_record w s))"
  by (simp add: window_wf_def check_and_record_def set_bit_at_def shift_def Let_def)

lemma seen_set_set_bit:
  assumes "window_wf w" and "d < 2048" and "d \<le> unat (highest w)"
  shows "seen_set (set_bit_at d w) = insert (unat (highest w) - d) (seen_set w)"
proof -
  have [simp]: "highest (set_bit_at d w) = highest w" by (simp add: set_bit_at_def)
  have "x \<in> seen_set (set_bit_at d w) \<longleftrightarrow> x = unat (highest w) - d \<or> x \<in> seen_set w" for x
    using assms
    by (auto simp: seen_set_def REPLAY_WINDOW_SIZE_def window_wf_def bit_at_set_bit)
  then show ?thesis by blast
qed

lemma unat_advance: "highest w < s \<Longrightarrow> unat (s - highest w) = unat s - unat (highest w)"
  by (simp add: unat_sub order_less_imp_le)

lemma unat_window_le: "of_nat REPLAY_WINDOW_SIZE \<le> (a :: u64) \<longleftrightarrow> REPLAY_WINDOW_SIZE \<le> unat a"
  by (simp add: REPLAY_WINDOW_SIZE_def word_le_nat_alt)

lemma refine_advance:
  assumes wf: "window_wf w" and lt: "highest w < s"
    and w': "w' = (if REPLAY_WINDOW_SIZE \<le> unat s - unat (highest w)
       then w\<lparr>bits := replicate REPLAY_WORDS 0\<rparr> else shift (unat s - unat (highest w)) w)"
  shows "seen_set (w'\<lparr>highest := s\<rparr>) = {x \<in> seen_set w. unat s - x < REPLAY_WINDOW_SIZE}"
proof -
  let ?h = "unat (highest w)" and ?n = "unat s - unat (highest w)"
  have hs: "?h < unat s" using lt by (simp add: word_less_nat_alt)
  have "x \<in> seen_set (w'\<lparr>highest := s\<rparr>) \<longleftrightarrow> x \<in> seen_set w \<and> unat s - x < REPLAY_WINDOW_SIZE" for x
  proof (cases "REPLAY_WINDOW_SIZE \<le> ?n")
    case True
    with w' hs show ?thesis
      by (auto simp: seen_set_def REPLAY_WINDOW_SIZE_def bit_at_replicate)
  next
    case False
    have bits: "bit_at (bits w') d \<longleftrightarrow> ?n \<le> d \<and> bit_at (bits w) (d - ?n)" if "d < 2048" for d
      using False wf that
      by (simp add: w' shift_def window_wf_def bit_at_shift_loop)
    have "x \<le> unat s \<Longrightarrow> ?n \<le> unat s - x \<longleftrightarrow> x \<le> ?h" using hs by linarith
    moreover have "x \<le> ?h \<Longrightarrow> unat s - x - ?n = ?h - x" using hs by linarith
    ultimately show ?thesis using hs
      by (auto simp: seen_set_def REPLAY_WINDOW_SIZE_def bits)
  qed
  then show ?thesis by blast
qed

lemma check_and_record_refines:
  assumes wf: "window_wf w"
  shows "spec_check (abs_window w) (unat s)
    = (fst (check_and_record w s), abs_window (snd (check_and_record w s)))"
proof (cases "initialized w")
  case False
  let ?w = "w\<lparr>highest := s, initialized := True, bits := replicate REPLAY_WORDS 0\<rparr>"
  have "seen_set ?w = {}"
    by (auto simp: seen_set_def bit_at_replicate REPLAY_WINDOW_SIZE_def)
  then have "seen_set (set_bit_at 0 ?w) = {unat s}"
    using seen_set_set_bit [of ?w 0] by (simp add: window_wf_def)
  with False show ?thesis
    by (simp add: check_and_record_def abs_window_def) (simp add: set_bit_at_def)
next
  case init: True
  show ?thesis
  proof (cases "highest w < s")
    case True
    define w' where "w' = (if REPLAY_WINDOW_SIZE \<le> unat s - unat (highest w)
       then w\<lparr>bits := replicate REPLAY_WORDS 0\<rparr> else shift (unat s - unat (highest w)) w)"
    have chk: "check_and_record w s = (True, set_bit_at 0 (w'\<lparr>highest := s\<rparr>))"
      using True init
      by (simp add: check_and_record_def Let_def w'_def unat_window_le unat_advance)
    have "window_wf (w'\<lparr>highest := s\<rparr>)"
      using wf by (simp add: window_wf_def w'_def shift_def)
    then have "seen_set (set_bit_at 0 (w'\<lparr>highest := s\<rparr>))
        = insert (unat s) {x \<in> seen_set w. unat s - x < REPLAY_WINDOW_SIZE}"
      using seen_set_set_bit [of "w'\<lparr>highest := s\<rparr>" 0] refine_advance [OF wf True w'_def] by simp
    moreover have "initialized w'" using init by (simp add: w'_def shift_def)
    ultimately show ?thesis using True init chk
      by (simp add: abs_window_def word_less_nat_alt) (simp add: set_bit_at_def)
  next
    case False
    then have le: "s \<le> highest w" by simp
    have d: "unat (highest w - s) = unat (highest w) - unat s"
      using le by (simp add: unat_sub)
    have mem: "unat s \<in> seen_set w \<longleftrightarrow> unat (highest w) - unat s < REPLAY_WINDOW_SIZE
        \<and> get_bit w (unat (highest w) - unat s)"
      using le by (simp add: seen_set_def get_bit_bit_at word_le_nat_alt)
    show ?thesis
      using False init le d mem seen_set_set_bit [OF wf, of "unat (highest w) - unat s"]
      by (simp add: check_and_record_def Let_def unat_window_le abs_window_def word_le_nat_alt
          word_less_nat_alt REPLAY_WINDOW_SIZE_def) (auto simp: set_bit_at_def)
  qed
qed

section \<open>The contract of a replay guard\<close>

text \<open>
  What the packet codec relies on: a guard whose state is viewed as the set specification.
  The verdict on a sequence number then depends on the history alone: it is accepted
  exactly when it was never presented before and is less than 2048 behind the largest
  number presented.
\<close>

definition history_view :: "u64 list \<Rightarrow> (nat \<times> nat set) option" where
  "history_view ss = (if ss = [] then None else
     (let m = Max (unat ` set ss) in Some (m, {x \<in> unat ` set ss. m - x < REPLAY_WINDOW_SIZE})))"

lemma spec_check_history:
  "spec_check (history_view ss) (unat s) =
     (s \<notin> set ss \<and> (\<forall>x \<in> set ss. unat x < unat s + REPLAY_WINDOW_SIZE), history_view (ss @ [s]))"
proof (cases "ss = []")
  case True
  then show ?thesis by (auto simp: history_view_def REPLAY_WINDOW_SIZE_def Let_def)
next
  case ne: False
  define S where "S = unat ` set ss"
  have fin: "finite S" "S \<noteq> {}" using ne by (auto simp: S_def)
  have mem: "s \<in> set ss \<longleftrightarrow> unat s \<in> S"
    unfolding S_def by (rule inj_image_mem_iff [symmetric]) (rule inj_unsigned)
  have all: "(\<forall>x \<in> set ss. unat x < unat s + REPLAY_WINDOW_SIZE) \<longleftrightarrow> Max S < unat s + REPLAY_WINDOW_SIZE"
    using fin by (simp add: S_def Max_less_iff)
  have set': "unat ` set (ss @ [s]) = insert (unat s) S" by (auto simp: S_def)
  have max': "Max (insert (unat s) S) = max (unat s) (Max S)" using fin by simp
  have le: "x \<in> S \<Longrightarrow> x \<le> Max S" for x using fin by simp
  have h: "history_view ss = Some (Max S, {x \<in> S. Max S - x < REPLAY_WINDOW_SIZE})"
    using ne by (simp add: history_view_def S_def Let_def)
  have h': "history_view (ss @ [s]) = Some (max (unat s) (Max S),
      {x \<in> insert (unat s) S. max (unat s) (Max S) - x < REPLAY_WINDOW_SIZE})"
    using set' max' by (simp add: history_view_def Let_def)
  have pos: "0 < REPLAY_WINDOW_SIZE" by (simp add: REPLAY_WINDOW_SIZE_def)
  show ?thesis
  proof (cases "Max S < unat s")
    case True
    then have ns: "unat s \<notin> S" using le [of "unat s"] by auto
    have "{x \<in> insert (unat s) S. unat s - x < REPLAY_WINDOW_SIZE}
        = insert (unat s) {x \<in> {x \<in> S. Max S - x < REPLAY_WINDOW_SIZE}. unat s - x < REPLAY_WINDOW_SIZE}"
    proof (rule set_eqI)
      fix x
      show "x \<in> {x \<in> insert (unat s) S. unat s - x < REPLAY_WINDOW_SIZE} \<longleftrightarrow> x \<in> insert (unat s)
        {x \<in> {x \<in> S. Max S - x < REPLAY_WINDOW_SIZE}. unat s - x < REPLAY_WINDOW_SIZE}"
        using True pos by auto
    qed
    with True ns show ?thesis by (simp add: h h' mem all max_def)
  next
    case False
    then have mx: "max (unat s) (Max S) = Max S" by simp
    show ?thesis
    proof (cases "REPLAY_WINDOW_SIZE \<le> Max S - unat s \<or> unat s \<in> S")
      case True
      then have "{x \<in> insert (unat s) S. Max S - x < REPLAY_WINDOW_SIZE}
          = {x \<in> S. Max S - x < REPLAY_WINDOW_SIZE}" by auto
      moreover have "\<not> (unat s \<notin> S \<and> Max S < unat s + REPLAY_WINDOW_SIZE)"
        using True False pos by (metis add.commute less_diff_conv2 linorder_not_less)
      moreover have "REPLAY_WINDOW_SIZE \<le> Max S - unat s \<or> unat s \<in> {x \<in> S. Max S - x < REPLAY_WINDOW_SIZE}"
        using True by auto
      ultimately show ?thesis using False
        by (simp only: h h' mem all mx spec_check.simps if_True if_False simp_thms)
    next
      case fresh: False
      then have lt: "Max S - unat s < REPLAY_WINDOW_SIZE" by linarith
      then have "{x \<in> insert (unat s) S. Max S - x < REPLAY_WINDOW_SIZE}
          = insert (unat s) {x \<in> S. Max S - x < REPLAY_WINDOW_SIZE}" by blast
      moreover have "unat s \<notin> S \<and> Max S < unat s + REPLAY_WINDOW_SIZE"
        using fresh lt False by (metis add.commute less_diff_conv2 linorder_not_less)
      moreover have "\<not> (REPLAY_WINDOW_SIZE \<le> Max S - unat s \<or> unat s \<in> {x \<in> S. Max S - x < REPLAY_WINDOW_SIZE})"
        using fresh by blast
      ultimately show ?thesis using False
        by (simp only: h h' mem all mx spec_check.simps if_True if_False simp_thms)
    qed
  qed
qed

locale replay_guard =
  fixes check :: "'w \<Rightarrow> u64 \<Rightarrow> bool \<times> 'w"
    and fresh :: 'w
    and wf :: "'w \<Rightarrow> bool"
    and view :: "'w \<Rightarrow> (nat \<times> nat set) option"
  assumes wf_fresh: "wf fresh"
    and wf_check: "wf w \<Longrightarrow> wf (snd (check w s))"
    and view_fresh: "view fresh = None"
    and check_refines: "wf w \<Longrightarrow> spec_check (view w) (unat s) = (fst (check w s), view (snd (check w s)))"
begin

lemma state_of_history:
  "wf (fold (\<lambda>s w. snd (check w s)) ss fresh) \<and>
   view (fold (\<lambda>s w. snd (check w s)) ss fresh) = history_view ss"
proof (induction ss rule: rev_induct)
  case Nil
  then show ?case by (simp add: wf_fresh view_fresh history_view_def)
next
  case (snoc s ss)
  let ?w = "fold (\<lambda>s w. snd (check w s)) ss fresh"
  have "view (snd (check ?w s)) = snd (spec_check (history_view ss) (unat s))"
    using snoc check_refines [of ?w s] by simp
  then show ?case using snoc wf_check by (simp add: spec_check_history)
qed

lemma verdict_of_history:
  "fst (check (fold (\<lambda>s w. snd (check w s)) ss fresh) s) \<longleftrightarrow>
     s \<notin> set ss \<and> (\<forall>x \<in> set ss. unat x < unat s + REPLAY_WINDOW_SIZE)"
proof -
  let ?w = "fold (\<lambda>s w. snd (check w s)) ss fresh"
  have "fst (check ?w s) = fst (spec_check (history_view ss) (unat s))"
    using state_of_history [of ss] check_refines [of ?w s] by simp
  then show ?thesis by (simp add: spec_check_history)
qed

lemma accepted_only_once:
  "s \<in> set ss \<Longrightarrow> \<not> fst (check (fold (\<lambda>s w. snd (check w s)) ss fresh) s)"
  by (simp add: verdict_of_history)

end

interpretation rw: replay_guard check_and_record ReplayWindow_new window_wf abs_window
proof unfold_locales
  show "abs_window ReplayWindow_new = None" by (simp add: abs_window_def ReplayWindow_new_def)
qed (simp_all add: window_wf_new window_wf_check check_and_record_refines)

lemma replay_run_nth:
  "i < length ss \<Longrightarrow>
     replay_run w ss ! i = fst (check_and_record (fold (\<lambda>s w. snd (check_and_record w s)) (take i ss) w) (ss ! i))"
proof (induction ss arbitrary: w i)
  case (Cons s ss)
  then show ?case by (cases i) (simp_all add: split_beta Let_def)
qed simp

lemma length_replay_run [simp]: "length (replay_run w ss) = length ss"
  by (induction ss arbitrary: w) (simp_all add: split_beta Let_def)

section \<open>Properties\<close>

text \<open>
  C5. The verdict of the replay window on the packet at any position of any sequence of
  64-bit sequence numbers, from a new window: accepted exactly when that number did not
  occur earlier and is less than 2048 behind the largest earlier number. This is the
  complete input-output behaviour of the multi-word bit array, at the 64-bit limits too.
\<close>

theorem replay_verdict_exact:
  assumes "i < length seqs"
  shows "conformance_replay_sequence seqs ! i \<longleftrightarrow>
    seqs ! i \<notin> set (take i seqs) \<and>
    (\<forall>x \<in> set (take i seqs). unat x < unat (seqs ! i) + REPLAY_WINDOW_SIZE)"
  using assms by (simp add: conformance_replay_sequence_def replay_run_nth rw.verdict_of_history)

theorem replay_verdict_exact_witness:
  "conformance_replay_sequence [5, 2060, 5, 100] ! 3 \<longleftrightarrow>
    [5, 2060, 5, 100 :: u64] ! 3 \<notin> set (take 3 [5, 2060, 5, 100]) \<and>
    (\<forall>x \<in> set (take 3 [5, 2060, 5, 100 :: u64]). unat x < unat ([5, 2060, 5, 100 :: u64] ! 3) + REPLAY_WINDOW_SIZE)"
  by (rule replay_verdict_exact) simp

text \<open>
  The bit-array window refines its set specification: on every window with its 32
  words, one call returns the verdict of the specification and leads to a window that
  represents the specification's next state and still has 32 words.
\<close>

lemma window_refines_set:
  assumes "window_wf w"
  shows "spec_check (abs_window w) (unat s)
      = (fst (check_and_record w s), abs_window (snd (check_and_record w s)))
    \<and> window_wf (snd (check_and_record w s))"
  using assms check_and_record_refines window_wf_check by blast

lemma window_refines_set_example:
  "window_wf ReplayWindow_new \<and>
   spec_check (abs_window ReplayWindow_new) (unat (7 :: u64))
      = (fst (check_and_record ReplayWindow_new 7), abs_window (snd (check_and_record ReplayWindow_new 7)))
    \<and> window_wf (snd (check_and_record ReplayWindow_new 7))"
  by (rule conjI [OF window_wf_new window_refines_set [OF window_wf_new]])

end
