(* ===== verification/Crypto_Primitives.thy ===== *)
theory Crypto_Primitives
  imports Qeli_Prelude
begin

unbundle bit_operations_syntax

text \<open>
  The cryptographic code qeli calls lives in third-party crates (chacha20poly1305, sha2,
  hmac), so it is a parameter: a record of functions that every definition using it takes
  as its first argument. The laws below state what those crates document. The thin
  \<^verbatim>\<open>Cipher\<close> wrapper of \<^verbatim>\<open>crypto/cipher.rs\<close> is modelled on top.
\<close>

record Primitives =
  chacha_seal :: "bytes \<Rightarrow> bytes \<Rightarrow> bytes \<Rightarrow> bytes \<Rightarrow> (bytes \<times> bytes) option"
  chacha_open :: "bytes \<Rightarrow> bytes \<Rightarrow> bytes \<Rightarrow> bytes \<Rightarrow> bytes \<Rightarrow> bytes option"
  sha256 :: "bytes \<Rightarrow> bytes"
  hmac_sha256 :: "bytes \<Rightarrow> bytes \<Rightarrow> bytes"

text \<open>
  ChaCha20-Poly1305 with a detached 16-byte tag: sealing a buffer of a practical size under
  a 32-byte key and a 12-byte nonce succeeds, keeps the length, and opens to the buffer.
\<close>

definition aead_laws :: "Primitives \<Rightarrow> bool" where
  "aead_laws P \<longleftrightarrow> (\<forall>k n a m. length k = 32 \<and> length n = 12 \<and> length m \<le> 2 ^ 32 \<longrightarrow>
     (\<exists>c t. chacha_seal P k n a m = Some (c, t) \<and> length c = length m \<and> length t = 16
        \<and> chacha_open P k n a c t = Some m))"

definition sha256_law :: "Primitives \<Rightarrow> bool" where
  "sha256_law P \<longleftrightarrow> (\<forall>m. length (sha256 P m) = 32)"

definition hmac_law :: "Primitives \<Rightarrow> bool" where
  "hmac_law P \<longleftrightarrow> (\<forall>k m. length (hmac_sha256 P k m) = 32)"

text \<open>An instance that satisfies the laws, for the witnesses only.\<close>

definition plain_primitives :: Primitives where
  "plain_primitives = \<lparr>
     chacha_seal = (\<lambda>k n a m. Some (m, replicate 16 0)),
     chacha_open = (\<lambda>k n a c t. if t = replicate 16 0 then Some c else None),
     sha256 = (\<lambda>m. take 32 (m @ replicate 32 0)),
     hmac_sha256 = (\<lambda>k m. take 32 (m @ replicate 32 0))\<rparr>"

lemma plain_primitives_laws:
  "aead_laws plain_primitives" "sha256_law plain_primitives" "hmac_law plain_primitives"
  by (simp_all add: plain_primitives_def aead_laws_def sha256_law_def hmac_law_def min_def)

section \<open>crypto/cipher.rs\<close>

datatype CryptoError = EncryptFailed | DecryptFailed

record Cipher =
  cipher_key :: bytes

definition Cipher_new :: "bytes \<Rightarrow> Cipher" where
  "Cipher_new key = \<lparr>cipher_key = key\<rparr>"

definition encrypt_in_place_detached ::
  "Primitives \<Rightarrow> Cipher \<Rightarrow> bytes \<Rightarrow> bytes \<Rightarrow> (CryptoError, bytes \<times> bytes) result" where
  "encrypt_in_place_detached P c nonce buffer =
     (case chacha_seal P (cipher_key c) nonce [] buffer of
        None \<Rightarrow> Err EncryptFailed
      | Some (ct, tag) \<Rightarrow> Ok (ct, tag))"

definition decrypt_in_place_detached ::
  "Primitives \<Rightarrow> Cipher \<Rightarrow> bytes \<Rightarrow> bytes \<Rightarrow> bytes \<Rightarrow> (CryptoError, bytes) result" where
  "decrypt_in_place_detached P c nonce buffer tag =
     (case chacha_open P (cipher_key c) nonce [] buffer tag of
        None \<Rightarrow> Err DecryptFailed
      | Some pt \<Rightarrow> Ok pt)"

lemma seal_then_open:
  assumes "aead_laws P" and "length (cipher_key c) = 32" and "length nonce = 12"
    and "length m \<le> 2 ^ 32"
  obtains ct tag where "encrypt_in_place_detached P c nonce m = Ok (ct, tag)"
    and "length ct = length m" and "length tag = 16"
    and "decrypt_in_place_detached P c nonce ct tag = Ok m"
proof -
  from assms obtain ct tag where "chacha_seal P (cipher_key c) nonce [] m = Some (ct, tag)"
    and "length ct = length m" and "length tag = 16"
    and "chacha_open P (cipher_key c) nonce [] ct tag = Some m"
    unfolding aead_laws_def by metis
  then show thesis
    by (intro that [of ct tag])
      (simp_all add: encrypt_in_place_detached_def decrypt_in_place_detached_def)
qed

end
