(* ===== verification/Packet_Codec.thy ===== *)
theory Packet_Codec
  imports Replay_Window Crypto_Primitives
begin

unbundle bit_operations_syntax

text \<open>
  The data-plane record codec of \<^verbatim>\<open>protocol/packet.rs\<close>: nonce permutation, record
  sizes and budgets, sealing and opening of framed records with the replay window, and the
  record readers of a byte stream.
\<close>

section \<open>Constants, framing and state\<close>

definition TLS_RECORD_HEADER :: nat where "TLS_RECORD_HEADER = 5"
definition RAW_RECORD_HEADER :: nat where "RAW_RECORD_HEADER = 2"
definition NONCE_SIZE :: nat where "NONCE_SIZE = 12"
definition TAG_SIZE :: nat where "TAG_SIZE = 16"
definition COUNTER_SIZE :: nat where "COUNTER_SIZE = 8"
definition TLS_CIPHERTEXT_MAX :: nat where "TLS_CIPHERTEXT_MAX = 2 ^ 14 + 256"
definition MAX_RECORD_SIZE :: nat where "MAX_RECORD_SIZE = TLS_CIPHERTEXT_MAX"
definition MAX_TUNNEL_MTU :: nat where
  "MAX_TUNNEL_MTU = MAX_RECORD_SIZE - NONCE_SIZE - COUNTER_SIZE - TAG_SIZE - 2"

lemmas packet_consts = TLS_RECORD_HEADER_def RAW_RECORD_HEADER_def NONCE_SIZE_def TAG_SIZE_def
  COUNTER_SIZE_def TLS_CIPHERTEXT_MAX_def MAX_RECORD_SIZE_def MAX_TUNNEL_MTU_def

datatype Framing = Tls | Raw

datatype PacketError = PacketTooShort | PacketTooLarge | FrameLengthMismatch
  | WrongContentType byte | PktEncryptFailed | PktDecryptFailed | InvalidPadding
  | CounterExhausted | ReplayDetected | ConnectionClosed

record PacketCodec =
  cipher :: Cipher
  counter :: u64
  nonce_seed :: bytes
  nonce_prp_key :: bytes
  replay_window :: ReplayWindow
  framing :: Framing

section \<open>The nonce permutation\<close>

definition prp_round :: "Primitives \<Rightarrow> bytes \<Rightarrow> u8 \<Rightarrow> bytes \<Rightarrow> bytes" where
  "prp_round P key round half = take 6 (sha256 P (key @ [round] @ half))"

definition prp_step :: "Primitives \<Rightarrow> bytes \<Rightarrow> u8 \<Rightarrow> bytes \<times> bytes \<Rightarrow> bytes \<times> bytes" where
  "prp_step P key round = (\<lambda>(l, r).
     (let f = prp_round P key round r in (r, map (\<lambda>i. l ! i XOR f ! i) [0..<6])))"

definition prp_nonce :: "Primitives \<Rightarrow> bytes \<Rightarrow> bytes \<Rightarrow> bytes" where
  "prp_nonce P key raw =
     (let (l, r) = fold (prp_step P key) [0, 1, 2, 3] (take 6 raw, drop 6 raw) in l @ r)"

section \<open>Record sizes and budgets\<close>

definition header_len :: "Framing \<Rightarrow> nat" where
  "header_len f = (case f of Tls \<Rightarrow> TLS_RECORD_HEADER | Raw \<Rightarrow> RAW_RECORD_HEADER)"

definition record_sizes :: "PacketCodec \<Rightarrow> nat \<Rightarrow> nat \<Rightarrow> (PacketError, nat \<times> nat \<times> nat) result" where
  "record_sizes c data_len padding_len0 =
     (let padding_len = min padding_len0 u16_max in
      case Option.bind (Option.bind (checked_add COUNTER_SIZE data_len)
             (\<lambda>len. checked_add len padding_len)) (\<lambda>len. checked_add len 2) of
        None \<Rightarrow> Err PacketTooLarge
      | Some plaintext_len \<Rightarrow>
          (case Option.bind (checked_add NONCE_SIZE plaintext_len) (\<lambda>len. checked_add len TAG_SIZE) of
             None \<Rightarrow> Err PacketTooLarge
           | Some record_payload_len \<Rightarrow>
               if MAX_RECORD_SIZE < record_payload_len then Err PacketTooLarge
               else Ok (padding_len, plaintext_len, header_len (framing c))))"

definition encrypted_record_len :: "PacketCodec \<Rightarrow> nat \<Rightarrow> nat \<Rightarrow> (PacketError, nat) result" where
  "encrypted_record_len c data_len padding_len =
     (case record_sizes c data_len padding_len of
        Inl e \<Rightarrow> Err e
      | Inr (_, plaintext_len, hdr) \<Rightarrow> Ok (hdr + NONCE_SIZE + plaintext_len + TAG_SIZE))"

definition max_padding_for_record_budget :: "PacketCodec \<Rightarrow> nat \<Rightarrow> nat \<Rightarrow> (PacketError, nat) result" where
  "max_padding_for_record_budget c data_len max_record_len =
     (case encrypted_record_len c data_len 0 of
        Inl e \<Rightarrow> Err e
      | Inr base_len \<Rightarrow>
          if max_record_len < base_len then Err PacketTooLarge
          else (case record_sizes c data_len 0 of
             Inl e \<Rightarrow> Err e
           | Inr (_, _, hdr) \<Rightarrow>
               (case checked_add hdr MAX_RECORD_SIZE of
                  None \<Rightarrow> Err PacketTooLarge
                | Some format_ceiling \<Rightarrow> Ok (min (min max_record_len format_ceiling - base_len) u16_max))))"

definition max_data_for_record_budget :: "PacketCodec \<Rightarrow> nat \<Rightarrow> (PacketError, nat) result" where
  "max_data_for_record_budget c max_record_len =
     (case encrypted_record_len c 0 0 of
        Inl e \<Rightarrow> Err e
      | Inr base_len \<Rightarrow>
          if max_record_len < base_len then Err PacketTooLarge
          else (case record_sizes c 0 0 of
             Inl e \<Rightarrow> Err e
           | Inr (_, _, hdr) \<Rightarrow>
               (case checked_add hdr MAX_RECORD_SIZE of
                  None \<Rightarrow> Err PacketTooLarge
                | Some format_ceiling \<Rightarrow> Ok (min (min max_record_len format_ceiling - base_len) MAX_TUNNEL_MTU))))"

section \<open>Sealing\<close>

text \<open>\<^verbatim>\<open>PacketCodec::new\<close>; the four bytes drawn from the system generator are an argument.\<close>

definition nonce_prp_label :: bytes where
  "nonce_prp_label = map (of_nat \<circ> of_char) ''qeli-nonce-prp-v1''"

definition PacketCodec_new :: "Primitives \<Rightarrow> bytes \<Rightarrow> bytes \<Rightarrow> PacketCodec" where
  "PacketCodec_new P seed key = \<lparr>cipher = Cipher_new key, counter = 0, nonce_seed = seed,
     nonce_prp_key = sha256 P (nonce_prp_label @ key),
     replay_window = ReplayWindow_new, framing = Tls\<rparr>"

definition PacketCodec_new_raw :: "Primitives \<Rightarrow> bytes \<Rightarrow> bytes \<Rightarrow> PacketCodec" where
  "PacketCodec_new_raw P seed key = (PacketCodec_new P seed key)\<lparr>framing := Raw\<rparr>"

definition record_nonce :: "Primitives \<Rightarrow> PacketCodec \<Rightarrow> bytes" where
  "record_nonce P c = prp_nonce P (nonce_prp_key c) (nonce_seed c @ to_be_bytes (counter c))"

definition record_header :: "Framing \<Rightarrow> u16 \<Rightarrow> bytes" where
  "record_header f payload_len =
     (if f = Tls then [0x17, 0x03, 0x03] else []) @ to_be_bytes payload_len"

definition record_plaintext :: "u64 \<Rightarrow> bytes \<Rightarrow> bytes \<Rightarrow> bytes" where
  "record_plaintext cnt data padding =
     to_be_bytes cnt @ data @ padding @ to_be_bytes (of_nat (length padding) :: u16)"

definition encrypt_packet_into ::
  "Primitives \<Rightarrow> PacketCodec \<Rightarrow> bytes \<Rightarrow> bytes \<Rightarrow> bytes
     \<Rightarrow> (PacketError, unit) result \<times> bytes \<times> PacketCodec" where
  "encrypt_packet_into P c data padding0 record0 =
     (if 2 ^ 64 - 1 - 1000 \<le> unat (counter c) then (Err CounterExhausted, [], c)
      else (case record_sizes c (length data) (length padding0) of
         Inl e \<Rightarrow> (Err e, [], c)
       | Inr (padding_len, plaintext_len, hdr) \<Rightarrow>
           (let nonce = record_nonce P c;
                padding = take padding_len padding0;
                record_payload_len = NONCE_SIZE + plaintext_len + TAG_SIZE;
                head = record_header (framing c) (of_nat record_payload_len) @ nonce;
                body = record_plaintext (counter c) data padding;
                c' = c\<lparr>counter := counter c + 1\<rparr>
            in case encrypt_in_place_detached P (cipher c) nonce body of
                 Inl _ \<Rightarrow> (Err PktEncryptFailed, [], c')
               | Inr (ct, tag) \<Rightarrow> (Ok (), head @ ct @ tag, c'))))"

definition encrypt_packet ::
  "Primitives \<Rightarrow> PacketCodec \<Rightarrow> bytes \<Rightarrow> bytes \<Rightarrow> (PacketError, bytes) result \<times> PacketCodec" where
  "encrypt_packet P c data padding =
     (case encrypt_packet_into P c data padding [] of
        (Inl e, _, c') \<Rightarrow> (Err e, c')
      | (Inr _, record, c') \<Rightarrow> (Ok record, c'))"

section \<open>Opening\<close>

definition framed_payload_len :: "Framing \<Rightarrow> bytes \<Rightarrow> (PacketError, nat) result" where
  "framed_payload_len f record =
     (case f of
        Tls \<Rightarrow> if record ! 0 \<noteq> 0x17 then Err (WrongContentType (record ! 0))
               else if record ! 1 \<noteq> 0x03 \<or> record ! 2 \<noteq> 0x03 then Err (WrongContentType (record ! 1))
               else Ok (unat (from_be_bytes [record ! 3, record ! 4] :: u16))
      | Raw \<Rightarrow> Ok (unat (from_be_bytes [record ! 0, record ! 1] :: u16)))"

definition framed_record_bounds :: "PacketCodec \<Rightarrow> bytes \<Rightarrow> (PacketError, nat \<times> nat) result" where
  "framed_record_bounds c record =
     (let hdr = header_len (framing c) in
      if length record < hdr + NONCE_SIZE + TAG_SIZE + COUNTER_SIZE then Err PacketTooShort
      else (case framed_payload_len (framing c) record of
         Inl e \<Rightarrow> Err e
       | Inr payload_len \<Rightarrow>
           if MAX_RECORD_SIZE < payload_len then Err PacketTooLarge
           else if length record < hdr + payload_len then Err PacketTooShort
           else Ok (hdr, hdr + payload_len)))"

text \<open>
  The checks on the opened body: counter, padding trailer, replay window. Out-of-range
  slices (\<^verbatim>\<open>get\<close>, \<^verbatim>\<open>checked_sub\<close>) are the error branches.
\<close>

definition accept_plaintext :: "PacketCodec \<Rightarrow> bytes \<Rightarrow> (PacketError, bytes) result \<times> PacketCodec" where
  "accept_plaintext c body =
     (let plaintext_len = length body in
      if plaintext_len < COUNTER_SIZE + 2 then (Err PacketTooShort, c)
      else (let packet_counter = from_be_bytes (take 8 body);
                padding_len = unat (from_be_bytes [body ! (plaintext_len - 2), body ! (plaintext_len - 1)] :: u16)
            in if plaintext_len < COUNTER_SIZE + padding_len + 2 then (Err InvalidPadding, c)
               else (let (fresh, w) = check_and_record (replay_window c) packet_counter;
                         c' = c\<lparr>replay_window := w\<rparr>
                     in if \<not> fresh then (Err ReplayDetected, c')
                        else (let data_len = plaintext_len - COUNTER_SIZE - 2 - padding_len
                              in (Ok (take data_len (drop COUNTER_SIZE body)), c')))))"

definition decrypt_packet_in_place_inner ::
  "Primitives \<Rightarrow> PacketCodec \<Rightarrow> bytes \<Rightarrow> (PacketError, bytes) result \<times> PacketCodec" where
  "decrypt_packet_in_place_inner P c record =
     (case framed_record_bounds c record of
        Inl e \<Rightarrow> (Err e, c)
      | Inr (hdr, record_len) \<Rightarrow>
          if record_len \<noteq> length record then (Err FrameLengthMismatch, c)
          else (let nonce_end = hdr + NONCE_SIZE in
            if length record < nonce_end then (Err PacketTooShort, c)
            else (let nonce = slice hdr nonce_end record in
              case checked_sub record_len TAG_SIZE of
                None \<Rightarrow> (Err PacketTooShort, c)
              | Some tag_start \<Rightarrow>
                  if tag_start < nonce_end then (Err PacketTooShort, c)
                  else (let tag = slice tag_start record_len record in
                    case decrypt_in_place_detached P (cipher c) nonce (slice nonce_end tag_start record) tag of
                      Inl _ \<Rightarrow> (Err PktDecryptFailed, c)
                    | Inr body \<Rightarrow> accept_plaintext c body))))"

definition decrypt_packet_in_place ::
  "Primitives \<Rightarrow> PacketCodec \<Rightarrow> bytes \<Rightarrow> (PacketError, unit) result \<times> bytes \<times> PacketCodec" where
  "decrypt_packet_in_place P c record =
     (case decrypt_packet_in_place_inner P c record of
        (Inl e, c') \<Rightarrow> (Err e, [], c')
      | (Inr data, c') \<Rightarrow> (Ok (), data, c'))"

definition decrypt_packet ::
  "Primitives \<Rightarrow> PacketCodec \<Rightarrow> bytes \<Rightarrow> (PacketError, bytes) result \<times> PacketCodec" where
  "decrypt_packet P c record =
     (case framed_record_bounds c record of
        Inl e \<Rightarrow> (Err e, c)
      | Inr (_, record_len) \<Rightarrow>
          if record_len \<noteq> length record then (Err FrameLengthMismatch, c)
          else (case decrypt_packet_in_place P c record of
             (Inl e, _, c') \<Rightarrow> (Err e, c')
           | (Inr _, plaintext, c') \<Rightarrow> (Ok plaintext, c')))"

section \<open>Reading records from a stream\<close>

text \<open>
  A stream is the bytes it delivers before it closes. A successful read returns the
  bytes and the rest; \<^verbatim>\<open>read_exact\<close> on a stream that closes early is an error.
\<close>

definition read_exact :: "nat \<Rightarrow> bytes \<Rightarrow> (bytes \<times> bytes) option" where
  "read_exact n stream = (if length stream < n then None else Some (take n stream, drop n stream))"

definition read_tls_record_into :: "bytes \<Rightarrow> (PacketError, bytes \<times> bytes) result" where
  "read_tls_record_into stream =
     (case read_exact TLS_RECORD_HEADER stream of
        None \<Rightarrow> Err ConnectionClosed
      | Some (header, rest) \<Rightarrow>
          (let payload_len = unat (from_be_bytes [header ! 3, header ! 4] :: u16) in
           if MAX_RECORD_SIZE < payload_len then Err PacketTooLarge
           else (case read_exact payload_len rest of
              None \<Rightarrow> Err ConnectionClosed
            | Some (payload, rest') \<Rightarrow> Ok (header @ payload, rest'))))"

definition read_raw_record_into :: "bytes \<Rightarrow> (PacketError, bytes \<times> bytes) result" where
  "read_raw_record_into stream =
     (case read_exact RAW_RECORD_HEADER stream of
        None \<Rightarrow> Err ConnectionClosed
      | Some (header, rest) \<Rightarrow>
          (let payload_len = unat (from_be_bytes [header ! 0, header ! 1] :: u16) in
           if MAX_RECORD_SIZE < payload_len then Err PacketTooLarge
           else (case read_exact payload_len rest of
              None \<Rightarrow> Err ConnectionClosed
            | Some (payload, rest') \<Rightarrow> Ok (header @ payload, rest'))))"

definition read_record_into :: "Framing \<Rightarrow> bytes \<Rightarrow> (PacketError, bytes \<times> bytes) result" where
  "read_record_into f stream =
     (case f of Tls \<Rightarrow> read_tls_record_into stream | Raw \<Rightarrow> read_raw_record_into stream)"

section \<open>The nonce permutation is injective\<close>

lemma xor_cancel: "a XOR f = b XOR f \<longleftrightarrow> a = (b :: byte)"
  by (metis xor.assoc xor.right_neutral xor_self_eq)

lemma prp_step_inj:
  assumes len: "length l = 6" "length l' = 6"
    and eq: "prp_step P k i (l, r) = prp_step P k i (l', r')"
  shows "l = l' \<and> r = r'"
proof -
  let ?f = "prp_round P k i r"
  from eq have r: "r = r'" by (simp add: prp_step_def Let_def)
  with eq have "l ! j XOR ?f ! j = l' ! j XOR ?f ! j" if "j < 6" for j
    using that by (simp add: prp_step_def Let_def)
  then have "l ! j = l' ! j" if "j < 6" for j using that xor_cancel by blast
  with len r show ?thesis by (simp add: list_eq_iff_nth_eq)
qed

lemma prp_step_shape: "length l = 6 \<and> length r = 6 \<Longrightarrow>
  \<exists>l' r'. prp_step P k i (l, r) = (l', r') \<and> length l' = 6 \<and> length r' = 6"
  by (simp add: prp_step_def Let_def)

lemma prp_fold_inj:
  assumes "length l = 6" "length r = 6" "length l' = 6" "length r' = 6"
    and "fold (prp_step P k) rounds (l, r) = fold (prp_step P k) rounds (l', r')"
  shows "l = l' \<and> r = r'"
  using assms
proof (induction rounds arbitrary: l r l' r')
  case (Cons i rounds)
  obtain m n where s: "prp_step P k i (l, r) = (m, n)" "length m = 6" "length n = 6"
    using prp_step_shape Cons.prems by blast
  obtain m' n' where s': "prp_step P k i (l', r') = (m', n')" "length m' = 6" "length n' = 6"
    using prp_step_shape Cons.prems by blast
  have "m = m' \<and> n = n'"
    using Cons.IH [of m n m' n'] Cons.prems(5) s s' by simp
  then show ?case using prp_step_inj Cons.prems s s' by metis
qed simp

lemma prp_fold_shape: "length l = 6 \<Longrightarrow> length r = 6 \<Longrightarrow>
  \<exists>l' r'. fold (prp_step P k) rounds (l, r) = (l', r') \<and> length l' = 6 \<and> length r' = 6"
proof (induction rounds arbitrary: l r)
  case (Cons i rounds)
  obtain m n where "prp_step P k i (l, r) = (m, n)" "length m = 6" "length n = 6"
    using prp_step_shape Cons.prems by blast
  with Cons.IH show ?case by simp
qed simp

lemma length_prp_nonce: "length raw = 12 \<Longrightarrow> length (prp_nonce P k raw) = 12"
  using prp_fold_shape [of "take 6 raw" "drop 6 raw" P k "[0, 1, 2, 3]"]
  by (auto simp: prp_nonce_def simp del: fold_simps)

lemma prp_nonce_inj:
  assumes "length a = 12" and "length b = 12" and "prp_nonce P k a = prp_nonce P k b"
  shows "a = b"
proof -
  let ?F = "fold (prp_step P k) [0, 1, 2, 3]"
  obtain l r where F: "?F (take 6 a, drop 6 a) = (l, r)" "length l = 6" "length r = 6"
    using prp_fold_shape [of "take 6 a" "drop 6 a" P k "[0, 1, 2, 3]"] assms by auto
  obtain l' r' where F': "?F (take 6 b, drop 6 b) = (l', r')" "length l' = 6" "length r' = 6"
    using prp_fold_shape [of "take 6 b" "drop 6 b" P k "[0, 1, 2, 3]"] assms by auto
  have "l @ r = l' @ r'" using assms(3) F F' by (simp add: prp_nonce_def del: fold_simps)
  then have "?F (take 6 a, drop 6 a) = ?F (take 6 b, drop 6 b)" using F F' by simp
  then have "take 6 a = take 6 b \<and> drop 6 a = drop 6 b"
    using assms by (intro prp_fold_inj [where P = P and k = k and rounds = "[0, 1, 2, 3]"]) simp_all
  then show ?thesis by (metis append_take_drop_id)
qed

section \<open>Sizes\<close>

text \<open>All the checked additions of the size computation succeed exactly when the record fits.\<close>

lemma record_sizes_eq:
  "record_sizes c d p =
     (if d + min p 65535 \<le> MAX_TUNNEL_MTU
      then Ok (min p 65535, 8 + d + min p 65535 + 2, header_len (framing c)) else Err PacketTooLarge)"
  by (auto simp: record_sizes_def Let_def checked_add_def packet_consts usize_max_def u16_max_def
      split: option.splits if_splits)

lemma encrypted_record_len_eq:
  "encrypted_record_len c d p =
     (if d + min p 65535 \<le> MAX_TUNNEL_MTU
      then Ok (header_len (framing c) + 38 + d + min p 65535) else Err PacketTooLarge)"
  by (simp add: encrypted_record_len_def record_sizes_eq packet_consts min_def)

lemma header_len_le: "header_len f \<le> 5" "2 \<le> header_len f"
  by (cases f; simp add: header_len_def packet_consts)+

section \<open>Sealing and opening\<close>

definition codec_wf :: "PacketCodec \<Rightarrow> bool" where
  "codec_wf c \<longleftrightarrow> length (cipher_key (cipher c)) = 32 \<and> length (nonce_seed c) = 4
     \<and> window_wf (replay_window c)"

lemma length_record_nonce: "codec_wf c \<Longrightarrow> length (record_nonce P c) = 12"
  by (simp add: record_nonce_def length_prp_nonce codec_wf_def)

lemma record_nonce_inj:
  assumes "codec_wf s" "record_nonce P (s\<lparr>counter := a\<rparr>) = record_nonce P (s\<lparr>counter := b\<rparr>)"
  shows "a = b"
proof -
  have "nonce_seed s @ to_be_bytes a = nonce_seed s @ to_be_bytes b"
    using assms by - (rule prp_nonce_inj [of _ _ P "nonce_prp_key s"], simp_all add: codec_wf_def record_nonce_def)
  then have "to_be_bytes a = to_be_bytes b" by (simp only: same_append_eq)
  then show ?thesis by (rule to_be_bytes_inj [THEN iffD1, rotated]) simp
qed

lemma length_record_header [simp]: "length (record_header f n) = header_len f"
  by (cases f) (simp_all add: record_header_def header_len_def packet_consts)

lemma length_record_plaintext [simp]:
  "length (record_plaintext cnt data padding) = 8 + length data + length padding + 2"
  by (simp add: record_plaintext_def)

definition record_of :: "Framing \<Rightarrow> bytes \<Rightarrow> bytes \<Rightarrow> bytes \<Rightarrow> bytes" where
  "record_of f nonce ct tag = record_header f (of_nat (28 + length ct)) @ nonce @ ct @ tag"

lemma encrypt_packet_into_ok:
  assumes laws: "aead_laws P" and wf: "codec_wf c" and cnt: "unat (counter c) < 2 ^ 64 - 1 - 1000"
    and fits: "length data + min (length padding) 65535 \<le> MAX_TUNNEL_MTU"
  obtains ct tag where
    "encrypt_packet_into P c data padding r0
       = (Ok (), record_of (framing c) (record_nonce P c) ct tag, c\<lparr>counter := counter c + 1\<rparr>)"
    and "length ct = 10 + length data + min (length padding) 65535" and "length tag = 16"
    and "decrypt_in_place_detached P (cipher c) (record_nonce P c) ct tag
       = Ok (record_plaintext (counter c) data (take 65535 padding))"
proof -
  let ?body = "record_plaintext (counter c) data (take 65535 padding)"
  have "length ?body \<le> 2 ^ 32" using fits by (simp add: packet_consts)
  then obtain ct tag where ct: "encrypt_in_place_detached P (cipher c) (record_nonce P c) ?body = Ok (ct, tag)"
      "length ct = length ?body" "length tag = 16"
      "decrypt_in_place_detached P (cipher c) (record_nonce P c) ct tag = Ok ?body"
    using seal_then_open [OF laws] wf length_record_nonce [OF wf] by (metis codec_wf_def)
  have take: "take (min (length padding) 65535) padding = take 65535 padding" by (simp add: min_def)
  show thesis
  proof (rule that)
    show "length ct = 10 + length data + min (length padding) 65535" using ct(2) by simp
    show "encrypt_packet_into P c data padding r0
        = (Ok (), record_of (framing c) (record_nonce P c) ct tag, c\<lparr>counter := counter c + 1\<rparr>)"
      using cnt fits ct
      by (simp add: encrypt_packet_into_def record_sizes_eq Let_def take record_of_def packet_consts
          add.assoc)
  qed (use ct in simp_all)
qed

lemma encrypt_packet_into_too_large:
  "MAX_TUNNEL_MTU < length data + min (length padding) 65535 \<Longrightarrow>
     unat (counter c) < 2 ^ 64 - 1 - 1000 \<Longrightarrow>
     encrypt_packet_into P c data padding r0 = (Err PacketTooLarge, [], c)"
  by (simp add: encrypt_packet_into_def record_sizes_eq)

lemma framed_payload_len_header:
  "n \<le> 65535 \<Longrightarrow> framed_payload_len f (record_header f (of_nat n) @ rest) = Ok n"
proof -
  assume n: "n \<le> 65535"
  obtain a b where ab: "to_be_bytes (of_nat n :: u16) = [a, b]" "(from_be_bytes [a, b] :: u16) = of_nat n"
    by (rule u16_be_bytes [of "of_nat n"])
  with n show ?thesis
    by (cases f) (simp_all add: framed_payload_len_def record_header_def ab)
qed

lemma framed_record_bounds_ok:
  assumes "10 \<le> length ct" "length ct + 28 \<le> MAX_RECORD_SIZE" "length nonce = 12" "length tag = 16"
  shows "framed_record_bounds c (record_of (framing c) nonce ct tag)
    = Ok (header_len (framing c), length (record_of (framing c) nonce ct tag))"
  using assms
  by (simp add: framed_record_bounds_def Let_def record_of_def framed_payload_len_header packet_consts
      del: of_nat_add)

lemma decrypt_record_of:
  assumes "10 \<le> length ct" "length ct + 28 \<le> MAX_RECORD_SIZE" "length nonce = 12" "length tag = 16"
    and "decrypt_in_place_detached P (cipher c) nonce ct tag = Ok body"
  shows "decrypt_packet_in_place_inner P c (record_of (framing c) nonce ct tag) = accept_plaintext c body"
proof -
  let ?r = "record_of (framing c) nonce ct tag" and ?h = "header_len (framing c)"
  have "slice ?h (?h + 12) ?r = nonce" "slice (?h + 12) (?h + 12 + length ct) ?r = ct"
      "slice (?h + 12 + length ct) (length ?r) ?r = tag"
    using assms by (simp_all add: record_of_def slice_def)
  moreover have "length ?r = ?h + 28 + length ct" using assms by (simp add: record_of_def)
  ultimately show ?thesis using assms framed_record_bounds_ok [OF assms(1-4), of c]
    by (simp add: decrypt_packet_in_place_inner_def Let_def checked_sub_def packet_consts add.commute
        add.left_commute)
qed

lemma accept_record_plaintext:
  assumes "length padding \<le> 65535"
  shows "accept_plaintext c (record_plaintext cnt data padding) =
    (let (fresh, w) = check_and_record (replay_window c) cnt in
     (if fresh then Ok data else Err ReplayDetected, c\<lparr>replay_window := w\<rparr>))"
proof -
  let ?b = "record_plaintext cnt data padding"
  obtain a b where ab: "to_be_bytes (of_nat (length padding) :: u16) = [a, b]"
      "(from_be_bytes [a, b] :: u16) = of_nat (length padding)"
    by (rule u16_be_bytes [of "of_nat (length padding)"])
  then have pad: "unat (from_be_bytes [a, b] :: u16) = length padding" using assms by simp
  have "?b ! (length ?b - 2) = a" "?b ! (length ?b - 1) = b"
    by (simp_all add: record_plaintext_def ab nth_append)
  moreover have "take 8 ?b = to_be_bytes cnt" by (simp add: record_plaintext_def)
  moreover have "(from_be_bytes (to_be_bytes cnt) :: u64) = cnt" by (simp add: from_to_be_bytes)
  moreover have "take (length data) (drop 8 ?b) = data" by (simp add: record_plaintext_def)
  ultimately show ?thesis
    using pad by (simp add: accept_plaintext_def Let_def COUNTER_SIZE_def split: prod.splits)
qed

text \<open>A record as the codec state seals it, and the answer of any receiver with its key and framing.\<close>

definition deliver :: "PacketCodec \<Rightarrow> u64 \<Rightarrow> bytes \<Rightarrow> (PacketError, bytes) result \<times> PacketCodec" where
  "deliver r cnt data = (let (fresh, w) = check_and_record (replay_window r) cnt in
     (if fresh then Ok data else Err ReplayDetected, r\<lparr>replay_window := w\<rparr>))"

definition sealed_record :: "Primitives \<Rightarrow> PacketCodec \<Rightarrow> bytes \<Rightarrow> bytes \<Rightarrow> bool" where
  "sealed_record P c data rec \<longleftrightarrow>
     (\<exists>ct tag. rec = record_of (framing c) (record_nonce P c) ct tag \<and> 10 \<le> length ct
        \<and> length ct + 28 \<le> MAX_RECORD_SIZE \<and> length tag = 16) \<and>
     (\<forall>r. cipher r = cipher c \<and> framing r = framing c \<longrightarrow>
        decrypt_packet P r rec = deliver r (counter c) data)"

lemma encrypt_then_decrypt:
  assumes laws: "aead_laws P" and wf: "codec_wf s" and cnt: "unat (counter s) < 2 ^ 64 - 1 - 1000"
    and fits: "length data + min (length padding) 65535 \<le> MAX_TUNNEL_MTU"
  obtains rec where
    "encrypt_packet P s data padding = (Ok rec, s\<lparr>counter := counter s + 1\<rparr>)"
    and "sealed_record P s data rec"
    and "length rec = header_len (framing s) + 38 + length data + min (length padding) 65535"
proof -
  obtain ct tag where e: "encrypt_packet_into P s data padding []
       = (Ok (), record_of (framing s) (record_nonce P s) ct tag, s\<lparr>counter := counter s + 1\<rparr>)"
    and l: "length ct = 10 + length data + min (length padding) 65535" "length tag = 16"
    and d: "decrypt_in_place_detached P (cipher s) (record_nonce P s) ct tag
       = Ok (record_plaintext (counter s) data (take 65535 padding))"
    by (rule encrypt_packet_into_ok [OF laws wf cnt fits])
  let ?rec = "record_of (framing s) (record_nonce P s) ct tag"
  have b: "10 \<le> length ct" "length ct + 28 \<le> MAX_RECORD_SIZE"
    using l fits by (simp_all add: packet_consts)
  have n: "length (record_nonce P s) = 12" using wf by (rule length_record_nonce)
  have "decrypt_packet P r ?rec = deliver r (counter s) data"
    if "cipher r = cipher s" and "framing r = framing s" for r
    using that d framed_record_bounds_ok [OF b n l(2), of r] decrypt_record_of [OF b n l(2), of P r]
    by (simp add: decrypt_packet_def decrypt_packet_in_place_def accept_record_plaintext Let_def deliver_def
        split: prod.splits)
  then have "sealed_record P s data ?rec"
    unfolding sealed_record_def using b l by blast
  moreover have "encrypt_packet P s data padding = (Ok ?rec, s\<lparr>counter := counter s + 1\<rparr>)"
    by (simp add: encrypt_packet_def e)
  ultimately show thesis using that l n by (simp add: record_of_def)
qed

section \<open>Sessions\<close>

text \<open>What a sender emits for a list of (data, padding), and what a receiver answers to records.\<close>

primrec send_all :: "Primitives \<Rightarrow> PacketCodec \<Rightarrow> (bytes \<times> bytes) list \<Rightarrow> (PacketError, bytes) result list" where
  "send_all P c [] = []"
| "send_all P c (m # ms) = (let (r, c') = encrypt_packet P c (fst m) (snd m) in r # send_all P c' ms)"

primrec receive_all :: "Primitives \<Rightarrow> PacketCodec \<Rightarrow> bytes list \<Rightarrow> (PacketError, bytes) result list" where
  "receive_all P c [] = []"
| "receive_all P c (r # rs) = (let (d, c') = decrypt_packet P c r in d # receive_all P c' rs)"

definition sendable :: "bytes \<times> bytes \<Rightarrow> bool" where
  "sendable m \<longleftrightarrow> length (fst m) + min (length (snd m)) 65535 \<le> MAX_TUNNEL_MTU"

lemma length_send_all [simp]: "length (send_all P c ms) = length ms"
  by (induction ms arbitrary: c) (simp_all add: Let_def split_beta)

lemma send_all_nth:
  assumes laws: "aead_laws P" and "codec_wf s" and "unat (counter s) + length ms \<le> 2 ^ 64 - 1001"
    and "\<forall>m \<in> set ms. sendable m" and "i < length ms"
  shows "\<exists>rec. send_all P s ms ! i = Ok rec
    \<and> sealed_record P (s\<lparr>counter := counter s + of_nat i\<rparr>) (fst (ms ! i)) rec"
  using assms(2-)
proof (induction ms arbitrary: s i)
  case Nil
  then show ?case by simp
next
  case (Cons m ms)
  have cnt: "unat (counter s) < 2 ^ 64 - 1 - 1000" using Cons.prems(2) by simp
  have fits: "length (fst m) + min (length (snd m)) 65535 \<le> MAX_TUNNEL_MTU"
    using Cons.prems(3) by (simp add: sendable_def)
  let ?s = "s\<lparr>counter := counter s + 1\<rparr>"
  obtain rec where e: "encrypt_packet P s (fst m) (snd m) = (Ok rec, ?s)"
    and rec: "sealed_record P s (fst m) rec"
    by (rule encrypt_then_decrypt [OF laws Cons.prems(1) cnt fits])
  show ?case
  proof (cases i)
    case 0
    with e rec show ?thesis by simp
  next
    case (Suc j)
    have "unat (counter s + 1) = unat (counter s) + 1"
      using cnt by (simp add: unat_plus_if')
    then have "unat (counter ?s) + length ms \<le> 2 ^ 64 - 1001" using Cons.prems(2) by simp
    moreover have "codec_wf ?s" using Cons.prems(1) by (simp add: codec_wf_def)
    ultimately have "\<exists>rec. send_all P ?s ms ! j = Ok rec
        \<and> sealed_record P (?s\<lparr>counter := counter ?s + of_nat j\<rparr>) (fst (ms ! j)) rec"
      using Cons.IH [of ?s j] Cons.prems(3,4) Suc by simp
    with e Suc show ?thesis by (simp add: add.assoc)
  qed
qed

lemma receive_all_nth:
  assumes "i < length js"
    and "\<forall>j \<in> set js. \<forall>r. cipher r = cipher r0 \<and> framing r = framing r0 \<longrightarrow>
       decrypt_packet P r (rs ! j) = deliver r (cs j) (ds j)"
  shows "receive_all P r0 (map ((!) rs) js) ! i =
    (if fst (check_and_record
          (fold (\<lambda>s w. snd (check_and_record w s)) (map cs (take i js)) (replay_window r0)) (cs (js ! i)))
     then Ok (ds (js ! i)) else Err ReplayDetected)"
  using assms
proof (induction js arbitrary: r0 i)
  case (Cons j js)
  let ?w = "snd (check_and_record (replay_window r0) (cs j))"
  have d: "decrypt_packet P r0 (rs ! j) = deliver r0 (cs j) (ds j)" using Cons.prems by simp
  then have d1: "snd (decrypt_packet P r0 (rs ! j)) = r0\<lparr>replay_window := ?w\<rparr>"
    by (simp add: deliver_def Let_def split_beta)
  show ?case
  proof (cases i)
    case 0
    with d show ?thesis by (simp add: deliver_def Let_def split_beta)
  next
    case (Suc k)
    have "receive_all P (r0\<lparr>replay_window := ?w\<rparr>) (map ((!) rs) js) ! k =
      (if fst (check_and_record
          (fold (\<lambda>s w. snd (check_and_record w s)) (map cs (take k js)) ?w) (cs (js ! k)))
       then Ok (ds (js ! k)) else Err ReplayDetected)"
      using Cons.IH [of k "r0\<lparr>replay_window := ?w\<rparr>"] Cons.prems Suc by simp
    with d1 Suc show ?thesis by (simp add: Let_def split_beta)
  qed
qed simp

lemma check_rejects_unchanged: "\<not> fst (check_and_record w s) \<Longrightarrow> snd (check_and_record w s) = w"
  by (auto simp: check_and_record_def Let_def split: if_splits)

lemma accept_plaintext_err: "accept_plaintext c body = (Err e, c') \<Longrightarrow> c' = c"
  using check_rejects_unchanged [of "replay_window c" "from_be_bytes (take 8 body)"]
  by (auto simp: accept_plaintext_def Let_def split: if_splits prod.splits)

lemma decrypt_inner_err: "decrypt_packet_in_place_inner P c rec = (Err e, c') \<Longrightarrow> c' = c"
  by (auto simp: decrypt_packet_in_place_inner_def Let_def
      split: sum.splits if_splits prod.splits option.splits dest: accept_plaintext_err)

lemma record_of_reads_back:
  assumes "length ct + 28 \<le> MAX_RECORD_SIZE" "length nonce = 12" "length tag = 16"
  shows "read_record_into f (record_of f nonce ct tag @ rest) = Ok (record_of f nonce ct tag, rest)"
proof -
  obtain a b where ab: "to_be_bytes (of_nat (28 + length ct) :: u16) = [a, b]"
      "(from_be_bytes [a, b] :: u16) = of_nat (28 + length ct)"
    by (rule u16_be_bytes [of "of_nat (28 + length ct)"])
  have n: "unat (from_be_bytes [a, b] :: u16) = 28 + length ct"
    using assms unfolding ab(2) by (subst unat_of_nat_u16) (simp_all add: packet_consts)
  show ?thesis using assms n
    by (cases f) (simp_all add: read_record_into_def read_tls_record_into_def read_raw_record_into_def
      read_exact_def record_of_def record_header_def ab(1) packet_consts Let_def del: of_nat_add)
qed

fun read_records :: "Framing \<Rightarrow> nat \<Rightarrow> bytes \<Rightarrow> (PacketError, bytes list \<times> bytes) result" where
  "read_records f 0 stream = Ok ([], stream)"
| "read_records f (Suc n) stream = (case read_record_into f stream of
     Inl e \<Rightarrow> Err e
   | Inr (r, rest) \<Rightarrow> (case read_records f n rest of
        Inl e \<Rightarrow> Err e
      | Inr (rs, rest') \<Rightarrow> Ok (r # rs, rest')))"

lemma read_records_concat:
  assumes "\<forall>r \<in> set rs. \<forall>rest. read_record_into f (r @ rest) = Ok (r, rest)"
  shows "read_records f (length rs) (concat rs @ rest) = Ok (rs, rest)"
  using assms by (induction rs) simp_all

lemma send_all_session:
  assumes "aead_laws P" "codec_wf s" "counter s = 0" "length ms \<le> 2 ^ 64 - 1001" "\<forall>m \<in> set ms. sendable m"
    and "i < length ms"
  shows "\<exists>rec. send_all P s ms ! i = Ok rec \<and> sealed_record P (s\<lparr>counter := of_nat i\<rparr>) (fst (ms ! i)) rec"
  using send_all_nth [OF assms(1,2), of ms i] assms by simp

section \<open>Properties\<close>

text \<open>
  C3. A whole session of the data plane over a channel that may reorder, repeat and drop:
  every send succeeds, and the receiver's answer to the record at any position of any
  sequence of delivered records is the packet that was sent, exactly when that record was
  not delivered before and is less than 2048 records behind the newest delivered one, and
  otherwise a replay error. So each packet is delivered at most once, unaltered.
\<close>

theorem session_delivers_each_packet_once:
  assumes laws: "aead_laws P" and wf: "codec_wf s" and zero: "counter s = 0"
    and len: "length ms \<le> 2 ^ 64 - 1001" and fits: "\<forall>m \<in> set ms. sendable m"
    and peer: "cipher r = cipher s" "framing r = framing s" "replay_window r = ReplayWindow_new"
    and js: "\<forall>j \<in> set js. j < length ms" and i: "i < length js"
  shows "(\<forall>k < length ms. is_ok (send_all P s ms ! k)) \<and>
    receive_all P r (map ((!) (map projr (send_all P s ms))) js) ! i =
      (if js ! i \<notin> set (take i js) \<and> (\<forall>j \<in> set (take i js). j < js ! i + REPLAY_WINDOW_SIZE)
       then Ok (fst (ms ! (js ! i))) else Err ReplayDetected)"
proof
  have sess: "\<exists>rec. send_all P s ms ! k = Ok rec
      \<and> sealed_record P (s\<lparr>counter := of_nat k\<rparr>) (fst (ms ! k)) rec" if "k < length ms" for k
    using that by (rule send_all_session [OF laws wf zero len fits])
  then show "\<forall>k < length ms. is_ok (send_all P s ms ! k)" by (auto simp: is_ok_conv)
  let ?rs = "map projr (send_all P s ms)"
  have "\<forall>j \<in> set js. \<forall>r'. cipher r' = cipher r \<and> framing r' = framing r \<longrightarrow>
      decrypt_packet P r' (?rs ! j) = deliver r' (of_nat j) (fst (ms ! j))"
    using sess js peer by (fastforce simp: sealed_record_def)
  from receive_all_nth [OF i this]
  have "receive_all P r (map ((!) ?rs) js) ! i =
      (if fst (check_and_record (fold (\<lambda>s w. snd (check_and_record w s)) (map of_nat (take i js)) ReplayWindow_new)
          (of_nat (js ! i))) then Ok (fst (ms ! (js ! i))) else Err ReplayDetected)"
    by (simp add: peer)
  moreover have nat: "unat (of_nat j :: u64) = j" if "j \<in> set js" for j
    using js len that by (intro unat_of_nat_eq') force
  have nat_i: "unat (of_nat (js ! i) :: u64) = js ! i" using nat i by simp
  have nat_t: "unat (of_nat j :: u64) = j" if "j \<in> set (take i js)" for j
    using nat that by (blast dest: in_set_takeD)
  have "js ! i = j" if "j \<in> set (take i js)" and "(of_nat (js ! i) :: u64) = of_nat j" for j
    using nat_i nat_t [OF that(1)] unfolding that(2) by (rule trans [OF sym])
  then have "(of_nat (js ! i) :: u64) \<in> of_nat ` set (take i js) \<longleftrightarrow> js ! i \<in> set (take i js)"
    by blast
  moreover have "(\<forall>x \<in> of_nat ` set (take i js). unat (x :: u64) < unat (of_nat (js ! i) :: u64) + REPLAY_WINDOW_SIZE)
      \<longleftrightarrow> (\<forall>j \<in> set (take i js). j < js ! i + REPLAY_WINDOW_SIZE)"
    using nat_i nat_t by simp
  ultimately show "receive_all P r (map ((!) ?rs) js) ! i =
      (if js ! i \<notin> set (take i js) \<and> (\<forall>j \<in> set (take i js). j < js ! i + REPLAY_WINDOW_SIZE)
       then Ok (fst (ms ! (js ! i))) else Err ReplayDetected)"
    by (simp add: rw.verdict_of_history)
qed

definition demo_codec :: PacketCodec where
  "demo_codec = PacketCodec_new plain_primitives [1, 2, 3, 4] (replicate 32 7)"

definition demo_packets :: "(bytes \<times> bytes) list" where
  "demo_packets = [([1, 2], []), ([3], [9, 9])]"

lemma demo_packets_facts: "length demo_packets = 2" "\<forall>m \<in> set demo_packets. sendable m"
  by (simp_all add: demo_packets_def sendable_def packet_consts)

lemma demo_codec_facts:
  "codec_wf demo_codec" "counter demo_codec = 0" "replay_window demo_codec = ReplayWindow_new"
  "framing demo_codec = Tls"
  by (simp_all add: demo_codec_def PacketCodec_new_def codec_wf_def Cipher_new_def window_wf_new)

theorem session_delivers_each_packet_once_witness:
  "receive_all plain_primitives demo_codec
      (map ((!) (map projr (send_all plain_primitives demo_codec demo_packets))) [1, 0, 1]) ! 1 =
    Ok (fst (demo_packets ! 0))"
proof -
  have "receive_all plain_primitives demo_codec
      (map ((!) (map projr (send_all plain_primitives demo_codec demo_packets))) [1, 0, 1]) ! 1 =
      (if [1, 0, 1 :: nat] ! 1 \<notin> set (take 1 [1, 0, 1])
          \<and> (\<forall>j \<in> set (take 1 [1, 0, 1]). j < [1, 0, 1] ! 1 + REPLAY_WINDOW_SIZE)
       then Ok (fst (demo_packets ! ([1, 0, 1] ! 1))) else Err ReplayDetected)"
    by (rule session_delivers_each_packet_once [THEN conjunct2, OF plain_primitives_laws(1) demo_codec_facts(1,2) _
          demo_packets_facts(2) refl refl demo_codec_facts(3)])
      (simp_all add: demo_packets_facts)
  then show ?thesis by (simp add: REPLAY_WINDOW_SIZE_def)
qed

text \<open>
  C9. No AEAD nonce is ever used twice by one codec: the nonces on the wire of any two
  records of one session differ. The codec derives them from a counter through a keyed
  Feistel permutation, which is injective whatever the hash function returns.
\<close>

theorem session_nonces_distinct:
  assumes laws: "aead_laws P" and wf: "codec_wf s" and zero: "counter s = 0"
    and len: "length ms \<le> 2 ^ 64 - 1001" and fits: "\<forall>m \<in> set ms. sendable m"
    and ij: "i < j" "j < length ms"
  shows "\<exists>a b. send_all P s ms ! i = Ok a \<and> send_all P s ms ! j = Ok b
    \<and> slice (header_len (framing s)) (header_len (framing s) + NONCE_SIZE) a
      \<noteq> slice (header_len (framing s)) (header_len (framing s) + NONCE_SIZE) b"
proof -
  let ?h = "header_len (framing s)" and ?c = "\<lambda>k. s\<lparr>counter := of_nat k\<rparr>"
  have nonce: "\<exists>rec. send_all P s ms ! k = Ok rec \<and> slice ?h (?h + NONCE_SIZE) rec = record_nonce P (?c k)"
    if "k < length ms" for k
  proof -
    obtain rec where rec: "send_all P s ms ! k = Ok rec" "sealed_record P (?c k) (fst (ms ! k)) rec"
      using send_all_session [OF laws wf zero len fits \<open>k < length ms\<close>] by blast
    have "length (record_nonce P (?c k)) = 12"
      using wf by (intro length_record_nonce) (simp add: codec_wf_def)
    moreover obtain ct tag where "rec = record_of (framing s) (record_nonce P (?c k)) ct tag"
      using rec(2) by (auto simp: sealed_record_def)
    ultimately have "slice ?h (?h + NONCE_SIZE) rec = record_nonce P (?c k)"
      by (simp add: record_of_def slice_def NONCE_SIZE_def)
    with rec(1) show ?thesis by blast
  qed
  have "record_nonce P (?c i) \<noteq> record_nonce P (?c j)"
  proof
    assume "record_nonce P (?c i) = record_nonce P (?c j)"
    then have eq: "(of_nat i :: u64) = of_nat j" by (rule record_nonce_inj [OF wf])
    have "unat (of_nat i :: u64) = i" by (rule unat_of_nat_eq') (use ij len in simp)
    moreover have "unat (of_nat j :: u64) = j" by (rule unat_of_nat_eq') (use ij len in simp)
    ultimately have "i = j" unfolding eq by (rule trans [OF sym])
    then show False using ij(1) by simp
  qed
  moreover obtain a b where "send_all P s ms ! i = Ok a" "send_all P s ms ! j = Ok b"
      "slice ?h (?h + NONCE_SIZE) a = record_nonce P (?c i)"
      "slice ?h (?h + NONCE_SIZE) b = record_nonce P (?c j)"
    using nonce [of i] nonce [of j] ij by (meson less_trans)
  ultimately show ?thesis by (metis (no_types))
qed

theorem session_nonces_distinct_witness:
  "\<exists>a b. send_all plain_primitives demo_codec demo_packets ! 0 = Ok a
    \<and> send_all plain_primitives demo_codec demo_packets ! 1 = Ok b
    \<and> slice (header_len (framing demo_codec)) (header_len (framing demo_codec) + NONCE_SIZE) a
      \<noteq> slice (header_len (framing demo_codec)) (header_len (framing demo_codec) + NONCE_SIZE) b"
  by (rule session_nonces_distinct [OF plain_primitives_laws(1) demo_codec_facts(1,2) _ demo_packets_facts(2)])
    (simp_all add: demo_packets_facts)

text \<open>
  C19. A rejected record changes nothing: whatever the reason, the caller's buffer is empty
  afterwards and the codec, its replay window included, is what it was before.
\<close>

theorem failed_decrypt_changes_nothing:
  assumes "decrypt_packet_in_place P c rec = (Err e, buffer, c')"
  shows "buffer = [] \<and> c' = c"
  using assms decrypt_inner_err [of P c rec]
  by (auto simp: decrypt_packet_in_place_def split: prod.splits sum.splits)

theorem failed_decrypt_changes_nothing_witness:
  "decrypt_packet_in_place plain_primitives demo_codec [0x16, 3, 3] = (Err PacketTooShort, [], demo_codec)
   \<and> ([] :: bytes) = [] \<and> demo_codec = demo_codec"
proof -
  have h: "decrypt_packet_in_place plain_primitives demo_codec [0x16, 3, 3] = (Err PacketTooShort, [], demo_codec)"
    by (simp add: decrypt_packet_in_place_def decrypt_packet_in_place_inner_def framed_record_bounds_def
        demo_codec_facts header_len_def packet_consts)
  show ?thesis using h failed_decrypt_changes_nothing [OF h] by blast
qed

text \<open>
  C20. The padding budget is exact: the padding the codec reports makes a record that fits
  the given limit, and one byte more either does not fit the limit, or is refused by the
  record format, or exceeds what the 16-bit padding trailer can count.
\<close>

theorem padding_budget_exact:
  assumes "max_padding_for_record_budget c data_len limit = Ok p"
  shows "(\<exists>n. encrypted_record_len c data_len p = Ok n \<and> n \<le> limit) \<and>
    (p = 65535 \<or> (\<forall>n. encrypted_record_len c data_len (p + 1) = Ok n \<longrightarrow> limit < n))"
proof -
  let ?h = "header_len (framing c)"
  have h: "?h + MAX_RECORD_SIZE \<le> usize_max"
    using header_len_le(1) [of "framing c"] by (simp add: packet_consts usize_max_def)
  from assms have d: "data_len \<le> MAX_TUNNEL_MTU" and b: "?h + 38 + data_len \<le> limit"
    and p: "p = min (min limit (?h + MAX_RECORD_SIZE) - (?h + 38 + data_len)) 65535"
    using h by (auto simp: max_padding_for_record_budget_def encrypted_record_len_eq record_sizes_eq
        checked_add_def u16_max_def split: if_splits)
  have "data_len + p \<le> MAX_TUNNEL_MTU" "p \<le> 65535" "?h + 38 + data_len + p \<le> limit"
    using d b p by (simp_all add: packet_consts)
  moreover have "MAX_TUNNEL_MTU < data_len + (p + 1) \<or> limit < ?h + 38 + data_len + (p + 1)" if "p \<noteq> 65535"
    using d b p that by (simp add: packet_consts min_def split: if_splits)
  ultimately show ?thesis by (cases "p = 65535") (auto simp: encrypted_record_len_eq min_def)
qed

theorem padding_budget_exact_witness:
  "max_padding_for_record_budget demo_codec 100 200 = Ok 57 \<and>
   (\<exists>n. encrypted_record_len demo_codec 100 57 = Ok n \<and> n \<le> 200)"
proof -
  have h: "max_padding_for_record_budget demo_codec 100 200 = Ok 57"
    by (simp add: max_padding_for_record_budget_def encrypted_record_len_eq record_sizes_eq
        checked_add_def usize_max_def u16_max_def packet_consts demo_codec_facts header_len_def)
  show ?thesis using h padding_budget_exact [OF h] by blast
qed

text \<open>
  C21. The records of a session written to a byte stream are read back one by one, whole
  and in order, in both framings: the length prefix of every record the codec emits covers
  exactly its body and never exceeds the limit the reader enforces.
\<close>

theorem stream_reads_back_session:
  assumes laws: "aead_laws P" and wf: "codec_wf s" and zero: "counter s = 0"
    and len: "length ms \<le> 2 ^ 64 - 1001" and fits: "\<forall>m \<in> set ms. sendable m"
  shows "read_records (framing s) (length ms) (concat (map projr (send_all P s ms)) @ rest)
    = Ok (map projr (send_all P s ms), rest)"
proof -
  let ?rs = "map projr (send_all P s ms)"
  have "read_record_into (framing s) (r @ tail) = Ok (r, tail)" if "r \<in> set ?rs" for r tail
  proof -
    from that obtain k where k: "k < length ms" "r = projr (send_all P s ms ! k)"
      by (auto simp: in_set_conv_nth)
    then obtain ct tag where "r = record_of (framing s) (record_nonce P (s\<lparr>counter := of_nat k\<rparr>)) ct tag"
        "length ct + 28 \<le> MAX_RECORD_SIZE" "length tag = 16"
      using send_all_session [OF laws wf zero len fits k(1)] by (auto simp: sealed_record_def)
    moreover have "length (record_nonce P (s\<lparr>counter := of_nat k\<rparr>)) = 12"
      using wf by (intro length_record_nonce) (simp add: codec_wf_def)
    ultimately show ?thesis using record_of_reads_back by simp
  qed
  then show ?thesis using read_records_concat [of ?rs "framing s" rest] by simp
qed

theorem stream_reads_back_session_witness:
  "read_records (framing demo_codec) (length demo_packets)
     (concat (map projr (send_all plain_primitives demo_codec demo_packets)) @ [0x17, 3])
    = Ok (map projr (send_all plain_primitives demo_codec demo_packets), [0x17, 3])"
  by (rule stream_reads_back_session [OF plain_primitives_laws(1) demo_codec_facts(1,2) _ demo_packets_facts(2)])
    (simp add: demo_packets_facts)

end
