(* ===== verification/Floats.thy ===== *)
theory Floats
  imports Complex_Main
begin

text \<open>
  An \<^verbatim>\<open>f64\<close> of the configuration: a finite rational or a non-finite value, with the comparisons the
  code uses.
\<close>

datatype f64 = Finite rat | NonFinite

definition is_finite :: "f64 \<Rightarrow> bool" where
  "is_finite x = (case x of Finite _ \<Rightarrow> True | NonFinite \<Rightarrow> False)"

definition f64_le :: "f64 \<Rightarrow> f64 \<Rightarrow> bool" where
  "f64_le x y = (case (x, y) of (Finite a, Finite b) \<Rightarrow> a \<le> b | _ \<Rightarrow> False)"

definition f64_less :: "f64 \<Rightarrow> f64 \<Rightarrow> bool" where
  "f64_less x y = (case (x, y) of (Finite a, Finite b) \<Rightarrow> a < b | _ \<Rightarrow> False)"

end
