(* ===== verification/Recordizer_Config.thy ===== *)
theory Recordizer_Config
  imports Packet_Codec Floats
begin

text \<open>
  The recordizer's settings: the operator's configuration (\<^verbatim>\<open>config/mod.rs\<close>,
  \<^verbatim>\<open>RecordizerConfig\<close> with its defaults and \<^verbatim>\<open>validate\<close>) and the runtime form the
  data plane uses (\<^verbatim>\<open>protocol/recordizer.rs\<close>, \<^verbatim>\<open>RuntimeConfig::from_config\<close>).
  The \<^verbatim>\<open>f64\<close> literals of the defaults are read as the decimals they are written as.
\<close>

section \<open>Strings\<close>

definition ascii_lower :: "char \<Rightarrow> char" where
  "ascii_lower c = (let n = of_char c :: nat in if 65 \<le> n \<and> n \<le> 90 then char_of (n + 32) else c)"

definition to_ascii_lowercase :: "string \<Rightarrow> string" where
  "to_ascii_lowercase s = map ascii_lower s"

definition eq_ignore_ascii_case :: "string \<Rightarrow> string \<Rightarrow> bool" where
  "eq_ignore_ascii_case s t \<longleftrightarrow> to_ascii_lowercase s = to_ascii_lowercase t"

section \<open>The operator's configuration\<close>

record RecordizerBatchConfig =
  mode :: string
  delay_min_ms :: u64
  delay_max_ms :: u64
  batch_max_packets :: u16
  batch_max_queue_bytes :: u32

record RecordizerRecordConfig =
  record_max_payload_bytes :: u16
  record_small_min_ratio :: f64
  record_small_max_ratio :: f64
  record_full_probability :: f64

record RecordizerFragmentConfig =
  fragment_on :: bool
  reassembly_timeout_ms :: u64
  fragment_max_inflight_packets :: u16
  fragment_max_reassembly_bytes :: u32
  fragment_max_fragments_per_packet :: u16

record RecordizerConfig =
  policy :: string
  batch :: RecordizerBatchConfig
  record_config :: RecordizerRecordConfig
  fragment_config :: RecordizerFragmentConfig

definition RecordizerBatchConfig_default :: RecordizerBatchConfig where
  "RecordizerBatchConfig_default = \<lparr>mode = ''opportunistic'', delay_min_ms = 2, delay_max_ms = 8,
     batch_max_packets = 16, batch_max_queue_bytes = 256 * 1024\<rparr>"

definition RecordizerRecordConfig_default :: RecordizerRecordConfig where
  "RecordizerRecordConfig_default = \<lparr>record_max_payload_bytes = 0, record_small_min_ratio = Finite (1 / 4),
     record_small_max_ratio = Finite (7 / 8), record_full_probability = Finite (72 / 100)\<rparr>"

definition RecordizerFragmentConfig_default :: RecordizerFragmentConfig where
  "RecordizerFragmentConfig_default = \<lparr>fragment_on = True, reassembly_timeout_ms = 3000,
     fragment_max_inflight_packets = 64, fragment_max_reassembly_bytes = 4 * 1024 * 1024,
     fragment_max_fragments_per_packet = 64\<rparr>"

definition RecordizerConfig_default :: RecordizerConfig where
  "RecordizerConfig_default = \<lparr>policy = ''prefer'', batch = RecordizerBatchConfig_default,
     record_config = RecordizerRecordConfig_default, fragment_config = RecordizerFragmentConfig_default\<rparr>"

definition is_off :: "RecordizerConfig \<Rightarrow> bool" where
  "is_off c = eq_ignore_ascii_case (policy c) ''off''"

definition is_required :: "RecordizerConfig \<Rightarrow> bool" where
  "is_required c = eq_ignore_ascii_case (policy c) ''required''"

datatype RecordizerConfigError = BadPolicy | NonFiniteRatios | BadMode | BadDelays | BadMaxPackets
  | BadQueueBytes | BadMaxPayload | BadRatios | BadProbability | BadFragmentLimits

definition validate_recordizer :: "RecordizerConfig \<Rightarrow> (RecordizerConfigError, unit) result" where
  "validate_recordizer c =
     (let b = batch c; r = record_config c; f = fragment_config c in
      if to_ascii_lowercase (policy c) \<notin> {''off'', ''prefer'', ''required''} then Err BadPolicy
      else if \<not> is_finite (record_small_min_ratio r) \<or> \<not> is_finite (record_small_max_ratio r)
              \<or> \<not> is_finite (record_full_probability r) then Err NonFiniteRatios
      else if is_off c then Ok ()
      else if mode b \<notin> {''timed'', ''opportunistic''} then Err BadMode
      else if delay_max_ms b < delay_min_ms b then Err BadDelays
      else if batch_max_packets b = 0 then Err BadMaxPackets
      else if batch_max_queue_bytes b < 64 \<or> 4 * 1024 * 1024 < batch_max_queue_bytes b then Err BadQueueBytes
      else if record_max_payload_bytes r \<noteq> 0 \<and> (unat (record_max_payload_bytes r) < 64
              \<or> MAX_TUNNEL_MTU < unat (record_max_payload_bytes r)) then Err BadMaxPayload
      else if \<not> (f64_less (Finite 0) (record_small_min_ratio r)
              \<and> f64_le (record_small_min_ratio r) (record_small_max_ratio r)
              \<and> f64_le (record_small_max_ratio r) (Finite 1)) then Err BadRatios
      else if \<not> (f64_le (Finite 0) (record_full_probability r) \<and> f64_le (record_full_probability r) (Finite 1))
           then Err BadProbability
      else if reassembly_timeout_ms f = 0 \<or> fragment_max_inflight_packets f = 0
              \<or> fragment_max_reassembly_bytes f < 64 \<or> fragment_max_fragments_per_packet f = 0
           then Err BadFragmentLimits
      else Ok ())"

section \<open>The runtime form\<close>

definition RZ_MAGIC :: bytes where "RZ_MAGIC = [0x51, 0x52, 0x4d, 0x31]"
definition FRAME_HEADER_LEN :: nat where "FRAME_HEADER_LEN = 10"
definition MIN_RECORD_PAYLOAD :: nat where "MIN_RECORD_PAYLOAD = length RZ_MAGIC + FRAME_HEADER_LEN + 1"

record RuntimeConfig =
  opportunistic :: bool
  delay_min :: duration
  delay_max :: duration
  max_packets :: nat
  max_queue_bytes :: nat
  max_payload_bytes :: nat
  small_min_ratio :: f64
  small_max_ratio :: f64
  full_probability :: f64
  fragment_enabled :: bool
  reassembly_timeout :: duration
  max_inflight_packets :: nat
  max_reassembly_bytes :: nat
  max_fragments_per_packet :: nat
  max_packet_bytes :: nat

datatype RecordizerError = InvalidConfig | PacketSize | RzTruncated | RzUnsupported
  | RzInvalidMetadata | RzConflict | RzResourceLimit

definition from_config :: "RecordizerConfig \<Rightarrow> nat \<Rightarrow> nat \<Rightarrow> (RecordizerError, RuntimeConfig) result" where
  "from_config c carrier_payload_budget max_packet =
     (let b = batch c; r = record_config c; f = fragment_config c;
          configured_max = unat (record_max_payload_bytes r);
          max_payload = min (if configured_max = 0 then carrier_payload_budget
                             else min configured_max carrier_payload_budget)
                          (unat (batch_max_queue_bytes b))
      in if max_payload < MIN_RECORD_PAYLOAD then Err InvalidConfig
         else Ok \<lparr>opportunistic = (mode b = ''opportunistic''),
           delay_min = duration_millis (unat (delay_min_ms b)),
           delay_max = duration_millis (unat (delay_max_ms b)),
           max_packets = unat (batch_max_packets b),
           max_queue_bytes = unat (batch_max_queue_bytes b),
           max_payload_bytes = max_payload,
           small_min_ratio = record_small_min_ratio r,
           small_max_ratio = record_small_max_ratio r,
           full_probability = record_full_probability r,
           fragment_enabled = fragment_on f,
           reassembly_timeout = duration_millis (unat (reassembly_timeout_ms f)),
           max_inflight_packets = unat (fragment_max_inflight_packets f),
           max_reassembly_bytes = unat (fragment_max_reassembly_bytes f),
           max_fragments_per_packet = unat (fragment_max_fragments_per_packet f),
           max_packet_bytes = max_packet\<rparr>)"

section \<open>What a validated configuration guarantees\<close>

text \<open>The conditions under which the sender makes progress.\<close>

definition runtime_wf :: "RuntimeConfig \<Rightarrow> bool" where
  "runtime_wf c \<longleftrightarrow> MIN_RECORD_PAYLOAD \<le> max_payload_bytes c \<and> max_payload_bytes c < 2 ^ 32 \<and> 0 < max_packets c
     \<and> 0 < max_fragments_per_packet c \<and> 0 < max_inflight_packets c \<and> 0 < reassembly_timeout c"

lemma unat_pos_iff: "0 < unat (w :: 'a::len word) \<longleftrightarrow> w \<noteq> 0"
  by (simp add: unat_eq_0 neq0_conv [symmetric] del: neq0_conv)

lemma validated_limits:
  assumes "validate_recordizer c = Ok ()" and "\<not> is_off c"
  shows "batch_max_packets (batch c) \<noteq> 0" "reassembly_timeout_ms (fragment_config c) \<noteq> 0"
    "fragment_max_inflight_packets (fragment_config c) \<noteq> 0"
    "fragment_max_fragments_per_packet (fragment_config c) \<noteq> 0"
  using assms unfolding validate_recordizer_def Let_def
  by (simp_all only: if_False split: if_split_asm) simp_all

lemma validated_runtime_wf:
  assumes "validate_recordizer c = Ok ()" and "\<not> is_off c" and "from_config c budget mp = Ok rc"
  shows "runtime_wf rc"
proof -
  have facts: "MIN_RECORD_PAYLOAD \<le> max_payload_bytes rc" "max_payload_bytes rc \<le> unat (batch_max_queue_bytes (batch c))"
    "max_packets rc = unat (batch_max_packets (batch c))"
    "max_fragments_per_packet rc = unat (fragment_max_fragments_per_packet (fragment_config c))"
    "max_inflight_packets rc = unat (fragment_max_inflight_packets (fragment_config c))"
    "reassembly_timeout rc = duration_millis (unat (reassembly_timeout_ms (fragment_config c)))"
    using assms(3) by (auto simp: from_config_def Let_def simp del: min_less_iff_disj split: if_split_asm)
  have "unat (batch_max_queue_bytes (batch c)) < 2 ^ 32" using unsigned_less [of "batch_max_queue_bytes (batch c)"] by simp
  with facts(2) have "max_payload_bytes rc < 2 ^ 32" by linarith
  with facts show ?thesis using validated_limits [OF assms(1,2)] by (simp add: runtime_wf_def unat_pos_iff)
qed

text \<open>The default configuration is valid, and gives this runtime form on a carrier with a budget of 64 bytes.\<close>

lemma default_config_valid: "validate_recordizer RecordizerConfig_default = Ok ()" "\<not> is_off RecordizerConfig_default"
  by code_simp+

definition demo_runtime :: RuntimeConfig where
  "demo_runtime = projr (from_config RecordizerConfig_default 64 1500)"

lemma demo_from_config: "from_config RecordizerConfig_default 64 1500 = Ok demo_runtime"
  by (simp add: demo_runtime_def from_config_def Let_def RecordizerConfig_default_def RecordizerBatchConfig_default_def
      RecordizerRecordConfig_default_def MIN_RECORD_PAYLOAD_def FRAME_HEADER_LEN_def RZ_MAGIC_def)

lemma demo_runtime_wf: "runtime_wf demo_runtime"
  by (rule validated_runtime_wf [OF default_config_valid demo_from_config])

lemma demo_runtime_fields:
  "max_payload_bytes demo_runtime = 64" "max_packet_bytes demo_runtime = 1500" "max_fragments_per_packet demo_runtime = 64"
  "max_inflight_packets demo_runtime = 64" "max_reassembly_bytes demo_runtime = 4194304" "fragment_enabled demo_runtime"
  by (simp_all add: demo_runtime_def from_config_def Let_def RecordizerConfig_default_def RecordizerBatchConfig_default_def
      RecordizerRecordConfig_default_def RecordizerFragmentConfig_default_def MIN_RECORD_PAYLOAD_def FRAME_HEADER_LEN_def RZ_MAGIC_def)

end
