(* ===== verification/Recordizer.thy ===== *)
theory Recordizer
  imports Recordizer_Config
begin

text \<open>
  The packet multiplexer of \<^verbatim>\<open>protocol/recordizer.rs\<close>: the sender packs inner packets, whole or
  in pieces, into envelopes of random target size, and the receiver takes them apart.
  The random generator (crate \<^verbatim>\<open>rand\<close>) and the \<^verbatim>\<open>f64\<close> product of the target computation are
  parameters, gathered in the record \<open>Rng\<close>; the sender's state carries the number of draws made, so that
  successive draws are independent. The loop of \<^verbatim>\<open>push\<close> returns an option: that it returns is proved.
\<close>

section \<open>The sender\<close>

record Rng =
  random_bool :: "nat \<Rightarrow> f64 \<Rightarrow> bool"
  random_range :: "nat \<Rightarrow> nat \<Rightarrow> nat \<Rightarrow> nat"
  scale_round :: "nat \<Rightarrow> f64 \<Rightarrow> nat"

text \<open>The documented contract of \<^verbatim>\<open>random_range(lo..=hi)\<close>.\<close>

definition rng_law :: "Rng \<Rightarrow> bool" where
  "rng_law R \<longleftrightarrow> (\<forall>i lo hi. lo \<le> hi \<longrightarrow> lo \<le> random_range R i lo hi \<and> random_range R i lo hi \<le> hi)"

record Recordizer =
  rz_config :: RuntimeConfig
  current :: bytes
  current_target :: nat
  current_packets :: nat
  deadline :: "instant option"
  next_packet_id :: u32
  draws :: nat

definition Recordizer_new :: "u32 \<Rightarrow> RuntimeConfig \<Rightarrow> Recordizer" where
  "Recordizer_new random_id config = \<lparr>rz_config = config, current = [], current_target = 0,
     current_packets = 0, deadline = None, next_packet_id = random_id, draws = 0\<rparr>"

definition raise_runtime :: "Recordizer \<Rightarrow> RuntimeConfig \<Rightarrow> (RecordizerError, unit) result \<times> Recordizer" where
  "raise_runtime s config =
     (if max_payload_bytes config < max_payload_bytes (rz_config s) then (Err InvalidConfig, s)
      else (Ok (), s\<lparr>rz_config := config\<rparr>))"

definition is_pending :: "Recordizer \<Rightarrow> bool" where
  "is_pending s = (current s \<noteq> [])"

definition choose_target :: "Rng \<Rightarrow> nat \<Rightarrow> RuntimeConfig \<Rightarrow> nat" where
  "choose_target R i config =
     (if random_bool R i (full_probability config) then max_payload_bytes config
      else (let raw_min = scale_round R (max_payload_bytes config) (small_min_ratio config);
                raw_max = scale_round R (max_payload_bytes config) (small_max_ratio config);
                lo = min (max raw_min MIN_RECORD_PAYLOAD) (max_payload_bytes config);
                hi = min (max raw_max lo) (max_payload_bytes config)
            in random_range R i lo hi))"

definition as_millis :: "duration \<Rightarrow> nat" where
  "as_millis d = min (d div 1000000) (2 ^ 64 - 1)"

definition random_duration :: "Rng \<Rightarrow> nat \<Rightarrow> duration \<Rightarrow> duration \<Rightarrow> duration" where
  "random_duration R i lo hi =
     (if hi \<le> lo then lo else duration_millis (random_range R i (as_millis lo) (as_millis hi)))"

definition ensure_record :: "Rng \<Rightarrow> instant \<Rightarrow> Recordizer \<Rightarrow> Recordizer" where
  "ensure_record R now s =
     (if current s \<noteq> [] then s
      else s\<lparr>current := RZ_MAGIC,
             current_target := choose_target R (draws s) (rz_config s),
             deadline := (if opportunistic (rz_config s) then None
                          else Some (now + random_duration R (Suc (draws s)) (delay_min (rz_config s)) (delay_max (rz_config s)))),
             draws := draws s + 2\<rparr>)"

definition flush :: "Recordizer \<Rightarrow> bytes option \<times> Recordizer" where
  "flush s =
     (if current s = [] then (None, s)
      else (Some (current s), s\<lparr>deadline := None, current_target := 0, current_packets := 0, current := []\<rparr>))"

definition flush_due :: "Recordizer \<Rightarrow> instant \<Rightarrow> bytes option \<times> Recordizer" where
  "flush_due s now =
     (case deadline s of None \<Rightarrow> (None, s) | Some d \<Rightarrow> if d \<le> now then flush s else (None, s))"

definition finish_ready_batch :: "Recordizer \<Rightarrow> bytes option \<times> Recordizer" where
  "finish_ready_batch s = (if opportunistic (rz_config s) then flush s else (None, s))"

text \<open>\<^verbatim>\<open>if let Some(record) = self.flush() { ready.push(record) }\<close>\<close>

definition flush_into :: "bytes list \<Rightarrow> Recordizer \<Rightarrow> bytes list \<times> Recordizer" where
  "flush_into ready s = (case flush s of (None, s') \<Rightarrow> (ready, s') | (Some r, s') \<Rightarrow> (ready @ [r], s'))"

definition frame_bytes :: "u32 \<Rightarrow> nat \<Rightarrow> nat \<Rightarrow> bytes \<Rightarrow> bytes" where
  "frame_bytes packet_id tot offset payload =
     to_be_bytes packet_id @ to_be_bytes (of_nat tot :: u16) @ to_be_bytes (of_nat offset :: u16)
       @ to_be_bytes (of_nat (length payload) :: u16) @ payload"

definition append_frame :: "u32 \<Rightarrow> nat \<Rightarrow> nat \<Rightarrow> bytes \<Rightarrow> Recordizer \<Rightarrow> Recordizer" where
  "append_frame packet_id tot offset payload s =
     s\<lparr>current := current s @ frame_bytes packet_id tot offset payload, current_packets := current_packets s + 1\<rparr>"

text \<open>The loop body with fragmentation disabled; the loop breaks after it.\<close>

definition push_whole :: "Rng \<Rightarrow> bytes \<Rightarrow> u32 \<Rightarrow> instant \<Rightarrow> bytes list \<Rightarrow> Recordizer
    \<Rightarrow> (RecordizerError, bytes list) result \<times> Recordizer" where
  "push_whole R packet packet_id now ready s =
     (let cap = max_payload_bytes (rz_config s) in
      if cap < length RZ_MAGIC + FRAME_HEADER_LEN + length packet then (Err PacketSize, s)
      else (let s1 = ensure_record R now s;
                does_not_fit = (current_target s1 < length (current s1) + FRAME_HEADER_LEN + length packet);
                (ready2, s2) =
                  (if current_packets s1 = 0 \<and> does_not_fit then (ready, s1\<lparr>current_target := cap\<rparr>)
                   else if does_not_fit \<or> max_packets (rz_config s) \<le> current_packets s1
                   then (let (ready', s') = flush_into ready s1
                         in (ready', (ensure_record R now s')\<lparr>current_target := cap\<rparr>))
                   else (ready, s1))
            in (Ok ready2, append_frame packet_id (length packet) 0 packet s2)))"

text \<open>The fragmenting loop body, first part: the envelope the next piece goes to. \<open>tight\<close> says that the
  pieces left are just enough at full size.\<close>

definition open_for_fragment :: "Rng \<Rightarrow> instant \<Rightarrow> bool \<Rightarrow> bytes list \<Rightarrow> Recordizer \<Rightarrow> bytes list \<times> Recordizer" where
  "open_for_fragment R now tight ready s =
     (let (ready1, s1) = (if tight \<and> current s \<noteq> [] then flush_into ready s else (ready, s));
          s2 = ensure_record R now s1
      in (ready1, if tight then s2\<lparr>current_target := max_payload_bytes (rz_config s2)\<rparr> else s2))"

text \<open>Second part: send the envelope off when it is full, otherwise put the next piece in it. The result is the
  new offset, fragment count and ready list.\<close>

definition place_fragment :: "bytes \<Rightarrow> u32 \<Rightarrow> nat \<Rightarrow> nat \<Rightarrow> bytes list \<Rightarrow> Recordizer
    \<Rightarrow> nat \<times> nat \<times> bytes list \<times> Recordizer" where
  "place_fragment packet packet_id offset fragment_count ready s =
     (let available = current_target s - length (current s) - FRAME_HEADER_LEN;
          n = min (min available (length packet - offset)) u16_max
      in if max_packets (rz_config s) \<le> current_packets s
            \<or> current_target s - length (current s) \<le> FRAME_HEADER_LEN \<or> n = 0
         then (offset, fragment_count, flush_into ready s)
         else (let s1 = append_frame packet_id (length packet) offset (take n (drop offset packet)) s
               in (offset + n, Suc fragment_count,
                   if current_target s1 \<le> length (current s1) \<or> max_packets (rz_config s1) \<le> current_packets s1
                   then flush_into ready s1 else (ready, s1))))"

definition fragment_step :: "Rng \<Rightarrow> bytes \<Rightarrow> u32 \<Rightarrow> instant \<Rightarrow> nat \<Rightarrow> nat \<Rightarrow> nat \<Rightarrow> bytes list \<Rightarrow> Recordizer
    \<Rightarrow> (RecordizerError, nat \<times> nat \<times> bytes list \<times> Recordizer) result" where
  "fragment_step R packet packet_id now full_fragment_capacity offset fragment_count ready s =
     (let fragments_left = max_fragments_per_packet (rz_config s) - fragment_count;
          remaining = length packet - offset;
          minimum_remaining_fragments = div_ceil remaining (max full_fragment_capacity 1)
      in if fragments_left = 0 \<or> fragments_left < minimum_remaining_fragments then Err PacketSize
         else (let (ready1, s1) = open_for_fragment R now (minimum_remaining_fragments = fragments_left) ready s
               in Ok (place_fragment packet packet_id offset fragment_count ready1 s1)))"

partial_function (option) push_loop :: "Rng \<Rightarrow> bytes \<Rightarrow> u32 \<Rightarrow> instant \<Rightarrow> nat \<Rightarrow> nat \<Rightarrow> nat \<Rightarrow> bytes list \<Rightarrow> Recordizer
    \<Rightarrow> ((RecordizerError, bytes list) result \<times> Recordizer) option" where
  "push_loop R packet packet_id now cap offset fragment_count ready s =
     (if offset < length packet then
        (if \<not> fragment_enabled (rz_config s) then Some (push_whole R packet packet_id now ready s)
         else (case fragment_step R packet packet_id now cap offset fragment_count ready s of
             Inl e \<Rightarrow> Some (Err e, s)
           | Inr (offset', fragment_count', ready', s') \<Rightarrow>
               push_loop R packet packet_id now cap offset' fragment_count' ready' s'))
      else Some (Ok ready, s))"

definition push :: "Rng \<Rightarrow> Recordizer \<Rightarrow> bytes \<Rightarrow> instant
    \<Rightarrow> ((RecordizerError, bytes list) result \<times> Recordizer) option" where
  "push R s packet now =
     (let config = rz_config s;
          cap = max_payload_bytes config - (length RZ_MAGIC + FRAME_HEADER_LEN)
      in if packet = [] \<or> max_packet_bytes config < length packet \<or> u16_max < length packet
         then Some (Err PacketSize, s)
         else if fragment_enabled config \<and> max_fragments_per_packet config < div_ceil (length packet) (max cap 1)
         then Some (Err PacketSize, s)
         else (case push_loop R packet (next_packet_id s) now cap 0 0 []
                      (s\<lparr>next_packet_id := next_packet_id s + 1\<rparr>) of
                 None \<Rightarrow> None
               | Some (Inl e, s') \<Rightarrow> Some (Err e, s')
               | Some (Inr ready, s') \<Rightarrow>
                   if \<not> opportunistic config \<and> delay_max config = 0
                   then (let (ready', s'') = flush_into ready s' in Some (Ok ready', s''))
                   else Some (Ok ready, s')))"

section \<open>Accounting helpers\<close>

definition pending_packet_capacity :: "RuntimeConfig \<Rightarrow> nat" where
  "pending_packet_capacity config =
     saturating_add (min (max_packets config) ((max_payload_bytes config - length RZ_MAGIC) div (FRAME_HEADER_LEN + 1))) 1"

text \<open>The big-endian fields of a frame header: packet id, total length, offset, payload length.\<close>

definition hdr_id :: "bytes \<Rightarrow> u32" where "hdr_id h = from_be_bytes (slice 0 4 h)"
definition hdr_total :: "bytes \<Rightarrow> nat" where "hdr_total h = unat (from_be_bytes (slice 4 6 h) :: u16)"
definition hdr_offset :: "bytes \<Rightarrow> nat" where "hdr_offset h = unat (from_be_bytes (slice 6 8 h) :: u16)"
definition hdr_len :: "bytes \<Rightarrow> nat" where "hdr_len h = unat (from_be_bytes (slice 8 10 h) :: u16)"

text \<open>The loop of \<^verbatim>\<open>encoded_payload_len\<close> over what is left of the envelope.\<close>

function payload_len_loop :: "bytes \<Rightarrow> nat \<Rightarrow> nat option" where
  "payload_len_loop rest n =
     (if rest = [] then Some n
      else if length rest < FRAME_HEADER_LEN then None
      else if hdr_len rest = 0 \<or> hdr_total rest < hdr_offset rest + hdr_len rest then None
      else if length rest < FRAME_HEADER_LEN + hdr_len rest then None
      else Option.bind (checked_add n (hdr_len rest)) (payload_len_loop (drop (FRAME_HEADER_LEN + hdr_len rest) rest)))"
  by pat_completeness auto
termination
  by (relation "measure (\<lambda>(rest, n). length rest)") auto

definition encoded_payload_len :: "bytes \<Rightarrow> nat option" where
  "encoded_payload_len rec =
     (if take (length RZ_MAGIC) rec \<noteq> RZ_MAGIC then None else payload_len_loop (drop (length RZ_MAGIC) rec) 0)"

section \<open>The receiver\<close>

record RzChunk =
  rz_offset :: nat
  rz_len :: nat

record PendingPacket =
  pp_created_at :: instant
  pp_total_len :: nat
  pp_bytes :: bytes
  pp_chunks :: "RzChunk list"
  pp_received_bytes :: nat

record RzReassembler =
  ra_config :: RuntimeConfig
  ra_pending :: "(u32 \<times> PendingPacket) list"
  ra_buffered_bytes :: nat

definition RzReassembler_new :: "RuntimeConfig \<Rightarrow> RzReassembler" where
  "RzReassembler_new config = \<lparr>ra_config = config, ra_pending = [], ra_buffered_bytes = 0\<rparr>"

definition ra_remove :: "u32 \<Rightarrow> RzReassembler \<Rightarrow> RzReassembler" where
  "ra_remove packet_id s =
     (case map_of (ra_pending s) packet_id of
        None \<Rightarrow> s
      | Some packet \<Rightarrow> s\<lparr>ra_pending := AList.delete packet_id (ra_pending s),
                        ra_buffered_bytes := ra_buffered_bytes s - pp_total_len packet\<rparr>)"

definition ra_expired :: "duration \<Rightarrow> instant \<Rightarrow> PendingPacket \<Rightarrow> bool" where
  "ra_expired timeout now packet \<longleftrightarrow> timeout < now - pp_created_at packet"

definition ra_expire :: "instant \<Rightarrow> RzReassembler \<Rightarrow> RzReassembler" where
  "ra_expire now s = fold ra_remove
     (map fst (filter (\<lambda>e. ra_expired (reassembly_timeout (ra_config s)) now (snd e)) (ra_pending s))) s"

definition new_packet :: "instant \<Rightarrow> nat \<Rightarrow> PendingPacket" where
  "new_packet now tot = \<lparr>pp_created_at = now, pp_total_len = tot, pp_bytes = replicate tot 0, pp_chunks = [],
     pp_received_bytes = 0\<rparr>"

text \<open>\<^verbatim>\<open>bytes[offset..offset + len].copy_from_slice(payload)\<close> and the bookkeeping after it.\<close>

definition write_chunk :: "nat \<Rightarrow> bytes \<Rightarrow> PendingPacket \<Rightarrow> PendingPacket" where
  "write_chunk offset payload packet = packet\<lparr>
     pp_bytes := take offset (pp_bytes packet) @ payload @ drop (offset + length payload) (pp_bytes packet),
     pp_chunks := pp_chunks packet @ [\<lparr>rz_offset = offset, rz_len = length payload\<rparr>],
     pp_received_bytes := pp_received_bytes packet + length payload\<rparr>"

text \<open>From the fragment limit to the end of the loop body; the packet is in the table.\<close>

definition store_fragment :: "u32 \<Rightarrow> nat \<Rightarrow> bytes \<Rightarrow> RzReassembler \<Rightarrow> PendingPacket
    \<Rightarrow> (RecordizerError, bytes option) result \<times> RzReassembler" where
  "store_fragment packet_id offset payload s packet0 =
     (if max_fragments_per_packet (ra_config s) \<le> length (pp_chunks packet0)
      then (Err RzResourceLimit, ra_remove packet_id s)
      else (let packet = write_chunk offset payload packet0 in
            if pp_received_bytes packet = pp_total_len packet
            then (Ok (Some (pp_bytes packet)),
                  s\<lparr>ra_pending := AList.delete packet_id (ra_pending s),
                    ra_buffered_bytes := ra_buffered_bytes s - pp_total_len packet\<rparr>)
            else (Ok None, s\<lparr>ra_pending := AList.update packet_id packet (ra_pending s)\<rparr>)))"

definition chunk_overlaps :: "nat \<Rightarrow> nat \<Rightarrow> RzChunk \<Rightarrow> bool" where
  "chunk_overlaps offset len c \<longleftrightarrow> offset < rz_offset c + rz_len c \<and> rz_offset c < offset + len"

text \<open>One frame whose metadata has been checked: the packet it completes, if any.\<close>

definition accept_frame :: "instant \<Rightarrow> u32 \<Rightarrow> nat \<Rightarrow> nat \<Rightarrow> bytes \<Rightarrow> RzReassembler
    \<Rightarrow> (RecordizerError, bytes option) result \<times> RzReassembler" where
  "accept_frame now packet_id tot offset payload s =
     (if offset = 0 \<and> length payload = tot then
        (if map_of (ra_pending s) packet_id \<noteq> None then (Err RzConflict, ra_remove packet_id s)
         else (Ok (Some payload), s))
      else (case map_of (ra_pending s) packet_id of
          Some packet \<Rightarrow>
            if pp_total_len packet \<noteq> tot then (Err RzConflict, ra_remove packet_id s)
            else if list_ex (\<lambda>c. rz_offset c = offset \<and> rz_len c = length payload) (pp_chunks packet) then
              (if slice offset (offset + length payload) (pp_bytes packet) = payload then (Ok None, s)
               else (Err RzConflict, ra_remove packet_id s))
            else if list_ex (chunk_overlaps offset (length payload)) (pp_chunks packet)
            then (Err RzConflict, ra_remove packet_id s)
            else store_fragment packet_id offset payload s packet
        | None \<Rightarrow>
            if max_inflight_packets (ra_config s) \<le> length (ra_pending s) then (Err RzResourceLimit, s)
            else if max_reassembly_bytes (ra_config s) < saturating_add (ra_buffered_bytes s) tot
            then (Err RzResourceLimit, s)
            else (let packet = new_packet now tot in
                  store_fragment packet_id offset payload
                    (s\<lparr>ra_pending := AList.update packet_id packet (ra_pending s),
                       ra_buffered_bytes := ra_buffered_bytes s + tot\<rparr>) packet)))"

text \<open>The loop over the envelope, on the bytes from the cursor on; \<open>completed\<close> is what it has deferred.\<close>

function decode_loop :: "instant \<Rightarrow> bytes \<Rightarrow> bytes list \<Rightarrow> RzReassembler
    \<Rightarrow> (RecordizerError, bytes list) result \<times> RzReassembler" where
  "decode_loop now rest completed s =
     (if rest = [] then (Ok completed, s)
      else if length rest < FRAME_HEADER_LEN then (Err RzTruncated, s)
      else if hdr_total rest = 0 \<or> max_packet_bytes (ra_config s) < hdr_total rest \<or> hdr_len rest = 0
           \<or> length rest < FRAME_HEADER_LEN + hdr_len rest \<or> hdr_total rest < hdr_offset rest + hdr_len rest
      then (Err RzInvalidMetadata, s)
      else (case accept_frame now (hdr_id rest) (hdr_total rest) (hdr_offset rest)
                   (slice FRAME_HEADER_LEN (FRAME_HEADER_LEN + hdr_len rest) rest) s of
              (Inl e, s') \<Rightarrow> (Err e, s')
            | (Inr out, s') \<Rightarrow>
                decode_loop now (drop (FRAME_HEADER_LEN + hdr_len rest) rest)
                  (completed @ (case out of None \<Rightarrow> [] | Some packet \<Rightarrow> [packet])) s'))"
  by pat_completeness auto
termination
  by (relation "measure (\<lambda>(now, rest, completed, s). length rest)") auto

text \<open>\<^verbatim>\<open>decode_with_at\<close>: the packets its callback is run on, when the whole envelope is accepted.\<close>

definition decode_with_at :: "RzReassembler \<Rightarrow> bytes \<Rightarrow> instant
    \<Rightarrow> (RecordizerError, bytes list) result \<times> RzReassembler" where
  "decode_with_at s0 rec now =
     (let s = ra_expire now s0 in
      if length rec < length RZ_MAGIC then (Err RzTruncated, s)
      else if take (length RZ_MAGIC) rec \<noteq> RZ_MAGIC then (Err RzUnsupported, s)
      else if length rec = length RZ_MAGIC then (Err RzInvalidMetadata, s)
      else decode_loop now (drop (length RZ_MAGIC) rec) [] s)"

text \<open>The public entries read the clock; \<open>now\<close> is what it shows.\<close>

definition decode_with :: "RzReassembler \<Rightarrow> bytes \<Rightarrow> instant
    \<Rightarrow> (RecordizerError, bytes list) result \<times> RzReassembler" where
  "decode_with s rec now = decode_with_at s rec now"

definition decode :: "RzReassembler \<Rightarrow> bytes \<Rightarrow> instant
    \<Rightarrow> (RecordizerError, bytes list) result \<times> RzReassembler" where
  "decode s rec now =
     (case decode_with_at s rec now of (Inl e, s') \<Rightarrow> (Err e, s') | (Inr completed, s') \<Rightarrow> (Ok completed, s'))"

declare payload_len_loop.simps [simp del] decode_loop.simps [simp del]

end
