(* ===== verification/Recordizer_Sender.thy ===== *)
theory Recordizer_Sender
  imports Recordizer
begin

text \<open>
  What the sender of \<open>Recordizer\<close> does, seen as a stream of frames: it never loops, never fails
  in the middle of a packet, keeps every envelope inside the payload budget, and the frames of the
  envelopes it emits, in order, are a partition of the packets it accepted.
\<close>

section \<open>Frames and envelopes\<close>

type_synonym frame = "u32 \<times> nat \<times> nat \<times> bytes"

fun enc :: "frame \<Rightarrow> bytes" where
  "enc (pid, tot, off, payload) = frame_bytes pid tot off payload"

definition envelope :: "frame list \<Rightarrow> bytes" where
  "envelope fs = RZ_MAGIC @ concat (map enc fs)"

text \<open>The frames of one packet: contiguous non-empty pieces from \<open>off\<close> to the end.\<close>

fun pieces :: "u32 \<Rightarrow> bytes \<Rightarrow> nat \<Rightarrow> frame list \<Rightarrow> bool" where
  "pieces pid p off [] \<longleftrightarrow> off = length p"
| "pieces pid p off ((i, tot, o', b) # fs) \<longleftrightarrow> i = pid \<and> tot = length p \<and> o' = off \<and> b \<noteq> []
     \<and> b = take (length b) (drop off p) \<and> off + length b \<le> length p \<and> pieces pid p (off + length b) fs"

text \<open>The pending envelope of a sender holds exactly the frames \<open>fs\<close>, within its target.\<close>

definition holds :: "Recordizer \<Rightarrow> frame list \<Rightarrow> bool" where
  "holds s fs \<longleftrightarrow> current_packets s = length fs \<and> runtime_wf (rz_config s)
     \<and> (if fs = [] then current s = []
        else current s = envelope fs \<and> length (current s) \<le> current_target s
          \<and> current_target s \<le> max_payload_bytes (rz_config s))"

lemma rz_consts: "length RZ_MAGIC = 4" "FRAME_HEADER_LEN = 10" "MIN_RECORD_PAYLOAD = 15"
  by (simp_all add: RZ_MAGIC_def FRAME_HEADER_LEN_def MIN_RECORD_PAYLOAD_def)

lemma length_frame_bytes [simp]: "length (frame_bytes pid tot off b) = 10 + length b"
  by (simp add: frame_bytes_def)

lemma envelope_snoc: "envelope (fs @ [f]) = envelope fs @ enc f"
  by (simp add: envelope_def)

lemma envelope_Nil [simp]: "envelope [] = RZ_MAGIC"
  by (simp add: envelope_def)

lemma envelope_not_Nil [simp]: "envelope fs \<noteq> []"
  by (simp add: envelope_def RZ_MAGIC_def)

lemma length_envelope_ge: "4 \<le> length (envelope fs)"
  by (simp add: envelope_def rz_consts)

section \<open>Flushing and opening an envelope\<close>

lemma flush_holds:
  assumes "holds s fs"
  shows "fst (flush s) = (if fs = [] then None else Some (envelope fs))" "holds (snd (flush s)) []"
    "rz_config (snd (flush s)) = rz_config s"
  using assms by (auto simp: flush_def holds_def split: if_splits)

lemma flush_into_holds:
  assumes "holds s fs"
  shows "fst (flush_into ready s) = ready @ map envelope (if fs = [] then [] else [fs])"
    "holds (snd (flush_into ready s)) []" "rz_config (snd (flush_into ready s)) = rz_config s"
  using flush_holds [OF assms] by (auto simp: flush_into_def split: prod.splits option.splits if_splits)

lemma choose_target_bounds:
  assumes "rng_law R" and "MIN_RECORD_PAYLOAD \<le> max_payload_bytes c"
  shows "MIN_RECORD_PAYLOAD \<le> choose_target R i c" "choose_target R i c \<le> max_payload_bytes c"
proof -
  let ?lo = "min (max (scale_round R (max_payload_bytes c) (small_min_ratio c)) MIN_RECORD_PAYLOAD) (max_payload_bytes c)"
  let ?hi = "min (max (scale_round R (max_payload_bytes c) (small_max_ratio c)) ?lo) (max_payload_bytes c)"
  have "?lo \<le> ?hi" "MIN_RECORD_PAYLOAD \<le> ?lo" "?hi \<le> max_payload_bytes c" using assms(2) by simp_all
  moreover from this(1) have "?lo \<le> random_range R i ?lo ?hi" "random_range R i ?lo ?hi \<le> ?hi"
    using assms(1) by (auto simp only: rng_law_def)
  ultimately have "MIN_RECORD_PAYLOAD \<le> random_range R i ?lo ?hi" "random_range R i ?lo ?hi \<le> max_payload_bytes c"
    by linarith+
  then show "MIN_RECORD_PAYLOAD \<le> choose_target R i c" "choose_target R i c \<le> max_payload_bytes c"
    using assms(2) unfolding choose_target_def Let_def by presburger+
qed

text \<open>An open envelope: the frames already in it, with room for one more byte of payload if it is empty.\<close>

definition is_open :: "Recordizer \<Rightarrow> frame list \<Rightarrow> bool" where
  "is_open s fs \<longleftrightarrow> current_packets s = length fs \<and> runtime_wf (rz_config s) \<and> current s = envelope fs
     \<and> length (current s) \<le> current_target s \<and> current_target s \<le> max_payload_bytes (rz_config s)
     \<and> (fs = [] \<longrightarrow> MIN_RECORD_PAYLOAD \<le> current_target s)"

lemma ensure_record_open:
  assumes "rng_law R" and "holds s fs"
  shows "is_open (ensure_record R now s) fs" "rz_config (ensure_record R now s) = rz_config s"
  using assms choose_target_bounds [OF assms(1), of "rz_config s" "draws s"]
  by (auto simp: ensure_record_def holds_def is_open_def runtime_wf_def rz_consts split: if_splits)

lemma open_holds: "is_open s fs \<Longrightarrow> fs \<noteq> [] \<Longrightarrow> holds s fs"
  by (auto simp: is_open_def holds_def)

lemma open_retarget:
  assumes "is_open s fs"
  shows "is_open (s\<lparr>current_target := max_payload_bytes (rz_config s)\<rparr>) fs"
  using assms by (auto simp: is_open_def runtime_wf_def)

lemma append_frame_open:
  assumes "is_open s fs" and "length (current s) + FRAME_HEADER_LEN + length b \<le> current_target s"
  shows "holds (append_frame pid tot off b s) (fs @ [(pid, tot, off, b)])"
    "rz_config (append_frame pid tot off b s) = rz_config s"
  using assms by (simp_all add: is_open_def holds_def append_frame_def envelope_snoc rz_consts)

text \<open>What any step of the sender promises: it turns the pending frames \<open>fs\<close> and the new frames \<open>new\<close>
  into whole envelopes and the new pending frames, in order and within the budget.\<close>

definition emits :: "RuntimeConfig \<Rightarrow> frame list \<Rightarrow> frame list \<Rightarrow> frame list list \<Rightarrow> frame list \<Rightarrow> bool" where
  "emits c fs new rs fs' \<longleftrightarrow> concat rs @ fs' = fs @ new
     \<and> (\<forall>r \<in> set rs. r \<noteq> [] \<and> length (envelope r) \<le> max_payload_bytes c)"

lemma emits_trans: "emits c fs a rs fs1 \<Longrightarrow> emits c fs1 b rs' fs2 \<Longrightarrow> emits c fs (a @ b) (rs @ rs') fs2"
  unfolding emits_def by (metis (no_types, lifting) UnE append_assoc concat_append set_append)

lemma emits_refl: "emits c fs [] [] fs"
  by (simp add: emits_def)

lemma emits_add: "emits c fs [f] [] (fs @ [f])"
  by (simp add: emits_def)

lemma emits_flush: "holds s fs \<Longrightarrow> emits (rz_config s) fs [] (if fs = [] then [] else [fs]) []"
  by (auto simp: emits_def holds_def)

section \<open>One iteration of the fragmenting loop\<close>

lemma holds_current_iff: "holds s fs \<Longrightarrow> current s = [] \<longleftrightarrow> fs = []"
  by (simp add: holds_def split: if_splits)

lemma open_for_fragment_tight:
  assumes "rng_law R" and "holds s fs"
  shows "\<exists>s'. open_for_fragment R now True ready s = (ready @ map envelope (if fs = [] then [] else [fs]), s')
     \<and> is_open s' [] \<and> rz_config s' = rz_config s \<and> current_target s' = max_payload_bytes (rz_config s)"
proof -
  obtain s1 where s1: "(if current s \<noteq> [] then flush_into ready s else (ready, s))
      = (ready @ map envelope (if fs = [] then [] else [fs]), s1)" "holds s1 []" "rz_config s1 = rz_config s"
    using flush_into_holds [OF assms(2), of ready] assms(2) holds_current_iff [OF assms(2)]
    by (cases "flush_into ready s") (auto split: if_splits)
  note o = ensure_record_open [OF assms(1) s1(2), of now]
  show ?thesis
    using o s1(1,3) open_retarget [OF o(1)] by (simp add: open_for_fragment_def Let_def)
qed

lemma open_for_fragment_slack:
  "open_for_fragment R now False ready s = (ready, ensure_record R now s)"
  by (simp add: open_for_fragment_def)

lemma place_fragment_step:
  assumes o: "is_open s fs" and off: "off < length p" and len: "length p \<le> 65535"
  shows "\<exists>off' cnt' rs s' fs' new. place_fragment p pid off cnt ready s = (off', cnt', ready @ map envelope rs, s')
     \<and> holds s' fs' \<and> rz_config s' = rz_config s \<and> emits (rz_config s) fs new rs fs'
     \<and> (fs \<noteq> [] \<and> fs' = [] \<and> new = [] \<and> off' = off \<and> cnt' = cnt
        \<or> (\<exists>n. n = min (current_target s - length (current s) - 10) (length p - off) \<and> 0 < n
             \<and> new = [(pid, length p, off, take n (drop off p))] \<and> off' = off + n \<and> cnt' = Suc cnt))"
proof -
  define n where "n = min (current_target s - length (current s) - 10) (length p - off)"
  have n16: "min (min (current_target s - length (current s) - FRAME_HEADER_LEN) (length p - off)) u16_max = n"
    using len by (simp add: n_def rz_consts u16_max_def)
  let ?full = "max_packets (rz_config s) \<le> current_packets s \<or> current_target s - length (current s) \<le> FRAME_HEADER_LEN \<or> n = 0"
  have wf: "0 < max_packets (rz_config s)" using o by (simp add: is_open_def runtime_wf_def)
  show ?thesis
  proof (cases ?full)
    case True
    have "fs \<noteq> []"
    proof
      assume "fs = []"
      then have "current_packets s = 0" "length (current s) = 4" "15 \<le> current_target s"
        using o by (simp_all add: is_open_def rz_consts)
      with True wf off show False by (auto simp: rz_consts n_def)
    qed
    then have h: "holds s fs" using o by (rule open_holds [rotated])
    have "place_fragment p pid off cnt ready s = (off, cnt, ready @ map envelope [fs], snd (flush_into ready s))"
      using True flush_into_holds(1) [OF h, of ready] \<open>fs \<noteq> []\<close>
      unfolding place_fragment_def Let_def n16 by (simp add: prod_eq_iff)
    moreover have "emits (rz_config s) fs [] [fs] []" using emits_flush [OF h] \<open>fs \<noteq> []\<close> by simp
    ultimately show ?thesis using flush_into_holds(2,3) [OF h, of ready] \<open>fs \<noteq> []\<close> by blast
  next
    case False
    let ?f = "(pid, length p, off, take n (drop off p))"
    let ?s = "append_frame pid (length p) off (take n (drop off p)) s"
    have "length (take n (drop off p)) = n" by (simp add: n_def)
    moreover have "length (current s) + FRAME_HEADER_LEN + n \<le> current_target s"
      using False unfolding n_def rz_consts by linarith
    ultimately have h: "holds ?s (fs @ [?f])" and c: "rz_config ?s = rz_config s"
      using append_frame_open [OF o] by auto
    let ?out = "current_target ?s \<le> length (current ?s) \<or> max_packets (rz_config ?s) \<le> current_packets ?s"
    have eq: "place_fragment p pid off cnt ready s =
        (off + n, Suc cnt, if ?out then flush_into ready ?s else (ready, ?s))"
      using False unfolding place_fragment_def Let_def n16 by simp
    have new: "\<exists>m. m = min (current_target s - length (current s) - 10) (length p - off) \<and> 0 < m
        \<and> [?f] = [(pid, length p, off, take m (drop off p))] \<and> off + n = off + m \<and> Suc cnt = Suc cnt"
      using False n_def by blast
    show ?thesis
    proof (cases ?out)
      case True
      have em: "emits (rz_config s) fs [?f] [fs @ [?f]] []"
        using emits_trans [OF emits_add [of "rz_config s" fs ?f] emits_flush [OF h, unfolded c]] by simp
      have out: "place_fragment p pid off cnt ready s = (off + n, Suc cnt, ready @ map envelope [fs @ [?f]], snd (flush_into ready ?s))"
        using flush_into_holds(1) [OF h, of ready] True unfolding eq by (simp add: prod_eq_iff)
      have "rz_config (snd (flush_into ready ?s)) = rz_config s" using flush_into_holds(3) [OF h, of ready] c by simp
      from conjI [OF out conjI [OF flush_into_holds(2) [OF h] conjI [OF this conjI [OF em disjI2 [OF new]]]]]
      show ?thesis by (intro exI)
    next
      case no: False
      then have out: "place_fragment p pid off cnt ready s = (off + n, Suc cnt, ready @ map envelope [], ?s)"
        unfolding eq by simp
      from conjI [OF out conjI [OF h conjI [OF c conjI [OF emits_add disjI2 [OF new]]]]]
      show ?thesis by (intro exI)
    qed
  qed
qed

text \<open>Every iteration either places a piece, or sends off a full envelope and leaves it empty; and it keeps
  enough fragments in hand for the rest of the packet.\<close>

definition room_for :: "RuntimeConfig \<Rightarrow> nat \<Rightarrow> nat \<Rightarrow> bool" where
  "room_for c remaining cnt \<longleftrightarrow> remaining \<le> (max_fragments_per_packet c - cnt) * (max_payload_bytes c - 14)"

definition advances :: "RuntimeConfig \<Rightarrow> u32 \<Rightarrow> bytes \<Rightarrow> frame list \<Rightarrow> nat \<Rightarrow> nat \<Rightarrow> frame list \<Rightarrow> frame list \<Rightarrow> nat \<Rightarrow> nat \<Rightarrow> bool" where
  "advances c pid p fs off cnt fs' new off' cnt' \<longleftrightarrow>
     fs \<noteq> [] \<and> fs' = [] \<and> new = [] \<and> off' = off \<and> cnt' = cnt
     \<or> off < off' \<and> off' \<le> length p \<and> new = [(pid, length p, off, take (off' - off) (drop off p))]
       \<and> cnt' = Suc cnt \<and> cnt < max_fragments_per_packet c \<and> room_for c (length p - off') cnt'"

definition step_ok :: "RuntimeConfig \<Rightarrow> u32 \<Rightarrow> bytes \<Rightarrow> frame list \<Rightarrow> nat \<Rightarrow> nat \<Rightarrow> bytes list
    \<Rightarrow> (RecordizerError, nat \<times> nat \<times> bytes list \<times> Recordizer) result \<Rightarrow> bool" where
  "step_ok c pid p fs off cnt ready res \<longleftrightarrow>
     (\<exists>off' cnt' rs s' fs' new. res = Ok (off', cnt', ready @ map envelope rs, s') \<and> holds s' fs'
        \<and> rz_config s' = c \<and> emits c fs new rs fs' \<and> advances c pid p fs off cnt fs' new off' cnt')"

lemma place_fragment_tight:
  assumes R: "rng_law R" and h: "holds s fs" and off: "off < length p" and len: "length p \<le> 65535"
    and room: "room_for (rz_config s) (length p - off) cnt" and left: "cnt < max_fragments_per_packet (rz_config s)"
  shows "step_ok (rz_config s) pid p fs off cnt ready
     (let (ready1, s1) = open_for_fragment R now True ready s in Ok (place_fragment p pid off cnt ready1 s1))"
proof -
  let ?rs = "if fs = [] then [] else [fs]" and ?c = "rz_config s"
  obtain s1 where s1: "open_for_fragment R now True ready s = (ready @ map envelope ?rs, s1)"
      "is_open s1 []" "rz_config s1 = ?c" "current_target s1 = max_payload_bytes ?c"
    using open_for_fragment_tight [OF R h] by blast
  have c4: "length (current s1) = 4" using s1(2) by (simp add: is_open_def rz_consts)
  define n where "n = min (current_target s1 - length (current s1) - 10) (length p - off)"
  then have n: "n = min (max_payload_bytes ?c - 14) (length p - off)" using s1(4) c4 by simp
  have n0: "0 < n" using h off by (simp add: n holds_def runtime_wf_def rz_consts)
  obtain rs s' fs' where s': "place_fragment p pid off cnt (ready @ map envelope ?rs) s1
        = (off + n, Suc cnt, (ready @ map envelope ?rs) @ map envelope rs, s')"
      "holds s' fs'" "rz_config s' = ?c" "emits ?c [] [(pid, length p, off, take n (drop off p))] rs fs'"
    using place_fragment_step [OF s1(2) off len, of pid cnt "ready @ map envelope ?rs"]
    unfolding n_def [symmetric] s1(3) by blast
  have em: "emits ?c fs [(pid, length p, off, take n (drop off p))] (?rs @ rs) fs'"
    using emits_trans [OF emits_flush [OF h] s'(4)] by simp
  obtain l where l: "max_fragments_per_packet ?c - cnt = Suc l" using left by (metis Suc_diff_Suc)
  then have l': "max_fragments_per_packet ?c - Suc cnt = l" by linarith
  define cap where "cap = max_payload_bytes ?c - 14"
  have "length p - off \<le> cap + l * cap" using room by (simp add: room_for_def l cap_def)
  moreover have "n = min cap (length p - off)" by (simp add: n cap_def)
  ultimately have "length p - (off + n) \<le> l * cap" by linarith
  then have "room_for ?c (length p - (off + n)) (Suc cnt)" by (simp add: room_for_def l' cap_def)
  then have "advances ?c pid p fs off cnt fs' [(pid, length p, off, take n (drop off p))] (off + n) (Suc cnt)"
    using n0 n left off by (simp add: advances_def)
  moreover have "(let (ready1, s1) = open_for_fragment R now True ready s in Ok (place_fragment p pid off cnt ready1 s1))
      = Ok (off + n, Suc cnt, ready @ map envelope (?rs @ rs), s')"
    using s'(1) s1(1) by simp
  ultimately show ?thesis unfolding step_ok_def using s'(2,3) em by blast
qed

lemma place_fragment_slack:
  assumes R: "rng_law R" and h: "holds s fs" and off: "off < length p" and len: "length p \<le> 65535"
    and room: "room_for (rz_config s) (length p - off) (Suc cnt)" and left: "cnt < max_fragments_per_packet (rz_config s)"
  shows "step_ok (rz_config s) pid p fs off cnt ready (Ok (place_fragment p pid off cnt ready (ensure_record R now s)))"
proof -
  let ?s = "ensure_record R now s" and ?c = "rz_config s"
  have o: "is_open ?s fs" "rz_config ?s = ?c" using ensure_record_open [OF R h] by auto
  obtain off' cnt' rs s' fs' new where s': "place_fragment p pid off cnt ready ?s = (off', cnt', ready @ map envelope rs, s')"
      "holds s' fs'" "rz_config s' = ?c" "emits ?c fs new rs fs'"
    and cases: "fs \<noteq> [] \<and> fs' = [] \<and> new = [] \<and> off' = off \<and> cnt' = cnt
      \<or> (\<exists>n. n = min (current_target ?s - length (current ?s) - 10) (length p - off) \<and> 0 < n
           \<and> new = [(pid, length p, off, take n (drop off p))] \<and> off' = off + n \<and> cnt' = Suc cnt)"
    using place_fragment_step [OF o(1) off len, of pid cnt ready] unfolding o(2) by blast
  have "room_for ?c (length p - (off + n)) (Suc cnt)" for n
    using room unfolding room_for_def by linarith
  then have "advances ?c pid p fs off cnt fs' new off' cnt'"
    unfolding advances_def using cases left off by (elim disjE exE conjE) simp_all
  then show ?thesis unfolding step_ok_def using s' by blast
qed

lemma fragment_step_ok:
  assumes R: "rng_law R" and h: "holds s fs" and off: "off < length p" and len: "length p \<le> 65535"
    and room: "room_for (rz_config s) (length p - off) cnt"
  shows "step_ok (rz_config s) pid p fs off cnt ready
     (fragment_step R p pid now (max_payload_bytes (rz_config s) - 14) off cnt ready s)"
proof -
  let ?cap = "max_payload_bytes (rz_config s) - 14" and ?left = "max_fragments_per_packet (rz_config s) - cnt"
  let ?min = "div_ceil (length p - off) ?cap"
  have cp: "0 < ?cap" using h by (simp add: holds_def runtime_wf_def rz_consts)
  have min: "?min \<le> ?left" using room cp by (simp add: div_ceil_le_iff room_for_def)
  have "0 < ?min" using off cp by (simp add: div_ceil_pos_iff)
  with min have left: "0 < ?left" by linarith
  have step: "fragment_step R p pid now ?cap off cnt ready s =
      (let (ready1, s1) = open_for_fragment R now (?min = ?left) ready s in Ok (place_fragment p pid off cnt ready1 s1))"
    using cp min left by (simp add: fragment_step_def Let_def max_absorb1)
  show ?thesis
  proof (cases "?min = ?left")
    case True
    then show ?thesis unfolding step using place_fragment_tight [OF R h off len room] left by simp
  next
    case False
    with min left have "?min \<le> max_fragments_per_packet (rz_config s) - Suc cnt" by linarith
    then have "room_for (rz_config s) (length p - off) (Suc cnt)" using cp by (simp add: div_ceil_le_iff room_for_def)
    with False show ?thesis unfolding step using place_fragment_slack [OF R h off len] left
      by (simp add: open_for_fragment_slack)
  qed
qed

section \<open>The loop returns\<close>

text \<open>What a whole push promises of the frames of its packet.\<close>

definition push_ok :: "RuntimeConfig \<Rightarrow> frame list \<Rightarrow> (frame list \<Rightarrow> bool) \<Rightarrow> bytes list
    \<Rightarrow> ((RecordizerError, bytes list) result \<times> Recordizer) option \<Rightarrow> bool" where
  "push_ok c fs is_packet ready res \<longleftrightarrow>
     (\<exists>rs s' fs' new. res = Some (Ok (ready @ map envelope rs), s') \<and> holds s' fs' \<and> rz_config s' = c
        \<and> emits c fs new rs fs' \<and> is_packet new)"

lemma push_ok_step:
  assumes em: "emits c fs new rs fs1"
    and ok: "push_ok c fs1 Q' (ready @ map envelope rs) res" and imp: "\<And>more. Q' more \<Longrightarrow> Q (new @ more)"
  shows "push_ok c fs Q ready res"
proof -
  obtain rs' s' fs' more where "res = Some (Ok ((ready @ map envelope rs) @ map envelope rs'), s')" "holds s' fs'"
      "rz_config s' = c" "emits c fs1 more rs' fs'" "Q' more"
    using ok unfolding push_ok_def by blast
  then have "res = Some (Ok (ready @ map envelope (rs @ rs')), s')" "emits c fs (new @ more) (rs @ rs') fs'" "Q (new @ more)"
    using emits_trans [OF em] imp by auto
  then show ?thesis unfolding push_ok_def using \<open>holds s' fs'\<close> \<open>rz_config s' = c\<close> by blast
qed

lemma push_loop_ok:
  assumes R: "rng_law R" and h: "holds s fs" and c: "rz_config s = c" and en: "fragment_enabled c"
    and off: "off \<le> length p" and len: "length p \<le> 65535" and room: "room_for c (length p - off) cnt"
  shows "push_ok c fs (\<lambda>new. pieces pid p off new \<and> length new \<le> max_fragments_per_packet c - cnt) ready
     (push_loop R p pid now (max_payload_bytes c - 14) off cnt ready s)"
  using h c off room
proof (induction "2 * (length p - off) + (if fs = [] then 0 else 1)" arbitrary: s fs off cnt ready rule: less_induct)
  case less
  let ?cap = "max_payload_bytes c - 14"
  note simps = push_loop.simps [of R p pid now ?cap off cnt ready s]
  show ?case
  proof (cases "off = length p")
    case True
    then have "push_loop R p pid now ?cap off cnt ready s = Some (Ok (ready @ map envelope []), s)"
      by (subst simps) simp
    then show ?thesis unfolding push_ok_def using less.prems True emits_refl [of c fs]
      by (metis le0 list.size(3) pieces.simps(1))
  next
    case False
    with less.prems have lt: "off < length p" by simp
    obtain off' cnt' rs s' fs' new where st: "fragment_step R p pid now ?cap off cnt ready s = Ok (off', cnt', ready @ map envelope rs, s')"
        "holds s' fs'" "rz_config s' = c" "emits c fs new rs fs'" "advances c pid p fs off cnt fs' new off' cnt'"
      using fragment_step_ok [OF R less.prems(1) lt len, of cnt pid ready now] less.prems(2,4) unfolding step_ok_def by blast
    have eq: "push_loop R p pid now ?cap off cnt ready s = push_loop R p pid now ?cap off' cnt' (ready @ map envelope rs) s'"
      using lt en less.prems(2) st(1) by (simp add: simps)
    consider (sent) "fs \<noteq> []" "fs' = []" "new = []" "off' = off" "cnt' = cnt"
      | (placed) "off < off'" "off' \<le> length p" "new = [(pid, length p, off, take (off' - off) (drop off p))]"
          "cnt' = Suc cnt" "cnt < max_fragments_per_packet c" "room_for c (length p - off') cnt'"
      using st(5) unfolding advances_def by blast
    then show ?thesis
    proof cases
      case sent
      have "push_ok c fs' (\<lambda>new. pieces pid p off' new \<and> length new \<le> max_fragments_per_packet c - cnt') (ready @ map envelope rs)
          (push_loop R p pid now ?cap off' cnt' (ready @ map envelope rs) s')"
        by (rule less.hyps) (use sent st(2,3) less.prems in auto)
      then show ?thesis unfolding eq by (rule push_ok_step [OF st(4)]) (use sent in simp)
    next
      case placed
      have "push_ok c fs' (\<lambda>new. pieces pid p off' new \<and> length new \<le> max_fragments_per_packet c - cnt') (ready @ map envelope rs)
          (push_loop R p pid now ?cap off' cnt' (ready @ map envelope rs) s')"
        by (rule less.hyps) (use placed st(2,3) less.prems in auto)
      moreover have "pieces pid p off (new @ more) \<and> length (new @ more) \<le> max_fragments_per_packet c - cnt"
        if "pieces pid p off' more \<and> length more \<le> max_fragments_per_packet c - cnt'" for more
        using that placed by auto
      ultimately show ?thesis unfolding eq by (rule push_ok_step [OF st(4)])
    qed
  qed
qed

lemma push_whole_ok:
  assumes R: "rng_law R" and h: "holds s fs" and p: "p \<noteq> []" and fits: "14 + length p \<le> max_payload_bytes (rz_config s)"
  shows "push_ok (rz_config s) fs (\<lambda>new. new = [(pid, length p, 0, p)]) ready (Some (push_whole R p pid now ready s))"
proof -
  let ?c = "rz_config s" and ?f = "(pid, length p, 0, p) :: frame"
  let ?s1 = "ensure_record R now s" and ?need = "\<lambda>s. length (current s) + FRAME_HEADER_LEN + length p"
  have o: "is_open ?s1 fs" "rz_config ?s1 = ?c" using ensure_record_open [OF R h] by auto
  have not_err: "\<not> max_payload_bytes ?c < length RZ_MAGIC + FRAME_HEADER_LEN + length p"
    using fits by (simp add: rz_consts)
  define chosen where "chosen =
     (if current_packets ?s1 = 0 \<and> current_target ?s1 < ?need ?s1 then (ready, ?s1\<lparr>current_target := max_payload_bytes ?c\<rparr>)
      else if current_target ?s1 < ?need ?s1 \<or> max_packets ?c \<le> current_packets ?s1
      then (let (ready', s') = flush_into ready ?s1 in (ready', (ensure_record R now s')\<lparr>current_target := max_payload_bytes ?c\<rparr>))
      else (ready, ?s1))"
  have eq: "push_whole R p pid now ready s = (Ok (fst chosen), append_frame pid (length p) 0 p (snd chosen))"
    using not_err unfolding push_whole_def chosen_def Let_def by (simp add: split_beta)
  obtain rs fs' where ch: "fst chosen = ready @ map envelope rs" "is_open (snd chosen) fs'" "rz_config (snd chosen) = ?c"
      "emits ?c fs [] rs fs'" "?need (snd chosen) \<le> current_target (snd chosen)"
  proof (cases "current_packets ?s1 = 0 \<and> current_target ?s1 < ?need ?s1")
    case True
    then have "fs = []" using o(1) by (simp add: is_open_def)
    then show ?thesis using True o open_retarget [OF o(1)] fits emits_refl [of ?c fs]
      by (intro that [of "[]" fs]) (simp_all add: chosen_def is_open_def rz_consts)
  next
    case F1: False
    show ?thesis
    proof (cases "current_target ?s1 < ?need ?s1 \<or> max_packets ?c \<le> current_packets ?s1")
      case True
      then have "fs \<noteq> []" using F1 o h by (auto simp: is_open_def holds_def runtime_wf_def)
      then have h1: "holds ?s1 fs" using o(1) by (rule open_holds [rotated])
      obtain s2 where s2: "flush_into ready ?s1 = (ready @ map envelope [fs], s2)" "holds s2 []" "rz_config s2 = ?c"
        using flush_into_holds [OF h1, of ready] \<open>fs \<noteq> []\<close> o(2) by (cases "flush_into ready ?s1") auto
      note o2 = ensure_record_open [OF R s2(2), of now]
      have "chosen = (ready @ map envelope [fs], (ensure_record R now s2)\<lparr>current_target := max_payload_bytes ?c\<rparr>)"
        using F1 True s2(1) unfolding chosen_def by simp
      moreover have "length (current (ensure_record R now s2)) = 4" using o2(1) by (simp add: is_open_def rz_consts)
      ultimately show ?thesis using open_retarget [OF o2(1)] o2(2) s2(3) fits emits_flush [OF h1] o(2) \<open>fs \<noteq> []\<close>
        by (intro that [of "[fs]" "[]"]) (simp_all add: rz_consts)
    next
      case False
      then show ?thesis using F1 o emits_refl [of ?c fs] by (intro that [of "[]" fs]) (auto simp: chosen_def)
    qed
  qed
  note h2 = append_frame_open [OF ch(2,5), of pid "length p" 0]
  have "emits ?c fs [?f] (rs @ []) (fs' @ [?f])" using emits_trans [OF ch(4) emits_add [of ?c fs' ?f]] by simp
  then show ?thesis unfolding push_ok_def eq using h2 ch(1,3) by (metis append_Nil2)
qed

text \<open>The packets a sender takes: everything else is refused with \<open>PacketSize\<close> before any frame is made.\<close>

definition acceptable :: "RuntimeConfig \<Rightarrow> bytes \<Rightarrow> bool" where
  "acceptable c p \<longleftrightarrow> p \<noteq> [] \<and> length p \<le> max_packet_bytes c \<and> length p \<le> 65535
     \<and> (if fragment_enabled c then div_ceil (length p) (max_payload_bytes c - 14) \<le> max_fragments_per_packet c
        else 14 + length p \<le> max_payload_bytes c)"

definition is_packet :: "RuntimeConfig \<Rightarrow> bytes \<Rightarrow> frame list \<Rightarrow> bool" where
  "is_packet c p fs \<longleftrightarrow> (\<exists>pid. pieces pid p 0 fs) \<and> fs \<noteq> [] \<and> length fs \<le> max_fragments_per_packet c"

lemma holds_next_id [simp]: "holds (s\<lparr>next_packet_id := i\<rparr>) fs = holds s fs"
  by (simp add: holds_def)

lemma push_ok_mono: "push_ok c fs Q ready res \<Longrightarrow> (\<And>new. Q new \<Longrightarrow> Q' new) \<Longrightarrow> push_ok c fs Q' ready res"
  unfolding push_ok_def by blast

lemma push_loop_accepts:
  assumes R: "rng_law R" and h: "holds s fs" and c: "rz_config s = c" and a: "acceptable c p"
  shows "push_ok c fs (is_packet c p) [] (push_loop R p pid now (max_payload_bytes c - 14) 0 0 [] s)"
proof (cases "fragment_enabled c")
  case True
  have wf: "0 < max_payload_bytes c - 14" using h c by (auto simp: holds_def runtime_wf_def rz_consts)
  have "room_for c (length p - 0) 0" using a True wf by (simp add: room_for_def acceptable_def div_ceil_le_iff)
  then have "push_ok c fs (\<lambda>new. pieces pid p 0 new \<and> length new \<le> max_fragments_per_packet c - 0) []
      (push_loop R p pid now (max_payload_bytes c - 14) 0 0 [] s)"
    using a by (intro push_loop_ok [OF R h c True]) (simp_all add: acceptable_def)
  then show ?thesis
    by (rule push_ok_mono) (use a in \<open>auto simp: is_packet_def acceptable_def\<close>)
next
  case False
  have one: "0 < max_fragments_per_packet c" using h c by (auto simp: holds_def runtime_wf_def)
  have "push_loop R p pid now (max_payload_bytes c - 14) 0 0 [] s = Some (push_whole R p pid now [] s)"
    using False a c by (subst push_loop.simps) (simp add: acceptable_def)
  moreover have "push_ok c fs (\<lambda>new. new = [(pid, length p, 0, p)]) [] (Some (push_whole R p pid now [] s))"
    using push_whole_ok [OF R h, of p] a False c by (simp add: acceptable_def)
  ultimately show ?thesis using one a
    by (auto intro!: push_ok_mono [of c fs "\<lambda>new. new = [(pid, length p, 0, p)]"] simp: is_packet_def acceptable_def)
qed

section \<open>Pushing a packet\<close>

lemma acceptable_push_guard:
  assumes "runtime_wf c"
  shows "(if p = [] \<or> max_packet_bytes c < length p \<or> u16_max < length p then False
     else \<not> (fragment_enabled c \<and> max_fragments_per_packet c < div_ceil (length p) (max (max_payload_bytes c - (length RZ_MAGIC + FRAME_HEADER_LEN)) 1)))
    \<longleftrightarrow> p \<noteq> [] \<and> length p \<le> max_packet_bytes c \<and> length p \<le> 65535
     \<and> (fragment_enabled c \<longrightarrow> div_ceil (length p) (max_payload_bytes c - 14) \<le> max_fragments_per_packet c)"
  using assms by (auto simp: runtime_wf_def rz_consts u16_max_def max_absorb1 not_le)

lemma push_accepts:
  assumes R: "rng_law R" and h: "holds s fs" and c: "rz_config s = c" and a: "acceptable c p"
  shows "push_ok c fs (is_packet c p) [] (push R s p now)"
proof -
  let ?s = "s\<lparr>next_packet_id := next_packet_id s + 1\<rparr>"
  let ?loop = "push_loop R p (next_packet_id s) now (max_payload_bytes c - 14) 0 0 [] ?s"
  have wf: "runtime_wf c" using h c by (auto simp: holds_def)
  have "push_ok c fs (is_packet c p) [] ?loop"
    by (rule push_loop_accepts [OF R _ _ a]) (use h c in simp_all)
  then obtain rs s' fs' new where l: "?loop = Some (Ok (map envelope rs), s')" "holds s' fs'" "rz_config s' = c"
      "emits c fs new rs fs'" "is_packet c p new"
    unfolding push_ok_def by auto
  have eq: "push R s p now =
      (if \<not> opportunistic c \<and> delay_max c = 0
       then (let (ready', s'') = flush_into (map envelope rs) s' in Some (Ok ready', s'')) else Some (Ok (map envelope rs), s'))"
    using acceptable_push_guard [OF wf, of p] a l(1) c
    by (simp add: push_def Let_def rz_consts acceptable_def split: if_splits)
  have fl: "emits c fs new (rs @ (if fs' = [] then [] else [fs'])) []"
    using emits_trans [OF l(4) emits_flush [OF l(2), unfolded l(3)]] by simp
  show ?thesis
  proof (cases "\<not> opportunistic c \<and> delay_max c = 0")
    case True
    have "push R s p now = Some (Ok ([] @ map envelope (rs @ (if fs' = [] then [] else [fs']))), snd (flush_into (map envelope rs) s'))"
      using True flush_into_holds(1) [OF l(2), of "map envelope rs"] unfolding eq by (simp add: split_beta)
    then show ?thesis unfolding push_ok_def
      using flush_into_holds(2,3) [OF l(2), of "map envelope rs"] l(3,5) fl by metis
  next
    case False
    then have "push R s p now = Some (Ok ([] @ map envelope rs), s')" unfolding eq by auto
    then show ?thesis unfolding push_ok_def using l by blast
  qed
qed

lemma push_refuses:
  assumes R: "rng_law R" and h: "holds s fs" and a: "\<not> acceptable (rz_config s) p"
  shows "\<exists>s'. push R s p now = Some (Err PacketSize, s') \<and> holds s' fs \<and> rz_config s' = rz_config s"
proof (cases "p \<noteq> [] \<and> length p \<le> max_packet_bytes (rz_config s) \<and> length p \<le> 65535
     \<and> (fragment_enabled (rz_config s) \<longrightarrow>
          div_ceil (length p) (max_payload_bytes (rz_config s) - 14) \<le> max_fragments_per_packet (rz_config s))")
  case True
  with a have off: "\<not> fragment_enabled (rz_config s)" "max_payload_bytes (rz_config s) < 14 + length p"
    by (auto simp: acceptable_def split: if_splits)
  let ?s = "s\<lparr>next_packet_id := next_packet_id s + 1\<rparr>"
  have "push_loop R p (next_packet_id s) now (max_payload_bytes (rz_config s) - 14) 0 0 [] ?s = Some (Err PacketSize, ?s)"
    using True off by (subst push_loop.simps) (simp add: push_whole_def Let_def rz_consts)
  then have "push R s p now = Some (Err PacketSize, ?s)"
    using True off(1) by (simp add: push_def Let_def rz_consts u16_max_def)
  then show ?thesis using h by simp
next
  case False
  have "runtime_wf (rz_config s)" using h by (simp add: holds_def)
  from acceptable_push_guard [OF this, of p] False have "push R s p now = Some (Err PacketSize, s)"
    by (auto simp: push_def Let_def)
  then show ?thesis using h by simp
qed

section \<open>Sessions\<close>

text \<open>What a carrier does with its recordizer, and the run of a list of operations: the packets accepted,
  the records emitted, and the final state.\<close>

datatype SenderOp = OpPush bytes instant | OpFlush | OpFlushDue instant | OpFinish | OpRaise RuntimeConfig

definition sender_step :: "Rng \<Rightarrow> Recordizer \<Rightarrow> SenderOp \<Rightarrow> (bytes list \<times> bytes list \<times> Recordizer) option" where
  "sender_step R s opn = (case opn of
     OpPush p now \<Rightarrow> (case push R s p now of None \<Rightarrow> None
        | Some (Inl e, s') \<Rightarrow> Some ([], [], s') | Some (Inr rs, s') \<Rightarrow> Some ([p], rs, s'))
   | OpFlush \<Rightarrow> (let (r, s') = flush s in Some ([], case r of None \<Rightarrow> [] | Some x \<Rightarrow> [x], s'))
   | OpFlushDue now \<Rightarrow> (let (r, s') = flush_due s now in Some ([], case r of None \<Rightarrow> [] | Some x \<Rightarrow> [x], s'))
   | OpFinish \<Rightarrow> (let (r, s') = finish_ready_batch s in Some ([], case r of None \<Rightarrow> [] | Some x \<Rightarrow> [x], s'))
   | OpRaise c \<Rightarrow> Some ([], [], snd (raise_runtime s c)))"

fun run_sender :: "Rng \<Rightarrow> Recordizer \<Rightarrow> SenderOp list \<Rightarrow> (bytes list \<times> bytes list \<times> Recordizer) option" where
  "run_sender R s [] = Some ([], [], s)"
| "run_sender R s (x # xs) =
     (case sender_step R s x of None \<Rightarrow> None
      | Some (ps, rs, s1) \<Rightarrow> map_option (\<lambda>(ps', rs', s2). (ps @ ps', rs @ rs', s2)) (run_sender R s1 xs))"

text \<open>The packets of a session that its configuration at that moment accepts.\<close>

fun accepted :: "RuntimeConfig \<Rightarrow> SenderOp list \<Rightarrow> bytes list" where
  "accepted c [] = []"
| "accepted c (OpPush p now # xs) = (if acceptable c p then p # accepted c xs else accepted c xs)"
| "accepted c (OpRaise c' # xs) = accepted (if max_payload_bytes c' < max_payload_bytes c then c else c') xs"
| "accepted c (_ # xs) = accepted c xs"

definition configs_ok :: "nat \<Rightarrow> nat \<Rightarrow> SenderOp list \<Rightarrow> bool" where
  "configs_ok F M xs \<longleftrightarrow> (\<forall>c. OpRaise c \<in> set xs \<longrightarrow> runtime_wf c \<and> max_fragments_per_packet c \<le> F \<and> max_packet_bytes c \<le> M)"

text \<open>A stream of frames that carries the packets \<open>ps\<close>, each in at most \<open>F\<close> pieces.\<close>

definition carries :: "nat \<Rightarrow> bytes list \<Rightarrow> frame list \<Rightarrow> bool" where
  "carries F ps fs \<longleftrightarrow> (\<exists>gs. fs = concat gs
     \<and> list_all2 (\<lambda>p g. (\<exists>pid. pieces pid p 0 g) \<and> g \<noteq> [] \<and> length g \<le> F) ps gs)"

lemma carries_Nil: "carries F [] []"
  by (auto simp: carries_def)

lemma carries_append: "carries F ps fs \<Longrightarrow> carries F qs gs \<Longrightarrow> carries F (ps @ qs) (fs @ gs)"
proof -
  assume "carries F ps fs" "carries F qs gs"
  then obtain as bs where "fs = concat as" "gs = concat bs"
      "list_all2 (\<lambda>p g. (\<exists>pid. pieces pid p 0 g) \<and> g \<noteq> [] \<and> length g \<le> F) ps as"
      "list_all2 (\<lambda>p g. (\<exists>pid. pieces pid p 0 g) \<and> g \<noteq> [] \<and> length g \<le> F) qs bs"
    unfolding carries_def by blast
  then show ?thesis unfolding carries_def by (intro exI [of _ "as @ bs"]) (simp add: list_all2_appendI)
qed

lemma carries_packet: "is_packet c p g \<Longrightarrow> max_fragments_per_packet c \<le> F \<Longrightarrow> carries F [p] g"
  unfolding carries_def is_packet_def by (intro exI [of _ "[g]"]) auto

lemma emits_mono:
  "emits c fs new rs fs' \<Longrightarrow> max_payload_bytes c \<le> max_payload_bytes c' \<Longrightarrow> emits c' fs new rs fs'"
  unfolding emits_def by (auto intro: order_trans)

lemma holds_raise:
  assumes "holds s fs" and "runtime_wf c"
  shows "holds (snd (raise_runtime s c)) fs"
    "rz_config (snd (raise_runtime s c)) = (if max_payload_bytes c < max_payload_bytes (rz_config s) then rz_config s else c)"
  using assms by (auto simp: raise_runtime_def holds_def)

text \<open>What one operation, or a run of them, promises.\<close>

definition run_ok :: "nat \<Rightarrow> nat \<Rightarrow> Recordizer \<Rightarrow> frame list \<Rightarrow> bytes list \<Rightarrow> (bytes list \<times> bytes list \<times> Recordizer) option \<Rightarrow> bool" where
  "run_ok F M s fs ps res \<longleftrightarrow> (\<exists>rs s' fs' new. res = Some (ps, map envelope rs, s') \<and> holds s' fs'
     \<and> max_fragments_per_packet (rz_config s') \<le> F \<and> max_packet_bytes (rz_config s') \<le> M
     \<and> max_payload_bytes (rz_config s) \<le> max_payload_bytes (rz_config s')
     \<and> emits (rz_config s') fs new rs fs' \<and> carries F ps new)"

lemma run_okI:
  assumes "holds s' fs'" "max_fragments_per_packet (rz_config s') \<le> F" "max_packet_bytes (rz_config s') \<le> M"
    "max_payload_bytes (rz_config s) \<le> max_payload_bytes (rz_config s')"
    "emits (rz_config s') fs new rs fs'" "carries F ps new" "recs = map envelope rs"
  shows "run_ok F M s fs ps (Some (ps, recs, s'))"
  unfolding run_ok_def using assms by blast

lemma run_ok_flush:
  assumes h: "holds s fs" and lim: "max_fragments_per_packet (rz_config s) \<le> F" "max_packet_bytes (rz_config s) \<le> M"
  shows "run_ok F M s fs [] (let (r, s') = flush s in Some ([], case r of None \<Rightarrow> [] | Some x \<Rightarrow> [x], s'))"
    "run_ok F M s fs [] (Some ([], [], s))"
proof -
  let ?rs = "if fs = [] then [] else [fs]"
  have eq: "(let (r, s') = flush s in Some ([], case r of None \<Rightarrow> [] | Some x \<Rightarrow> [x], s')) = Some ([] :: bytes list, map envelope ?rs, snd (flush s))"
    using flush_holds(1) [OF h] by (simp add: split_beta)
  show "run_ok F M s fs [] (let (r, s') = flush s in Some ([], case r of None \<Rightarrow> [] | Some x \<Rightarrow> [x], s'))"
    unfolding eq by (rule run_okI [OF flush_holds(2) [OF h] _ _ _ _ carries_Nil refl])
      (use flush_holds(3) [OF h] emits_flush [OF h] lim in simp_all)
  show "run_ok F M s fs [] (Some ([], [], s))"
    by (rule run_okI [OF h lim order_refl emits_refl carries_Nil]) simp
qed

lemma run_ok_push:
  assumes R: "rng_law R" and h: "holds s fs"
    and lim: "max_fragments_per_packet (rz_config s) \<le> F" "max_packet_bytes (rz_config s) \<le> M"
  shows "run_ok F M s fs (accepted (rz_config s) [OpPush p now]) (sender_step R s (OpPush p now))"
proof (cases "acceptable (rz_config s) p")
  case True
  then obtain rs s' fs' new where a: "push R s p now = Some (Ok ([] @ map envelope rs), s')" "holds s' fs'"
      "rz_config s' = rz_config s" "emits (rz_config s) fs new rs fs'" "is_packet (rz_config s) p new"
    using push_accepts [OF R h refl True, of now] unfolding push_ok_def by blast
  then have "sender_step R s (OpPush p now) = Some ([p], map envelope rs, s')" by (simp add: sender_step_def)
  moreover have "carries F [p] new" using a(5) lim(1) by (rule carries_packet)
  ultimately show ?thesis using run_okI [OF a(2), of F M s fs new rs "[p]"] a(3,4) True lim by simp
next
  case False
  then obtain s' where "push R s p now = Some (Err PacketSize, s')" "holds s' fs" "rz_config s' = rz_config s"
    using push_refuses [OF R h] by blast
  moreover from this have "sender_step R s (OpPush p now) = Some ([], map envelope [], s')" by (simp add: sender_step_def)
  ultimately show ?thesis using run_okI [OF _ _ _ _ emits_refl carries_Nil, of s' fs F M s] False lim by simp
qed

lemma run_ok_step:
  assumes R: "rng_law R" and h: "holds s fs" and cfg: "configs_ok F M [x]"
    and lim: "max_fragments_per_packet (rz_config s) \<le> F" "max_packet_bytes (rz_config s) \<le> M"
  shows "run_ok F M s fs (accepted (rz_config s) [x]) (sender_step R s x)"
proof (cases x)
  case (OpPush p now)
  then show ?thesis using run_ok_push [OF R h lim] by simp
next
  case (OpRaise c)
  have wf: "runtime_wf c" and lc: "max_fragments_per_packet c \<le> F" "max_packet_bytes c \<le> M"
    using cfg OpRaise by (auto simp: configs_ok_def)
  have "run_ok F M (snd (raise_runtime s c)) fs [] (Some ([], [], snd (raise_runtime s c)))"
    using holds_raise [OF h wf] lim lc by (intro run_ok_flush) auto
  then have "run_ok F M s fs [] (Some ([], [], snd (raise_runtime s c)))"
    unfolding run_ok_def using holds_raise(2) [OF h wf] by (auto intro: order_trans split: if_splits)
  then show ?thesis using OpRaise by (simp add: sender_step_def)
qed (use run_ok_flush [OF h lim] in
      \<open>auto simp: sender_step_def flush_due_def finish_ready_batch_def Let_def split: option.splits if_splits\<close>)

lemma accepted_Cons:
  "accepted c (x # xs) = accepted c [x] @ accepted (case x of OpRaise c' \<Rightarrow> if max_payload_bytes c' < max_payload_bytes c then c else c' | _ \<Rightarrow> c) xs"
  by (cases x) simp_all

lemma sender_step_config:
  assumes R: "rng_law R" and h: "holds s fs" and st: "sender_step R s x = Some (ps, rs, s')"
  shows "rz_config s' = (case x of OpRaise c' \<Rightarrow> if max_payload_bytes c' < max_payload_bytes (rz_config s) then rz_config s else c' | _ \<Rightarrow> rz_config s)"
proof (cases x)
  case (OpPush p now)
  show ?thesis
  proof (cases "acceptable (rz_config s) p")
    case True
    then obtain rs s1 where "push R s p now = Some (Ok rs, s1)" "rz_config s1 = rz_config s"
      using push_accepts [OF R h refl True, of now] unfolding push_ok_def by blast
    then show ?thesis using st OpPush by (simp add: sender_step_def)
  next
    case False
    then obtain s1 where "push R s p now = Some (Err PacketSize, s1)" "rz_config s1 = rz_config s"
      using push_refuses [OF R h] by blast
    then show ?thesis using st OpPush by (simp add: sender_step_def)
  qed
qed (use st in \<open>auto simp: sender_step_def raise_runtime_def flush_def flush_due_def finish_ready_batch_def Let_def
      split: option.splits if_splits\<close>)

lemma run_sender_ok:
  assumes R: "rng_law R" and h: "holds s fs" and cfg: "configs_ok F M xs"
    and lim: "max_fragments_per_packet (rz_config s) \<le> F" "max_packet_bytes (rz_config s) \<le> M"
  shows "run_ok F M s fs (accepted (rz_config s) xs) (run_sender R s xs)"
  using h cfg lim
proof (induction xs arbitrary: s fs)
  case Nil
  then show ?case by (simp add: run_ok_flush(2))
next
  case (Cons x xs)
  have c1: "configs_ok F M [x]" "configs_ok F M xs" using Cons.prems(2) by (auto simp: configs_ok_def)
  obtain rs s1 fs1 new where st: "sender_step R s x = Some (accepted (rz_config s) [x], map envelope rs, s1)" "holds s1 fs1"
      "max_fragments_per_packet (rz_config s1) \<le> F" "max_packet_bytes (rz_config s1) \<le> M"
      "max_payload_bytes (rz_config s) \<le> max_payload_bytes (rz_config s1)" "emits (rz_config s1) fs new rs fs1"
      "carries F (accepted (rz_config s) [x]) new"
    using run_ok_step [OF R Cons.prems(1) c1(1) Cons.prems(3,4)] unfolding run_ok_def by blast
  obtain rs' s2 fs2 new' where r: "run_sender R s1 xs = Some (accepted (rz_config s1) xs, map envelope rs', s2)" "holds s2 fs2"
      "max_fragments_per_packet (rz_config s2) \<le> F" "max_packet_bytes (rz_config s2) \<le> M"
      "max_payload_bytes (rz_config s1) \<le> max_payload_bytes (rz_config s2)" "emits (rz_config s2) fs1 new' rs' fs2"
      "carries F (accepted (rz_config s1) xs) new'"
    using Cons.IH [OF st(2) c1(2) st(3,4)] unfolding run_ok_def by blast
  have acc: "accepted (rz_config s) (x # xs) = accepted (rz_config s) [x] @ accepted (rz_config s1) xs"
    unfolding sender_step_config [OF R Cons.prems(1) st(1)] by (rule accepted_Cons)
  have run: "run_sender R s (x # xs) = Some (accepted (rz_config s) (x # xs), map envelope (rs @ rs'), s2)"
    using st(1) r(1) by (simp add: acc del: accepted.simps)
  have pay: "max_payload_bytes (rz_config s) \<le> max_payload_bytes (rz_config s2)" using st(5) r(5) by linarith
  have em: "emits (rz_config s2) fs (new @ new') (rs @ rs') fs2"
    using emits_trans [OF emits_mono [OF st(6) r(5)] r(6)] .
  have ca: "carries F (accepted (rz_config s) (x # xs)) (new @ new')"
    unfolding acc using st(7) r(7) by (rule carries_append)
  show ?case unfolding run by (rule run_okI [OF r(2-4) pay em ca refl])
qed

lemma holds_new: "runtime_wf c \<Longrightarrow> holds (Recordizer_new i c) []"
  by (simp add: holds_def Recordizer_new_def)

section \<open>Properties of the sender\<close>

text \<open>
  C24. A push always returns: with a configuration that passed validation the sender's loop ends, whatever
  the random generator returns within its contract and whatever is pending. It succeeds exactly on the
  packets the configuration can carry; in particular a fragmented packet never fails half way.
\<close>

theorem push_returns:
  assumes R: "rng_law R" and run: "run_sender R (Recordizer_new i c) xs = Some (ps, rs, s)"
    and wf: "runtime_wf c" and cfg: "configs_ok F M xs"
  shows "\<exists>res s'. push R s p now = Some (res, s') \<and> is_ok res = acceptable (rz_config s) p
    \<and> (\<not> is_ok res \<longrightarrow> res = Err PacketSize \<and> current s' = current s)"
proof -
  let ?s = "Recordizer_new i c"
  have cfg': "configs_ok (max F (max_fragments_per_packet c)) (max M (max_packet_bytes c)) xs"
    using cfg unfolding configs_ok_def by (meson le_max_iff_disj)
  have "run_ok (max F (max_fragments_per_packet c)) (max M (max_packet_bytes c)) ?s [] (accepted c xs) (run_sender R ?s xs)"
    using run_sender_ok [OF R holds_new [OF wf, of i] cfg'] by (simp add: Recordizer_new_def)
  then obtain fs where h: "holds s fs" unfolding run_ok_def run by auto
  show ?thesis
  proof (cases "acceptable (rz_config s) p")
    case True
    then show ?thesis using push_accepts [OF R h refl True, of now] unfolding push_ok_def by force
  next
    case False
    then obtain s' where s': "push R s p now = Some (Err PacketSize, s')" "holds s' fs"
      using push_refuses [OF R h] by blast
    have "current s' = current s" using h s'(2) by (simp add: holds_def split: if_splits)
    then show ?thesis using s'(1) False by auto
  qed
qed

definition demo_rng :: Rng where
  "demo_rng = \<lparr>random_bool = (\<lambda>i x. False), random_range = (\<lambda>i lo hi. lo), scale_round = (\<lambda>n x. n div 4)\<rparr>"

lemma demo_rng_law: "rng_law demo_rng"
  by (simp add: rng_law_def demo_rng_def)

lemma demo_acceptable: "acceptable demo_runtime [1, 2, 3]"
  by (simp add: acceptable_def demo_runtime_fields div_ceil_def)

theorem push_returns_witness:
  "\<exists>res s'. push demo_rng (Recordizer_new 7 demo_runtime) [1, 2, 3] 0 = Some (res, s') \<and> is_ok res"
proof -
  have "run_sender demo_rng (Recordizer_new 7 demo_runtime) [] = Some ([], [], Recordizer_new 7 demo_runtime)" by simp
  moreover have "configs_ok 0 0 []" by (simp add: configs_ok_def)
  moreover have "acceptable (rz_config (Recordizer_new 7 demo_runtime)) [1, 2, 3]"
    using demo_acceptable by (simp add: Recordizer_new_def)
  ultimately show ?thesis
    using push_returns [OF demo_rng_law _ demo_runtime_wf, of 7 "[]" "[]" "[]" "Recordizer_new 7 demo_runtime" 0 0 "[1, 2, 3]" 0]
    by blast
qed

end
