(* ===== verification/Recordizer_Receiver.thy ===== *)
theory Recordizer_Receiver
  imports Recordizer_Sender
begin

text \<open>
  The receiving side of \<open>Recordizer\<close>: its resource invariant against any authenticated peer, and the round
  trip with the sender over an ordered carrier.
\<close>

section \<open>The table of pending packets\<close>

interpretation ra: accounted_table ra_pending ra_buffered_bytes ra_remove pp_total_len
  by unfold_locales
    (auto simp: ra_remove_def delete_absent map_of_eq_None_iff dest!: map_of_SomeD intro: rev_image_eqI
       split: option.splits)

lemma ra_config_remove [simp]: "ra_config (ra_remove k s) = ra_config s"
  by (simp add: ra_remove_def split: option.splits)

lemma ra_config_expire [simp]: "ra_config (ra_expire now s) = ra_config s"
proof -
  have "ra_config (fold ra_remove ks s) = ra_config s" for ks by (induction ks arbitrary: s) simp_all
  then show ?thesis by (simp add: ra_expire_def)
qed

lemma ra_config_accept_frame [simp]: "ra_config (snd (accept_frame now pid tot off b s)) = ra_config s"
  by (simp add: accept_frame_def store_fragment_def Let_def split: option.split)

section \<open>Reading a frame back\<close>

lemma frame_fields:
  assumes "tot \<le> 65535" "off \<le> 65535" "length b \<le> 65535"
  shows "hdr_id (frame_bytes pid tot off b @ rest) = pid" "hdr_total (frame_bytes pid tot off b @ rest) = tot"
    "hdr_offset (frame_bytes pid tot off b @ rest) = off" "hdr_len (frame_bytes pid tot off b @ rest) = length b"
    "slice FRAME_HEADER_LEN (FRAME_HEADER_LEN + length b) (frame_bytes pid tot off b @ rest) = b"
    "drop (FRAME_HEADER_LEN + length b) (frame_bytes pid tot off b @ rest) = rest"
  using assms
  by (simp_all add: hdr_id_def hdr_total_def hdr_offset_def hdr_len_def frame_bytes_def slice_def wire_simps rz_consts)

definition frame_ok :: "RuntimeConfig \<Rightarrow> frame \<Rightarrow> bool" where
  "frame_ok c f = (case f of (pid, tot, off, b) \<Rightarrow> tot \<le> max_packet_bytes c \<and> tot \<le> 65535 \<and> b \<noteq> [] \<and> off + length b \<le> tot)"

lemma decode_loop_frame:
  assumes "frame_ok (ra_config s) (pid, tot, off, b)"
  shows "decode_loop now (enc (pid, tot, off, b) @ rest) completed s =
    (case accept_frame now pid tot off b s of
       (Inl e, s') \<Rightarrow> (Err e, s')
     | (Inr out, s') \<Rightarrow> decode_loop now rest (completed @ (case out of None \<Rightarrow> [] | Some packet \<Rightarrow> [packet])) s')"
proof -
  let ?x = "frame_bytes pid tot off b @ rest"
  have b: "tot \<le> 65535" "off \<le> 65535" "length b \<le> 65535" "b \<noteq> []" "off + length b \<le> tot" "tot \<le> max_packet_bytes (ra_config s)"
    using assms by (auto simp: frame_ok_def)
  note f = frame_fields [OF b(1-3), of pid rest]
  have "?x \<noteq> []" "\<not> length ?x < FRAME_HEADER_LEN" "\<not> length ?x < FRAME_HEADER_LEN + length b" "tot \<noteq> 0"
    using b(5) length_greater_0_conv [of b] b(4) by (auto simp: rz_consts frame_bytes_def simp del: length_greater_0_conv)
  then show ?thesis
    using b(4-6) unfolding enc.simps by (subst decode_loop.simps) (simp only: f if_False, simp)
qed

section \<open>One packet in pieces\<close>

definition idle :: "RzReassembler \<Rightarrow> bool" where
  "idle s \<longleftrightarrow> ra_pending s = [] \<and> ra_buffered_bytes s = 0"

text \<open>The first \<open>off\<close> bytes of packet \<open>p\<close> have arrived, in \<open>k\<close> pieces, the first of them at time \<open>t\<close>;
  nothing else is pending.\<close>

definition partway :: "RzReassembler \<Rightarrow> u32 \<Rightarrow> bytes \<Rightarrow> nat \<Rightarrow> nat \<Rightarrow> instant \<Rightarrow> bool" where
  "partway s pid p off k t \<longleftrightarrow> 0 < off \<and> off < length p \<and> ra_buffered_bytes s = length p
     \<and> (\<exists>e. ra_pending s = [(pid, e)] \<and> pp_created_at e = t \<and> pp_total_len e = length p
          \<and> pp_bytes e = take off p @ replicate (length p - off) 0 \<and> pp_received_bytes e = off
          \<and> length (pp_chunks e) = k \<and> (\<forall>c \<in> set (pp_chunks e). rz_offset c + rz_len c \<le> off \<and> 0 < rz_len c))"

definition rx_limits :: "nat \<Rightarrow> nat \<Rightarrow> RuntimeConfig \<Rightarrow> bool" where
  "rx_limits F M c \<longleftrightarrow> 0 < max_inflight_packets c \<and> M \<le> max_reassembly_bytes c \<and> M \<le> max_packet_bytes c
     \<and> F \<le> max_fragments_per_packet c \<and> max_reassembly_bytes c \<le> usize_max"

lemma write_piece:
  assumes "b = take (length b) (drop off p)" "off + length b \<le> length p"
    and e: "pp_total_len e = length p" "pp_bytes e = take off p @ replicate (length p - off) 0" "pp_received_bytes e = off"
  shows "pp_bytes (write_chunk off b e) = take (off + length b) p @ replicate (length p - (off + length b)) 0"
    "pp_received_bytes (write_chunk off b e) = off + length b"
proof -
  have "take off p @ b = take (off + length b) p" using assms(1) by (metis take_add)
  then show "pp_bytes (write_chunk off b e) = take (off + length b) p @ replicate (length p - (off + length b)) 0"
    using assms(2) e by (simp add: write_chunk_def)
  show "pp_received_bytes (write_chunk off b e) = off + length b" using e by (simp add: write_chunk_def)
qed

text \<open>Storing the next piece, when the table holds just this packet.\<close>

lemma store_next_piece:
  assumes b: "b \<noteq> []" "b = take (length b) (drop off p)" "off + length b \<le> length p"
    and tab: "ra_pending s = [(pid, e)]" "ra_buffered_bytes s = length p"
    and e: "pp_total_len e = length p" "pp_bytes e = take off p @ replicate (length p - off) 0" "pp_received_bytes e = off"
      "\<forall>c \<in> set (pp_chunks e). rz_offset c + rz_len c \<le> off \<and> 0 < rz_len c"
    and k: "length (pp_chunks e) < max_fragments_per_packet (ra_config s)"
  shows "if off + length b = length p
     then \<exists>s'. store_fragment pid off b s e = (Ok (Some p), s') \<and> idle s'
     else \<exists>s'. store_fragment pid off b s e = (Ok None, s')
       \<and> partway s' pid p (off + length b) (Suc (length (pp_chunks e))) (pp_created_at e)"
proof -
  note w = write_piece [OF b(2,3) e(1-3)]
  have w': "pp_total_len (write_chunk off b e) = length p" "pp_created_at (write_chunk off b e) = pp_created_at e"
    "pp_chunks (write_chunk off b e) = pp_chunks e @ [\<lparr>rz_offset = off, rz_len = length b\<rparr>]"
    using e(1) by (simp_all add: write_chunk_def)
  show ?thesis
  proof (cases "off + length b = length p")
    case True
    then show ?thesis using k tab w w' by (simp add: store_fragment_def Let_def idle_def)
  next
    case False
    have "\<forall>c \<in> set (pp_chunks (write_chunk off b e)). rz_offset c + rz_len c \<le> off + length b \<and> 0 < rz_len c"
      using e(4) b(1) by (auto simp: w')
    then have "partway (s\<lparr>ra_pending := [(pid, write_chunk off b e)]\<rparr>) pid p (off + length b) (Suc (length (pp_chunks e))) (pp_created_at e)"
      using b False tab w w' by (simp add: partway_def)
    then show ?thesis using False k tab w w' by (simp add: store_fragment_def Let_def)
  qed
qed

lemma accept_first_piece:
  assumes b: "b \<noteq> []" "b = take (length b) p" "length b \<le> length p"
    and s: "idle s" and lim: "rx_limits F M (ra_config s)" "length p \<le> M" "0 < F"
  shows "if length b = length p
     then \<exists>s'. accept_frame now pid (length p) 0 b s = (Ok (Some p), s') \<and> idle s'
     else \<exists>s'. accept_frame now pid (length p) 0 b s = (Ok None, s') \<and> partway s' pid p (length b) 1 now"
proof (cases "length b = length p")
  case True
  then have "b = p" using b(2) by (metis take_all_iff order_refl)
  then show ?thesis using s by (simp add: accept_frame_def idle_def)
next
  case False
  let ?e = "new_packet now (length p)"
  let ?s = "s\<lparr>ra_pending := [(pid, ?e)], ra_buffered_bytes := length p\<rparr>"
  have "\<not> max_reassembly_bytes (ra_config s) < saturating_add 0 (length p)" "\<not> max_inflight_packets (ra_config s) \<le> 0"
    using lim by (auto simp: rx_limits_def saturating_add_def)
  then have eq: "accept_frame now pid (length p) 0 b s = store_fragment pid 0 b ?s ?e"
    using False s by (simp add: accept_frame_def idle_def Let_def)
  have "if 0 + length b = length p
     then \<exists>s'. store_fragment pid 0 b ?s ?e = (Ok (Some p), s') \<and> idle s'
     else \<exists>s'. store_fragment pid 0 b ?s ?e = (Ok None, s')
       \<and> partway s' pid p (0 + length b) (Suc (length (pp_chunks ?e))) (pp_created_at ?e)"
    by (rule store_next_piece) (use b lim in \<open>auto simp: new_packet_def rx_limits_def\<close>)
  then show ?thesis unfolding eq using False by (simp add: new_packet_def)
qed

lemma accept_next_piece:
  assumes b: "b \<noteq> []" "b = take (length b) (drop off p)" "off + length b \<le> length p"
    and s: "partway s pid p off k t" and lim: "rx_limits F M (ra_config s)" "k < F"
  shows "if off + length b = length p
     then \<exists>s'. accept_frame now pid (length p) off b s = (Ok (Some p), s') \<and> idle s'
     else \<exists>s'. accept_frame now pid (length p) off b s = (Ok None, s') \<and> partway s' pid p (off + length b) (Suc k) t"
proof -
  obtain e where tab: "ra_pending s = [(pid, e)]" "ra_buffered_bytes s = length p" and off: "0 < off"
    and e: "pp_created_at e = t" "pp_total_len e = length p" "pp_bytes e = take off p @ replicate (length p - off) 0"
      "pp_received_bytes e = off" "length (pp_chunks e) = k"
      "\<forall>c \<in> set (pp_chunks e). rz_offset c + rz_len c \<le> off \<and> 0 < rz_len c"
    using s unfolding partway_def by auto
  have "\<not> list_ex (\<lambda>c. rz_offset c = off \<and> rz_len c = length b) (pp_chunks e)"
    "\<not> list_ex (chunk_overlaps off (length b)) (pp_chunks e)"
    using e(6) by (auto simp: list_ex_iff chunk_overlaps_def)
  then have eq: "accept_frame now pid (length p) off b s = store_fragment pid off b s e"
    using off tab e(2) by (simp add: accept_frame_def)
  have "length (pp_chunks e) < max_fragments_per_packet (ra_config s)" using e(5) lim by (simp add: rx_limits_def)
  from store_next_piece [OF b tab e(2-4,6) this] show ?thesis unfolding eq e(1,5) .
qed

section \<open>A stream of frames\<close>

text \<open>Where the receiver is in the stream: between packets, or \<open>off\<close> bytes and \<open>k\<close> pieces into a packet
  begun at time \<open>t\<close>.\<close>

type_synonym progress = "(u32 \<times> bytes \<times> nat \<times> nat \<times> instant) option"

fun rx :: "RzReassembler \<Rightarrow> progress \<Rightarrow> bool" where
  "rx s None \<longleftrightarrow> idle s"
| "rx s (Some (pid, p, off, k, t)) \<longleftrightarrow> partway s pid p off k t"

fun to_come :: "nat \<Rightarrow> progress \<Rightarrow> bytes list \<Rightarrow> frame list \<Rightarrow> bool" where
  "to_come F None ps fs \<longleftrightarrow> carries F ps fs"
| "to_come F (Some (pid, p, off, k, t)) ps fs \<longleftrightarrow>
     (\<exists>qs g fs'. ps = p # qs \<and> fs = g @ fs' \<and> pieces pid p off g \<and> k + length g \<le> F \<and> carries F qs fs')"

definition started :: "progress \<Rightarrow> (nat \<times> instant) option" where
  "started cur = map_option (\<lambda>(pid, p, off, k, t). (k, t)) cur"

text \<open>A packet in progress after \<open>n\<close> more frames at time \<open>now\<close> was begun now, or has \<open>n\<close> more pieces.\<close>

definition grown :: "nat \<Rightarrow> instant \<Rightarrow> progress \<Rightarrow> progress \<Rightarrow> bool" where
  "grown n now cur cur' \<longleftrightarrow> (\<forall>k' t'. started cur' = Some (k', t') \<longrightarrow>
     t' = now \<and> 1 \<le> k' \<or> (\<exists>k. started cur = Some (k, t') \<and> k + n \<le> k'))"

lemma carries_Cons_frames:
  assumes "carries F ps (f # fs)"
  obtains p qs pid b gs hs where "ps = p # qs" "f = (pid, length p, 0, b)" "pieces pid p 0 (f # gs)"
    "fs = gs @ hs" "Suc (length gs) \<le> F" "carries F qs hs"
proof -
  obtain G where G: "f # fs = concat G" "list_all2 (\<lambda>p g. (\<exists>pid. pieces pid p 0 g) \<and> g \<noteq> [] \<and> length g \<le> F) ps G"
    using assms unfolding carries_def by blast
  then obtain g G' where "G = g # G'" by (cases G) auto
  then obtain p qs pid where p: "ps = p # qs" "pieces pid p 0 g" "g \<noteq> []" "length g \<le> F"
      "list_all2 (\<lambda>p g. (\<exists>pid. pieces pid p 0 g) \<and> g \<noteq> [] \<and> length g \<le> F) qs G'"
    using G(2) by (auto simp: list_all2_Cons2)
  obtain gs where gs: "g = f # gs" "fs = gs @ concat G'" using G(1) \<open>G = g # G'\<close> p(3) by (cases g) auto
  obtain i tot o' b where f: "f = (i, tot, o', b)" by (cases f)
  show thesis
    by (rule that [of p qs pid b gs "concat G'"]) (use p gs f in \<open>auto simp: carries_def\<close>)
qed

lemma to_come_Cons:
  assumes "to_come F cur ps (f # fs)" and "rx s cur"
  obtains pid p qs off k b gs hs where "ps = p # qs" "f = (pid, length p, off, b)" "b \<noteq> []" "b = take (length b) (drop off p)"
    "off + length b \<le> length p" "pieces pid p (off + length b) gs" "fs = gs @ hs" "Suc (k + length gs) \<le> F" "carries F qs hs"
    "cur = None \<and> off = 0 \<and> k = 0 \<or> (\<exists>t. cur = Some (pid, p, off, k, t))"
proof (cases cur)
  case None
  then have "carries F ps (f # fs)" using assms(1) by simp
  then obtain p qs pid b gs hs where "ps = p # qs" "f = (pid, length p, 0, b)" "pieces pid p 0 (f # gs)"
      "fs = gs @ hs" "Suc (length gs) \<le> F" "carries F qs hs"
    by (rule carries_Cons_frames)
  then show thesis by (intro that [of p qs pid 0 b gs hs 0]) (use None in auto)
next
  case (Some a)
  obtain pid p off k t where a: "a = (pid, p, off, k, t)" by (cases a)
  then obtain qs g hs where g: "ps = p # qs" "f # fs = g @ hs" "pieces pid p off g" "k + length g \<le> F" "carries F qs hs"
    using assms(1) Some by auto
  have "off < length p" using assms(2) Some a by (simp add: partway_def)
  with g(3) have "g \<noteq> []" by (cases g) auto
  with g(2) obtain gs where gs: "g = f # gs" "fs = gs @ hs" by (cases g) auto
  obtain i tot o' b where f: "f = (i, tot, o', b)" by (cases f)
  show thesis by (rule that [of p qs pid off b gs hs k]) (use g gs f Some a in auto)
qed

lemma frame_step:
  assumes tc: "to_come F cur ps (f # fs)" and rx: "rx s cur" and lim: "rx_limits F M (ra_config s)"
    and ps: "\<forall>p \<in> set ps. length p \<le> M \<and> length p \<le> 65535"
  shows "\<exists>pid tot off b out s' cur' ps'. f = (pid, tot, off, b) \<and> frame_ok (ra_config s) f
     \<and> accept_frame now pid tot off b s = (Ok out, s') \<and> rx s' cur' \<and> to_come F cur' ps' fs
     \<and> ps = (case out of None \<Rightarrow> [] | Some p \<Rightarrow> [p]) @ ps' \<and> grown 1 now cur cur'"
proof -
  obtain pid p qs off k b gs hs where f: "ps = p # qs" "f = (pid, length p, off, b)" "b \<noteq> []" "b = take (length b) (drop off p)"
    "off + length b \<le> length p" "pieces pid p (off + length b) gs" "fs = gs @ hs" "Suc (k + length gs) \<le> F" "carries F qs hs"
    and cur: "cur = None \<and> off = 0 \<and> k = 0 \<or> (\<exists>t. cur = Some (pid, p, off, k, t))"
    using to_come_Cons [OF tc rx] by metis
  have ok: "frame_ok (ra_config s) f" using f ps lim by (auto simp: frame_ok_def rx_limits_def)
  have acc: "if off + length b = length p
     then \<exists>s'. accept_frame now pid (length p) off b s = (Ok (Some p), s') \<and> idle s'
     else \<exists>s' t. accept_frame now pid (length p) off b s = (Ok None, s') \<and> partway s' pid p (off + length b) (Suc k) t
       \<and> grown 1 now cur (Some (pid, p, off + length b, Suc k, t))"
    using cur
  proof
    assume c: "cur = None \<and> off = 0 \<and> k = 0"
    then show ?thesis using accept_first_piece [of b p s F M now pid] f rx lim ps
      by (auto simp: grown_def started_def split: if_splits)
  next
    assume "\<exists>t. cur = Some (pid, p, off, k, t)"
    then obtain t where c: "cur = Some (pid, p, off, k, t)" by blast
    then show ?thesis using accept_next_piece [OF f(3-5), of s pid k t F M now] f(8) rx lim
      by (auto simp: grown_def started_def split: if_splits)
  qed
  show ?thesis
  proof (cases "off + length b = length p")
    case True
    then obtain s' where s': "accept_frame now pid (length p) off b s = (Ok (Some p), s')" "idle s'" using acc by auto
    have "gs = []" using f(6) True by (cases gs) auto
    then have "to_come F None qs fs" using f(7,9) by simp
    with s' ok f(1,2) show ?thesis by (intro exI [of _ pid] exI [of _ "length p"] exI [of _ off] exI [of _ b]
        exI [of _ "Some p"] exI [of _ s'] exI [of _ None] exI [of _ qs]) (simp add: grown_def started_def)
  next
    case False
    then obtain s' t where s': "accept_frame now pid (length p) off b s = (Ok None, s')"
        "partway s' pid p (off + length b) (Suc k) t" "grown 1 now cur (Some (pid, p, off + length b, Suc k, t))" using acc by auto
    have "to_come F (Some (pid, p, off + length b, Suc k, t)) ps fs" using f by auto
    with s' ok f(2) show ?thesis by (intro exI [of _ pid] exI [of _ "length p"] exI [of _ off] exI [of _ b]
        exI [of _ None] exI [of _ s'] exI [of _ "Some (pid, p, off + length b, Suc k, t)"] exI [of _ ps]) simp
  qed
qed

lemma grown_trans: "grown 1 now cur cur1 \<Longrightarrow> grown n now cur1 cur2 \<Longrightarrow> grown (Suc n) now cur cur2"
proof (unfold grown_def, intro allI impI)
  fix k' t'
  assume a: "\<forall>k' t'. started cur1 = Some (k', t') \<longrightarrow> t' = now \<and> 1 \<le> k' \<or> (\<exists>k. started cur = Some (k, t') \<and> k + 1 \<le> k')"
    and b: "\<forall>k' t'. started cur2 = Some (k', t') \<longrightarrow> t' = now \<and> 1 \<le> k' \<or> (\<exists>k. started cur1 = Some (k, t') \<and> k + n \<le> k')"
    and "started cur2 = Some (k', t')"
  then consider "t' = now \<and> 1 \<le> k'" | k where "started cur1 = Some (k, t')" "k + n \<le> k'" by blast
  then show "t' = now \<and> 1 \<le> k' \<or> (\<exists>k. started cur = Some (k, t') \<and> k + Suc n \<le> k')"
  proof cases
    case 2
    with a consider "t' = now \<and> 1 \<le> k" | j where "started cur = Some (j, t')" "j + 1 \<le> k" by blast
    then show ?thesis using 2(2) by cases auto
  qed simp
qed

lemma record_step:
  assumes "to_come F cur ps (fs @ rest)" and "rx s cur" and "rx_limits F M (ra_config s)"
    and "\<forall>p \<in> set ps. length p \<le> M \<and> length p \<le> 65535"
  shows "\<exists>out s' cur' ps'. decode_loop now (concat (map enc fs)) completed s = (Ok (completed @ out), s')
     \<and> rx s' cur' \<and> to_come F cur' ps' rest \<and> ps = out @ ps' \<and> grown (length fs) now cur cur' \<and> ra_config s' = ra_config s"
  using assms
proof (induction fs arbitrary: cur ps s completed)
  case Nil
  have "decode_loop now [] completed s = (Ok (completed @ []), s)" by (subst decode_loop.simps) simp
  moreover have "grown 0 now cur cur" by (simp add: grown_def)
  ultimately show ?case using Nil by auto
next
  case (Cons f fs)
  have tc: "to_come F cur ps (f # (fs @ rest))" using Cons.prems(1) by simp
  obtain pid tot off b out s1 cur1 ps1 where f: "f = (pid, tot, off, b)" "frame_ok (ra_config s) f"
      "accept_frame now pid tot off b s = (Ok out, s1)" "rx s1 cur1" "to_come F cur1 ps1 (fs @ rest)"
      "ps = (case out of None \<Rightarrow> [] | Some p \<Rightarrow> [p]) @ ps1" "grown 1 now cur cur1"
    using frame_step [OF tc Cons.prems(2-4)] by blast
  have c1: "ra_config s1 = ra_config s" using ra_config_accept_frame [of now pid tot off b s] f(3) by simp
  let ?out = "case out of None \<Rightarrow> [] | Some p \<Rightarrow> [p]"
  obtain out2 s2 cur2 ps2 where r: "decode_loop now (concat (map enc fs)) (completed @ ?out) s1 = (Ok ((completed @ ?out) @ out2), s2)"
      "rx s2 cur2" "to_come F cur2 ps2 rest" "ps1 = out2 @ ps2" "grown (length fs) now cur1 cur2" "ra_config s2 = ra_config s1"
    using Cons.IH [OF f(5,4), of "completed @ ?out"] Cons.prems(3,4) c1 f(6) by auto
  have "decode_loop now (concat (map enc (f # fs))) completed s = (Ok (completed @ (?out @ out2)), s2)"
    using decode_loop_frame [of s pid tot off b now "concat (map enc fs)" completed] f(1-3) r(1) by simp
  moreover have "grown (length (f # fs)) now cur cur2" using grown_trans [OF f(7) r(5)] by simp
  ultimately show ?case using r(2-4,6) f(6) c1 by (metis append.assoc)
qed

lemma expire_keeps:
  assumes "rx s cur" and "\<And>k t. started cur = Some (k, t) \<Longrightarrow> now - t \<le> reassembly_timeout (ra_config s)"
  shows "rx (ra_expire now s) cur"
proof (cases cur)
  case None
  then show ?thesis using assms(1) by (simp add: ra_expire_def idle_def)
next
  case (Some a)
  then show ?thesis using assms
    by (cases a) (auto simp: partway_def started_def ra_expire_def ra_expired_def)
qed

lemma decode_envelope:
  assumes tc: "to_come F cur ps (fs @ rest)" and rx: "rx s cur" and lim: "rx_limits F M (ra_config s)"
    and ps: "\<forall>p \<in> set ps. length p \<le> M \<and> length p \<le> 65535" and ne: "fs \<noteq> []"
    and time: "\<And>k t. started cur = Some (k, t) \<Longrightarrow> now - t \<le> reassembly_timeout (ra_config s)"
  shows "\<exists>out s' cur' ps'. decode_with_at s (envelope fs) now = (Ok out, s')
     \<and> rx s' cur' \<and> to_come F cur' ps' rest \<and> ps = out @ ps' \<and> grown (length fs) now cur cur' \<and> ra_config s' = ra_config s"
proof -
  obtain f fs' where "fs = f # fs'" using ne by (cases fs) auto
  then have "length (envelope fs) \<noteq> length RZ_MAGIC" by (cases f) (simp add: envelope_def)
  then have "decode_with_at s (envelope fs) now = decode_loop now (concat (map enc fs)) [] (ra_expire now s)"
    by (simp add: decode_with_at_def envelope_def Let_def del: concat_eq_Nil_conv)
  moreover have "rx_limits F M (ra_config (ra_expire now s))" using lim by simp
  ultimately show ?thesis using record_step [OF tc expire_keeps [OF rx time] _ ps, where completed = "[]"] by auto
qed

section \<open>The round trip\<close>

fun decode_all :: "RzReassembler \<Rightarrow> (bytes \<times> instant) list \<Rightarrow> (RecordizerError, bytes list) result list \<times> RzReassembler" where
  "decode_all s [] = ([], s)"
| "decode_all s ((rec, now) # xs) =
     (let (r, s1) = decode_with_at s rec now; (rs, s2) = decode_all s1 xs in (r # rs, s2))"

text \<open>Arrival times: any \<open>F\<close> consecutive records arrive within the reassembly timeout.\<close>

definition timely :: "nat \<Rightarrow> duration \<Rightarrow> instant list \<Rightarrow> bool" where
  "timely F timeout ts \<longleftrightarrow> (\<forall>i j. i < j \<and> j < length ts \<and> j < i + F \<longrightarrow> ts ! j - ts ! i \<le> timeout)"

text \<open>The packet in progress was begun in one of the last \<open>k\<close> records.\<close>

definition recent :: "instant list \<Rightarrow> progress \<Rightarrow> bool" where
  "recent hist cur \<longleftrightarrow> (\<forall>k t. started cur = Some (k, t) \<longrightarrow> (\<exists>i < length hist. hist ! i = t \<and> length hist \<le> i + k))"

lemma recent_grown:
  assumes "recent hist cur" and "grown n now cur cur'" and "0 < n"
  shows "recent (hist @ [now]) cur'"
  unfolding recent_def
proof (intro allI impI)
  fix k' t' assume "started cur' = Some (k', t')"
  with assms(2) consider "t' = now" "1 \<le> k'" | k where "started cur = Some (k, t')" "k + n \<le> k'"
    unfolding grown_def by blast
  then show "\<exists>i < length (hist @ [now]). (hist @ [now]) ! i = t' \<and> length (hist @ [now]) \<le> i + k'"
  proof cases
    case 1
    then show ?thesis by (intro exI [of _ "length hist"]) simp
  next
    case 2
    then obtain i where "i < length hist" "hist ! i = t'" "length hist \<le> i + k" using assms(1) unfolding recent_def by blast
    then show ?thesis using 2(2) assms(3) by (intro exI [of _ i]) (simp add: nth_append)
  qed
qed

lemma in_time:
  assumes "recent hist cur" and "to_come F cur ps fs" and "rx s cur" and "timely F timeout (hist @ now # ts)"
    and "started cur = Some (k, t)"
  shows "now - t \<le> timeout"
proof -
  obtain pid p off where cur: "cur = Some (pid, p, off, k, t)" using assms(5) by (auto simp: started_def)
  have "k < F"
  proof -
    obtain g where g: "pieces pid p off g" "k + length g \<le> F" using assms(2) cur by auto
    have "off < length p" using assms(3) cur by (simp add: partway_def)
    then have "g \<noteq> []" using g(1) by (cases g) auto
    then show ?thesis using g(2) by (cases g) auto
  qed
  obtain i where i: "i < length hist" "hist ! i = t" "length hist \<le> i + k" using assms(1,5) unfolding recent_def by blast
  have "(hist @ now # ts) ! length hist - (hist @ now # ts) ! i \<le> timeout"
    by (rule assms(4) [unfolded timely_def, rule_format]) (use i(1,3) \<open>k < F\<close> in simp)
  then show ?thesis using i by (simp add: nth_append)
qed

lemma decode_all_stream:
  assumes "to_come F cur ps (concat rs)" and "rx s cur" and "rx_limits F M (ra_config s)"
    and "\<forall>p \<in> set ps. length p \<le> M \<and> length p \<le> 65535" and "\<forall>r \<in> set rs. r \<noteq> []" and "length ts = length rs"
    and "timely F (reassembly_timeout (ra_config s)) (hist @ ts)" and "recent hist cur"
  shows "\<exists>outs s'. decode_all s (zip (map envelope rs) ts) = (map Ok outs, s') \<and> concat outs = ps \<and> idle s'"
  using assms
proof (induction rs arbitrary: cur ps s ts hist)
  case Nil
  have "cur = None \<and> ps = []"
  proof (cases cur)
    case None
    then show ?thesis using Nil(1) by (cases ps) (auto simp: carries_def list_all2_Cons1)
  next
    case (Some a)
    then show ?thesis using Nil(1,2) by (cases a) (auto simp: partway_def)
  qed
  then show ?case using Nil(2) by (intro exI [of _ "[]"] exI [of _ s]) simp
next
  case (Cons r rs)
  obtain now ts' where ts: "ts = now # ts'" "length ts' = length rs" using Cons.prems(6) by (cases ts) auto
  have tc: "to_come F cur ps (r @ concat rs)" using Cons.prems(1) by simp
  have tm: "now - t \<le> reassembly_timeout (ra_config s)" if "started cur = Some (k, t)" for k t
    using in_time [OF Cons.prems(8,1,2)] Cons.prems(7) that ts(1) by simp
  have ne: "r \<noteq> []" using Cons.prems(5) by simp
  obtain out s1 cur1 ps1 where d: "decode_with_at s (envelope r) now = (Ok out, s1)" "rx s1 cur1" "to_come F cur1 ps1 (concat rs)"
      "ps = out @ ps1" "grown (length r) now cur cur1" "ra_config s1 = ra_config s"
    using decode_envelope [OF tc Cons.prems(2-4) ne, of now] tm by blast
  have "recent (hist @ [now]) cur1" using Cons.prems(8) d(5) ne by (intro recent_grown) auto
  then obtain outs s' where r: "decode_all s1 (zip (map envelope rs) ts') = (map Ok outs, s')" "concat outs = ps1" "idle s'"
    using Cons.IH [OF d(3,2), of ts' "hist @ [now]"] Cons.prems(3-5,7) ts d(4,6) by auto
  then show ?case using d(1,4) ts(1) by (intro exI [of _ "out # outs"] exI [of _ s']) simp
qed

lemma configs_ok_Cons:
  "configs_ok F M (x # xs) \<longleftrightarrow> configs_ok F M xs
     \<and> (case x of OpRaise c \<Rightarrow> runtime_wf c \<and> max_fragments_per_packet c \<le> F \<and> max_packet_bytes c \<le> M | _ \<Rightarrow> True)"
  by (cases x) (auto simp: configs_ok_def)

lemma accepted_sizes:
  "configs_ok F M xs \<Longrightarrow> max_packet_bytes c \<le> M \<Longrightarrow> p \<in> set (accepted c xs) \<Longrightarrow> length p \<le> M \<and> length p \<le> 65535"
  by (induction c xs rule: accepted.induct) (auto simp: configs_ok_Cons acceptable_def split: if_split_asm)

text \<open>The records of a session, the pending envelope flushed at the end.\<close>

definition all_records :: "bytes list \<Rightarrow> Recordizer \<Rightarrow> bytes list" where
  "all_records recs s = recs @ (case fst (flush s) of None \<Rightarrow> [] | Some r \<Rightarrow> [r])"

lemma session_records:
  assumes R: "rng_law R" and wf: "runtime_wf c" and cfg: "configs_ok F M xs"
    and lim: "max_fragments_per_packet c \<le> F" "max_packet_bytes c \<le> M"
  obtains recs rs s where "run_sender R (Recordizer_new i c) xs = Some (accepted c xs, recs, s)"
    "all_records recs s = map envelope rs" "carries F (accepted c xs) (concat rs)"
    "\<forall>r \<in> set rs. r \<noteq> [] \<and> length (envelope r) \<le> max_payload_bytes (rz_config s)"
proof -
  have c: "rz_config (Recordizer_new i c) = c" by (simp add: Recordizer_new_def)
  have "run_ok F M (Recordizer_new i c) [] (accepted c xs) (run_sender R (Recordizer_new i c) xs)"
    using run_sender_ok [OF R holds_new [OF wf, of i] cfg] lim by (simp add: c)
  then obtain rs s fs new where r: "run_sender R (Recordizer_new i c) xs = Some (accepted c xs, map envelope rs, s)" "holds s fs"
      "emits (rz_config s) [] new rs fs" "carries F (accepted c xs) new"
    unfolding run_ok_def by blast
  have em: "emits (rz_config s) [] new (rs @ (if fs = [] then [] else [fs])) []"
    using emits_trans [OF r(3) emits_flush [OF r(2)]] by simp
  show thesis
  proof (rule that [OF r(1)])
    show "all_records (map envelope rs) s = map envelope (rs @ (if fs = [] then [] else [fs]))"
      using flush_holds(1) [OF r(2)] by (simp add: all_records_def)
    show "carries F (accepted c xs) (concat (rs @ (if fs = [] then [] else [fs])))"
      using em r(4) unfolding emits_def append_Nil append_Nil2 by metis
    show "\<forall>r \<in> set (rs @ (if fs = [] then [] else [fs])). r \<noteq> [] \<and> length (envelope r) \<le> max_payload_bytes (rz_config s)"
      using em unfolding emits_def by blast
  qed
qed

text \<open>
  C6. The multiplexer loses nothing and invents nothing: a sender with a validated configuration runs any
  sequence of pushes, flushes and budget raises (the run returns), and its records, the
  pending one flushed at the end, are decoded in order by a receiver whose limits admit them, every run of
  as many consecutive records as a packet may have pieces arriving within the reassembly timeout. Every
  record is accepted, the packets delivered are exactly the packets the sender accepted, in order and
  byte for byte, and nothing stays buffered.
\<close>

theorem recordizer_round_trip:
  assumes R: "rng_law R" and wf: "runtime_wf c" and cfg: "configs_ok F M xs"
    and lim: "max_fragments_per_packet c \<le> F" "max_packet_bytes c \<le> M" and rc: "rx_limits F M rc"
  shows "\<exists>recs s. run_sender R (Recordizer_new i c) xs = Some (accepted c xs, recs, s)
    \<and> (\<forall>ts. length ts = length (all_records recs s) \<and> timely F (reassembly_timeout rc) ts \<longrightarrow>
         (\<exists>outs s'. decode_all (RzReassembler_new rc) (zip (all_records recs s) ts) = (map Ok outs, s')
            \<and> concat outs = accepted c xs \<and> idle s'))"
proof -
  obtain recs rs s where r: "run_sender R (Recordizer_new i c) xs = Some (accepted c xs, recs, s)"
      "all_records recs s = map envelope rs" "carries F (accepted c xs) (concat rs)"
      "\<forall>r \<in> set rs. r \<noteq> [] \<and> length (envelope r) \<le> max_payload_bytes (rz_config s)"
    using session_records [OF R wf cfg lim] .
  have "\<exists>outs s'. decode_all (RzReassembler_new rc) (zip (map envelope rs) ts) = (map Ok outs, s')
      \<and> concat outs = accepted c xs \<and> idle s'"
    if "length ts = length rs" "timely F (reassembly_timeout rc) ts" for ts
    by (rule decode_all_stream [where cur = None and F = F and M = M and hist = "[]"])
      (use that r(3,4) rc accepted_sizes [OF cfg lim(2)] in
        \<open>simp_all add: RzReassembler_new_def idle_def recent_def started_def\<close>)
  then have "\<forall>ts. length ts = length (all_records recs s) \<and> timely F (reassembly_timeout rc) ts \<longrightarrow>
      (\<exists>outs s'. decode_all (RzReassembler_new rc) (zip (all_records recs s) ts) = (map Ok outs, s')
         \<and> concat outs = accepted c xs \<and> idle s')"
    unfolding r(2) length_map by blast
  with r(1) show ?thesis by blast
qed

definition demo_session :: "SenderOp list" where
  "demo_session = [OpPush (map of_nat [0..<120]) 0, OpFlush, OpPush [1, 2, 3] 1]"

lemma demo_session_facts: "configs_ok 64 1500 demo_session" "rx_limits 64 1500 demo_runtime"
  "max_fragments_per_packet demo_runtime \<le> 64" "max_packet_bytes demo_runtime \<le> 1500"
  "accepted demo_runtime demo_session = [map of_nat [0..<120], [1, 2, 3]]"
  by (simp_all add: configs_ok_def demo_session_def rx_limits_def demo_runtime_fields usize_max_def acceptable_def div_ceil_def)

theorem recordizer_round_trip_witness:
  "\<exists>recs s outs s'. run_sender demo_rng (Recordizer_new 7 demo_runtime) demo_session = Some (accepted demo_runtime demo_session, recs, s)
     \<and> decode_all (RzReassembler_new demo_runtime) (zip (all_records recs s) (replicate (length (all_records recs s)) 0)) = (map Ok outs, s')
     \<and> concat outs = [map of_nat [0..<120], [1, 2, 3]]"
proof -
  obtain recs s where r: "run_sender demo_rng (Recordizer_new 7 demo_runtime) demo_session = Some (accepted demo_runtime demo_session, recs, s)"
    and d: "\<forall>ts. length ts = length (all_records recs s) \<and> timely 64 (reassembly_timeout demo_runtime) ts \<longrightarrow>
         (\<exists>outs s'. decode_all (RzReassembler_new demo_runtime) (zip (all_records recs s) ts) = (map Ok outs, s')
            \<and> concat outs = accepted demo_runtime demo_session \<and> idle s')"
    using recordizer_round_trip [OF demo_rng_law demo_runtime_wf demo_session_facts(1,3,4,2)] by blast
  have "timely 64 (reassembly_timeout demo_runtime) (replicate n 0)" for n by (simp add: timely_def)
  then show ?thesis using r d [rule_format, of "replicate (length (all_records recs s)) 0"] demo_session_facts(5) by auto
qed

section \<open>Sizes and accounting of the records\<close>

definition payload :: "frame list \<Rightarrow> nat" where
  "payload fs = sum_list (map (\<lambda>(pid, tot, off, b). length b) fs)"

lemma payload_simps [simp]: "payload [] = 0" "payload ((pid, tot, off, b) # fs) = length b + payload fs"
  "payload (fs @ gs) = payload fs + payload gs"
  by (simp_all add: payload_def)

lemma payload_le_envelope: "payload fs \<le> length (envelope fs)"
proof -
  have "payload fs \<le> length (concat (map enc fs))" by (induction fs) auto
  then show ?thesis by (simp add: envelope_def)
qed

lemma payload_len_loop_frames:
  "\<forall>f \<in> set fs. frame_ok c f \<Longrightarrow> n + payload fs \<le> usize_max \<Longrightarrow>
     payload_len_loop (concat (map enc fs)) n = Some (n + payload fs)"
proof (induction fs arbitrary: n)
  case (Cons f fs)
  obtain pid tot off b where f: "f = (pid, tot, off, b)" by (cases f)
  have b: "tot \<le> 65535" "off \<le> 65535" "length b \<le> 65535" "b \<noteq> []" "off + length b \<le> tot"
    using Cons.prems(1) f by (auto simp: frame_ok_def)
  let ?x = "frame_bytes pid tot off b @ concat (map enc fs)"
  note ff = frame_fields [OF b(1-3), of pid "concat (map enc fs)"]
  have "?x \<noteq> []" "\<not> length ?x < FRAME_HEADER_LEN" "\<not> length ?x < FRAME_HEADER_LEN + length b"
    using b(4) by (auto simp: rz_consts frame_bytes_def)
  moreover have "checked_add n (length b) = Some (n + length b)" using Cons.prems(2) f by (simp add: checked_add_def)
  ultimately have "payload_len_loop ?x n = payload_len_loop (concat (map enc fs)) (n + length b)"
    using b(4,5) by (subst payload_len_loop.simps) (simp only: ff if_False, simp)
  then show ?case using Cons f by simp
qed (simp add: payload_len_loop.simps)

lemma pieces_frame_ok:
  "pieces pid p off g \<Longrightarrow> length p \<le> 65535 \<Longrightarrow> length p \<le> max_packet_bytes c \<Longrightarrow>
     (\<forall>f \<in> set g. frame_ok c f) \<and> payload g + off = length p"
  by (induction pid p off g rule: pieces.induct) (auto simp: frame_ok_def)

lemma carries_frames:
  assumes "carries F ps fs" and "\<forall>p \<in> set ps. length p \<le> max_packet_bytes c \<and> length p \<le> 65535"
  shows "(\<forall>f \<in> set fs. frame_ok c f) \<and> payload fs = sum_list (map length ps)"
proof -
  obtain gs where gs: "fs = concat gs" "list_all2 (\<lambda>p g. (\<exists>pid. pieces pid p 0 g) \<and> g \<noteq> [] \<and> length g \<le> F) ps gs"
    using assms(1) unfolding carries_def by blast
  from gs(2) assms(2) have "(\<forall>f \<in> set (concat gs). frame_ok c f) \<and> payload (concat gs) = sum_list (map length ps)"
  proof (induction rule: list_all2_induct)
    case (Cons p ps g gs)
    then obtain pid where "pieces pid p 0 g" by blast
    from pieces_frame_ok [OF this] Cons show ?case by auto
  qed simp
  with gs(1) show ?thesis by simp
qed

text \<open>
  C25. Every record a session emits fits the payload budget of the carrier, and the byte accounting of the
  writer is exact: \<open>encoded_payload_len\<close> reads every record, and the sum over the session is
  the number of bytes of the packets accepted.
\<close>

theorem records_fit_and_account:
  assumes R: "rng_law R" and wf: "runtime_wf c" and cfg: "configs_ok F M xs"
    and run: "run_sender R (Recordizer_new i c) xs = Some (ps, recs, s)"
  shows "(\<forall>r \<in> set (all_records recs s). length r \<le> max_payload_bytes (rz_config s) \<and> encoded_payload_len r \<noteq> None)
    \<and> sum_list (map (\<lambda>r. the (encoded_payload_len r)) (all_records recs s)) = sum_list (map length ps)"
proof -
  let ?F = "max F (max_fragments_per_packet c)" and ?M = "max M (max_packet_bytes c)"
  have cfg': "configs_ok ?F ?M xs" using cfg unfolding configs_ok_def by (meson le_max_iff_disj)
  obtain recs' rs s' where r: "run_sender R (Recordizer_new i c) xs = Some (accepted c xs, recs', s')"
      "all_records recs' s' = map envelope rs" "carries ?F (accepted c xs) (concat rs)"
      "\<forall>r \<in> set rs. r \<noteq> [] \<and> length (envelope r) \<le> max_payload_bytes (rz_config s')"
    using session_records [OF R wf cfg' max.cobounded2 max.cobounded2] .
  then have eq: "ps = accepted c xs" "recs' = recs" "s' = s" using run by simp_all
  have "run_ok ?F ?M (Recordizer_new i c) [] (accepted c xs) (run_sender R (Recordizer_new i c) xs)"
    using run_sender_ok [OF R holds_new [OF wf, of i] cfg'] by (simp add: Recordizer_new_def)
  then have small: "max_payload_bytes (rz_config s) < 2 ^ 32"
    unfolding run_ok_def run by (auto simp: holds_def runtime_wf_def)
  have "\<forall>p \<in> set ps. length p \<le> max_packet_bytes (c\<lparr>max_packet_bytes := ?M\<rparr>) \<and> length p \<le> 65535"
    using accepted_sizes [OF cfg' max.cobounded2] eq by simp
  from carries_frames [OF r(3) [folded eq(1)] this]
  have ok: "\<forall>f \<in> set (concat rs). frame_ok (c\<lparr>max_packet_bytes := ?M\<rparr>) f" and sum: "payload (concat rs) = sum_list (map length ps)"
    by auto
  have enc: "encoded_payload_len (envelope r) = Some (payload r)" if "r \<in> set rs" for r
  proof -
    have "payload r \<le> usize_max"
      using payload_le_envelope [of r] r(4) that small eq(3) by (fastforce simp: usize_max_def)
    then have "payload_len_loop (concat (map enc r)) 0 = Some (0 + payload r)"
      using ok that by (intro payload_len_loop_frames [where c = "c\<lparr>max_packet_bytes := ?M\<rparr>"]) auto
    then show ?thesis by (simp add: encoded_payload_len_def envelope_def)
  qed
  have "sum_list (map (\<lambda>r. the (encoded_payload_len (envelope r))) rs) = sum_list (map payload rs)"
    using enc by (intro arg_cong [of _ _ sum_list] map_cong) simp_all
  also have "\<dots> = payload (concat rs)" by (induction rs) simp_all
  finally show ?thesis using sum r(2,4) enc unfolding eq by (simp add: comp_def)
qed

theorem records_fit_and_account_witness:
  "\<exists>recs s. run_sender demo_rng (Recordizer_new 7 demo_runtime) demo_session = Some ([map of_nat [0..<120], [1, 2, 3]], recs, s)
     \<and> sum_list (map (\<lambda>r. the (encoded_payload_len r)) (all_records recs s)) = 123"
proof -
  obtain recs rs s where run: "run_sender demo_rng (Recordizer_new 7 demo_runtime) demo_session = Some (accepted demo_runtime demo_session, recs, s)"
    using session_records [OF demo_rng_law demo_runtime_wf demo_session_facts(1,3,4)] by blast
  from records_fit_and_account [OF demo_rng_law demo_runtime_wf demo_session_facts(1) run] run
  show ?thesis by (auto simp: demo_session_facts(5))
qed

section \<open>Resource limits of the receiver against any peer\<close>

definition span :: "RzChunk \<Rightarrow> nat set" where
  "span c = {rz_offset c ..< rz_offset c + rz_len c}"

text \<open>The positions of a pending packet that some fragment has written.\<close>

definition covered :: "PendingPacket \<Rightarrow> nat set" where
  "covered e = (\<Union>c \<in> set (pp_chunks e). span c)"

definition packet_wf :: "RuntimeConfig \<Rightarrow> PendingPacket \<Rightarrow> bool" where
  "packet_wf c e \<longleftrightarrow> length (pp_bytes e) = pp_total_len e \<and> pp_total_len e \<le> max_packet_bytes c
     \<and> covered e \<subseteq> {0..<pp_total_len e} \<and> pp_received_bytes e = card (covered e)
     \<and> length (pp_chunks e) \<le> max_fragments_per_packet c"

definition receiver_inv :: "RzReassembler \<Rightarrow> bool" where
  "receiver_inv s \<longleftrightarrow> accounted pp_total_len (ra_pending s) (ra_buffered_bytes s)
     \<and> length (ra_pending s) \<le> max_inflight_packets (ra_config s)
     \<and> ra_buffered_bytes s \<le> max_reassembly_bytes (ra_config s) \<and> max_reassembly_bytes (ra_config s) < usize_max
     \<and> (\<forall>(pid, e) \<in> set (ra_pending s). packet_wf (ra_config s) e \<and> pp_received_bytes e < pp_total_len e)"

lemma receiver_inv_remove: "receiver_inv s \<Longrightarrow> receiver_inv (ra_remove pid s)"
  using ra.accounted_remove [of s pid] ra.buffered_remove_le [of pid s] set_delete_subset [of pid "ra_pending s"]
    length_delete_le' [of pid "ra_pending s"]
  by (auto simp: receiver_inv_def ra.entries_remove)

lemma receiver_inv_expire: "receiver_inv s \<Longrightarrow> receiver_inv (ra_expire now s)"
proof -
  have "receiver_inv (fold ra_remove ks s)" if "receiver_inv s" for ks s
    using that by (induction ks arbitrary: s) (simp_all add: receiver_inv_remove)
  then show "receiver_inv s \<Longrightarrow> receiver_inv (ra_expire now s)" by (simp add: ra_expire_def)
qed

lemma covered_write: "covered (write_chunk off b e) = covered e \<union> {off..<off + length b}"
  by (auto simp: covered_def write_chunk_def span_def)

lemma write_chunk_wf:
  assumes wf: "packet_wf c e" and fits: "off + length b \<le> pp_total_len e"
    and free: "\<not> list_ex (chunk_overlaps off (length b)) (pp_chunks e)"
    and k: "length (pp_chunks e) < max_fragments_per_packet c"
  shows "packet_wf c (write_chunk off b e)" "pp_total_len (write_chunk off b e) = pp_total_len e"
    "pp_received_bytes (write_chunk off b e) \<le> pp_total_len e"
proof -
  have fin: "finite (covered e)" using wf finite_subset unfolding packet_wf_def by blast
  have "covered e \<inter> {off..<off + length b} = {}"
    using free by (auto simp: covered_def span_def list_ex_iff chunk_overlaps_def)
  then have "card (covered (write_chunk off b e)) = card (covered e) + length b"
    using fin by (simp add: covered_write card_Un_disjoint)
  moreover have sub: "covered (write_chunk off b e) \<subseteq> {0..<pp_total_len e}"
    using wf fits by (auto simp: covered_write packet_wf_def)
  ultimately show wf': "packet_wf c (write_chunk off b e)"
    using wf fits k by (simp add: packet_wf_def write_chunk_def)
  show t: "pp_total_len (write_chunk off b e) = pp_total_len e" by (simp add: write_chunk_def)
  show "pp_received_bytes (write_chunk off b e) \<le> pp_total_len e"
    using card_mono [OF finite_atLeastLessThan sub] wf' by (simp add: packet_wf_def)
qed

text \<open>What every frame promises of the receiver: the invariant, and packets within the limit.\<close>

definition keeps :: "RuntimeConfig \<Rightarrow> (RecordizerError, bytes option) result \<times> RzReassembler \<Rightarrow> bool" where
  "keeps c x \<longleftrightarrow> receiver_inv (snd x) \<and> ra_config (snd x) = c
     \<and> (\<forall>p. fst x = Ok (Some p) \<longrightarrow> 0 < length p \<and> length p \<le> max_packet_bytes c)"

lemma store_fragment_keeps:
  assumes acc: "accounted pp_total_len (ra_pending s) (ra_buffered_bytes s)"
      "length (ra_pending s) \<le> max_inflight_packets (ra_config s)"
      "ra_buffered_bytes s \<le> max_reassembly_bytes (ra_config s)" "max_reassembly_bytes (ra_config s) < usize_max"
    and others: "\<And>r e'. (r, e') \<in> set (ra_pending s) \<Longrightarrow> packet_wf (ra_config s) e' \<and> pp_received_bytes e' < pp_total_len e'"
    and ent: "map_of (ra_pending s) pid = Some e" and fits: "off + length b \<le> pp_total_len e"
    and free: "\<not> list_ex (chunk_overlaps off (length b)) (pp_chunks e)" and pos: "0 < pp_total_len e"
  shows "keeps (ra_config s) (store_fragment pid off b s e)"
proof (cases "max_fragments_per_packet (ra_config s) \<le> length (pp_chunks e)")
  case True
  have "receiver_inv s" using acc others by (auto simp: receiver_inv_def)
  with True show ?thesis by (simp add: store_fragment_def keeps_def receiver_inv_remove)
next
  case False
  let ?e = "write_chunk off b e"
  have wf: "packet_wf (ra_config s) e" using others map_of_SomeD [OF ent] by blast
  note w = write_chunk_wf [OF wf fits free]
  show ?thesis
  proof (cases "pp_received_bytes ?e = pp_total_len ?e")
    case True
    let ?s = "s\<lparr>ra_pending := AList.delete pid (ra_pending s), ra_buffered_bytes := ra_buffered_bytes s - pp_total_len e\<rparr>"
    have "total_cost pp_total_len (AList.delete pid (ra_pending s)) + pp_total_len e = ra_buffered_bytes s"
      using acc(1) total_cost_delete [OF _ ent, of pp_total_len] by (simp add: accounted_def)
    then have "receiver_inv ?s"
      using acc others set_delete_subset [of pid "ra_pending s"] length_delete_le' [of pid "ra_pending s"]
      by (auto simp: receiver_inv_def accounted_def distinct_delete)
    moreover have "length (pp_bytes ?e) = pp_total_len e" "pp_total_len e \<le> max_packet_bytes (ra_config s)"
      using w(1,2) False by (simp_all add: packet_wf_def)
    ultimately show ?thesis using True False pos w(2)
      by (simp add: store_fragment_def Let_def keeps_def del: length_greater_0_conv)
  next
    case neq: False
    let ?s = "s\<lparr>ra_pending := AList.update pid ?e (ra_pending s)\<rparr>"
    have "total_cost pp_total_len (AList.update pid ?e (ra_pending s)) = ra_buffered_bytes s"
      using acc(1) total_cost_update [OF _ ent, of pp_total_len ?e] w(2) False by (simp add: accounted_def)
    moreover have "pp_received_bytes ?e < pp_total_len ?e" "packet_wf (ra_config s) ?e" using neq w False by simp_all
    ultimately have "receiver_inv ?s"
      using acc others set_update_subset [of pid ?e "ra_pending s"]
      by (auto simp: receiver_inv_def accounted_def distinct_update length_update_present [OF ent])
    then show ?thesis using neq False by (simp add: store_fragment_def Let_def keeps_def)
  qed
qed

lemma new_packet_fields:
  "pp_total_len (new_packet now tot) = tot" "pp_chunks (new_packet now tot) = []" "pp_received_bytes (new_packet now tot) = 0"
  "tot \<le> max_packet_bytes c \<Longrightarrow> packet_wf c (new_packet now tot)"
  by (simp_all add: new_packet_def packet_wf_def covered_def)

lemma accept_frame_keeps:
  assumes inv: "receiver_inv s" and b: "b \<noteq> []" "off + length b \<le> tot" "tot \<le> max_packet_bytes (ra_config s)"
  shows "keeps (ra_config s) (accept_frame now pid tot off b s)"
proof -
  have b0: "0 < length b" using b(1) by simp
  have rem: "keeps (ra_config s) (Err x, ra_remove pid s)" "keeps (ra_config s) (Err x, s)" "keeps (ra_config s) (Ok None, s)" for x
    using inv receiver_inv_remove [OF inv] by (simp_all add: keeps_def)
  show ?thesis
  proof (cases "map_of (ra_pending s) pid")
    case None
    let ?e = "new_packet now tot"
    let ?s = "s\<lparr>ra_pending := AList.update pid ?e (ra_pending s), ra_buffered_bytes := ra_buffered_bytes s + tot\<rparr>"
    have up: "AList.update pid ?e (ra_pending s) = ra_pending s @ [(pid, ?e)]"
      using None by (simp add: update_new map_of_None_iff)
    have "keeps (ra_config ?s) (store_fragment pid off b ?s ?e)"
      if lim: "\<not> max_inflight_packets (ra_config s) \<le> length (ra_pending s)"
        "\<not> max_reassembly_bytes (ra_config s) < saturating_add (ra_buffered_bytes s) tot"
    proof (rule store_fragment_keeps)
      show "map_of (ra_pending ?s) pid = Some ?e" by (simp add: AList.update_conv)
      show "ra_buffered_bytes ?s \<le> max_reassembly_bytes (ra_config ?s)"
        using lim(2) inv by (simp add: receiver_inv_def saturating_add_def min_def split: if_splits)
    qed (use inv lim None b b0 in \<open>auto simp: up receiver_inv_def accounted_def map_of_None_iff new_packet_fields\<close>)
    then show ?thesis using None rem b b0 inv by (simp add: accept_frame_def Let_def keeps_def)
  next
    case (Some e)
    have "(pid, e) \<in> set (ra_pending s)" using Some by (rule map_of_SomeD)
    then have "keeps (ra_config s) (store_fragment pid off b s e)"
      if "pp_total_len e = tot" "\<not> list_ex (chunk_overlaps off (length b)) (pp_chunks e)"
      using that inv Some b b0 by (intro store_fragment_keeps) (auto simp: receiver_inv_def)
    then show ?thesis using Some rem by (simp add: accept_frame_def)
  qed
qed

definition delivers :: "RuntimeConfig \<Rightarrow> (RecordizerError, bytes list) result \<Rightarrow> bool" where
  "delivers c r \<longleftrightarrow> (\<forall>out. r = Ok out \<longrightarrow> (\<forall>p \<in> set out. 0 < length p \<and> length p \<le> max_packet_bytes c))"

lemma decode_loop_keeps:
  assumes "receiver_inv s" and "ra_config s = c" and "\<forall>p \<in> set completed. 0 < length p \<and> length p \<le> max_packet_bytes c"
  shows "receiver_inv (snd (decode_loop now rest completed s)) \<and> ra_config (snd (decode_loop now rest completed s)) = c
     \<and> delivers c (fst (decode_loop now rest completed s))"
  using assms
proof (induction now rest completed s rule: decode_loop.induct)
  case (1 now rest completed s)
  let ?bad = "hdr_total rest = 0 \<or> max_packet_bytes (ra_config s) < hdr_total rest \<or> hdr_len rest = 0
    \<or> length rest < FRAME_HEADER_LEN + hdr_len rest \<or> hdr_total rest < hdr_offset rest + hdr_len rest"
  let ?b = "slice FRAME_HEADER_LEN (FRAME_HEADER_LEN + hdr_len rest) rest"
  let ?acc = "accept_frame now (hdr_id rest) (hdr_total rest) (hdr_offset rest) ?b s"
  show ?case
  proof (cases "rest = [] \<or> length rest < FRAME_HEADER_LEN \<or> ?bad")
    case True
    then have "\<exists>r. decode_loop now rest completed s = (r, s) \<and> delivers c r"
      using 1(4) by (subst decode_loop.simps) (auto simp: delivers_def)
    then show ?thesis using 1(2,3) by auto
  next
    case False
    have len: "length ?b = hdr_len rest" using False unfolding slice_def length_take length_drop by linarith
    have "?b \<noteq> []" using len False by (metis list.size(3))
    then have k: "keeps c ?acc" using accept_frame_keeps [OF 1(2)] len False 1(3) by simp
    obtain r s' where acc: "?acc = (r, s')" by (cases ?acc)
    show ?thesis
    proof (cases r)
      case (Inl e)
      then have "decode_loop now rest completed s = (Err e, s')" using False acc by (subst decode_loop.simps) simp
      then show ?thesis using k acc by (simp add: keeps_def delivers_def)
    next
      case (Inr out)
      let ?c = "completed @ (case out of None \<Rightarrow> [] | Some packet \<Rightarrow> [packet])"
      have eq: "decode_loop now rest completed s = decode_loop now (drop (FRAME_HEADER_LEN + hdr_len rest) rest) ?c s'"
        using False acc Inr by (subst decode_loop.simps) simp
      have "\<forall>p \<in> set ?c. 0 < length p \<and> length p \<le> max_packet_bytes c"
        using 1(4) k acc Inr by (auto simp: keeps_def split: option.splits)
      moreover have "receiver_inv s'" "ra_config s' = c" using k acc by (simp_all add: keeps_def)
      ultimately show ?thesis unfolding eq using 1(1) False acc Inr by simp
    qed
  qed
qed

lemma decode_with_at_keeps:
  assumes "receiver_inv s" and "ra_config s = c"
  shows "receiver_inv (snd (decode_with_at s rec now))" "ra_config (snd (decode_with_at s rec now)) = c"
    "delivers c (fst (decode_with_at s rec now))"
  using decode_loop_keeps [OF receiver_inv_expire [OF assms(1)], where c = c and completed = "[]" and now = now
      and rest = "drop (length RZ_MAGIC) rec"] assms(2) receiver_inv_expire [OF assms(1), of now]
  by (simp_all add: decode_with_at_def Let_def delivers_def)

text \<open>
  C26. Whatever envelopes a peer sends and whenever they arrive, a receiver set up from a configuration
  keeps its limits: at most \<open>max_inflight_packets\<close> packets pending and
  \<open>max_reassembly_bytes\<close> bytes reserved, with the byte counter equal to the sum of the reservations; every
  pending packet has at most \<open>max_fragments_per_packet\<close> chunks, all inside its buffer and without
  overlap (what it counts as received is the number of positions written), and at least one position
  missing; and every packet it delivers is non-empty and within \<open>max_packet_bytes\<close>.
\<close>

theorem receiver_stays_bounded:
  assumes "from_config cfg budget mp = Ok rc"
  shows "receiver_inv (snd (decode_all (RzReassembler_new rc) xs))
    \<and> list_all (delivers rc) (fst (decode_all (RzReassembler_new rc) xs))"
proof -
  have "max_reassembly_bytes rc = unat (fragment_max_reassembly_bytes (fragment_config cfg))"
    using assms by (auto simp: from_config_def Let_def simp del: min_less_iff_disj split: if_split_asm)
  moreover have "unat (fragment_max_reassembly_bytes (fragment_config cfg)) < 2 ^ 32"
    using unsigned_less [of "fragment_max_reassembly_bytes (fragment_config cfg)"] by simp
  moreover have "2 ^ 32 < usize_max" by (simp add: usize_max_def)
  ultimately have "max_reassembly_bytes rc < usize_max" by linarith
  then have "receiver_inv (RzReassembler_new rc)"
    by (simp add: receiver_inv_def RzReassembler_new_def accounted_def)
  moreover have "receiver_inv (snd (decode_all s xs)) \<and> list_all (delivers c) (fst (decode_all s xs))"
    if "receiver_inv s" "ra_config s = c" for s c
    using that
  proof (induction xs arbitrary: s)
    case (Cons x xs)
    then show ?case using decode_with_at_keeps [OF Cons.prems, of "fst x" "snd x"]
      by (cases x) (simp add: Let_def case_prod_unfold)
  qed simp
  ultimately show ?thesis by (simp add: RzReassembler_new_def)
qed

theorem receiver_stays_bounded_witness:
  "receiver_inv (snd (decode_all (RzReassembler_new demo_runtime) [(RZ_MAGIC, 0), (RZ_MAGIC @ [0], 5)]))"
  using receiver_stays_bounded [OF demo_from_config] by blast

end
