(* ===== verification/Quic.thy ===== *)
theory Quic
  imports Qeli_Prelude
begin

unbundle bit_operations_syntax

text \<open>
  The QUIC-shaped envelope of \<^verbatim>\<open>protocol/quic.rs\<close>: variable-length integers, the long and
  the short header, and the strict parser that accepts only these shapes.
\<close>

section \<open>Constants and data\<close>

definition QUIC_VERSION_V1 :: u32 where "QUIC_VERSION_V1 = 1"
definition QUIC_LONG_HEADER_FLAG :: u8 where "QUIC_LONG_HEADER_FLAG = 0xC0"
definition QUIC_SHORT_HEADER_FLAG :: u8 where "QUIC_SHORT_HEADER_FLAG = 0x40"
definition QUIC_INITIAL_FLAGS :: u8 where "QUIC_INITIAL_FLAGS = QUIC_LONG_HEADER_FLAG OR 0x03"
definition QUIC_LEGACY_HANDSHAKE_FLAGS :: u8 where
  "QUIC_LEGACY_HANDSHAKE_FLAGS = QUIC_LONG_HEADER_FLAG OR push_bit 4 0x02 OR 0x03"
definition QUIC_SHORT_FLAGS :: u8 where "QUIC_SHORT_FLAGS = QUIC_SHORT_HEADER_FLAG OR 0x03"
definition QUIC_LONG_HEADER_MIN :: nat where "QUIC_LONG_HEADER_MIN = 1 + 4 + 1 + 4 + 1 + 1 + 1 + 4"
definition QUIC_SHORT_HEADER_MIN :: nat where "QUIC_SHORT_HEADER_MIN = 1 + 4 + 4"
definition QUIC_LONG_HEADER_EMITTED :: nat where "QUIC_LONG_HEADER_EMITTED = 1 + 4 + 1 + 4 + 1 + 1 + 2 + 4"

lemma quic_flags:
  "QUIC_INITIAL_FLAGS = 0xC3" "QUIC_LEGACY_HANDSHAKE_FLAGS = 0xE3" "QUIC_SHORT_FLAGS = 0x43"
  "QUIC_LONG_HEADER_MIN = 17" "QUIC_SHORT_HEADER_MIN = 9" "QUIC_VERSION_V1 = 1"
  by (simp_all add: QUIC_INITIAL_FLAGS_def QUIC_LEGACY_HANDSHAKE_FLAGS_def QUIC_SHORT_FLAGS_def
      QUIC_LONG_HEADER_FLAG_def QUIC_SHORT_HEADER_FLAG_def QUIC_LONG_HEADER_MIN_def
      QUIC_SHORT_HEADER_MIN_def QUIC_VERSION_V1_def push_bit_eq_mult)

datatype QuicError = QuicTooShort | QuicInvalidHeader

record QuicPacket =
  qp_is_long :: bool
  qp_connection_id :: bytes
  qp_packet_number :: u32
  qp_payload :: bytes

section \<open>Variable-length integers\<close>

text \<open>The result says whether the value was written; the buffer is returned extended.\<close>

definition push_varint :: "bytes \<Rightarrow> u64 \<Rightarrow> bool \<times> bytes" where
  "push_varint out v =
     (if v < 0x40 then (True, out @ [ucast v])
      else if v < 0x4000 then (True, out @ [0x40 OR ucast (drop_bit 8 v), ucast (v AND 0xFF)])
      else if v < 0x40000000 then
        (True, out @ [0x80 OR ucast (drop_bit 24 v), ucast (drop_bit 16 v AND 0xFF),
                      ucast (drop_bit 8 v AND 0xFF), ucast (v AND 0xFF)])
      else (False, out))"

definition read_varint :: "bytes \<Rightarrow> nat \<Rightarrow> (u64 \<times> nat) option" where
  "read_varint buf offset =
     (if length buf \<le> offset then None
      else (let first = buf ! offset; len = 2 ^ unat (drop_bit 6 first) in
        case checked_add offset len of
          None \<Rightarrow> None
        | Some fin \<Rightarrow>
            if length buf < fin then None
            else Some (foldl (\<lambda>value i. push_bit 8 value OR ucast (buf ! (offset + i)))
                         (ucast (first AND 0x3F)) [1..<len], fin)))"

section \<open>Wrapping\<close>

definition wrap_quic_long_into :: "bytes \<Rightarrow> bytes \<Rightarrow> u32 \<Rightarrow> bytes" where
  "wrap_quic_long_into data connection_id packet_number =
     (let packet = [QUIC_INITIAL_FLAGS] @ to_be_bytes QUIC_VERSION_V1 @ [4] @ connection_id @ [0] @ [0];
          (written, packet) = push_varint packet (of_nat (4 + length data)) in
      if \<not> written then data
      else packet @ to_be_bytes packet_number @ data)"

definition wrap_quic_long :: "bytes \<Rightarrow> bytes \<Rightarrow> u32 \<Rightarrow> bytes" where
  "wrap_quic_long data connection_id packet_number = wrap_quic_long_into data connection_id packet_number"

definition wrap_quic_short_into :: "bytes \<Rightarrow> bytes \<Rightarrow> u32 \<Rightarrow> bytes" where
  "wrap_quic_short_into data connection_id packet_number =
     [QUIC_SHORT_FLAGS] @ connection_id @ to_be_bytes packet_number @ data"

definition wrap_quic_short :: "bytes \<Rightarrow> bytes \<Rightarrow> u32 \<Rightarrow> bytes" where
  "wrap_quic_short data connection_id packet_number = wrap_quic_short_into data connection_id packet_number"

section \<open>Parsing\<close>

text \<open>The long header after its length check; the slices and reads below are in range because every
  one of them follows the source's bound check.\<close>

definition unwrap_quic_long_tail :: "bytes \<Rightarrow> bytes \<Rightarrow> nat \<Rightarrow> (QuicError, QuicPacket) result" where
  "unwrap_quic_long_tail packet dcid offset =
     (case read_varint packet offset of
        None \<Rightarrow> Err QuicTooShort
      | Some (token_len, offset) \<Rightarrow>
          if token_len \<noteq> 0 then Err QuicInvalidHeader
          else (case read_varint packet offset of
             None \<Rightarrow> Err QuicTooShort
           | Some (declared, offset) \<Rightarrow>
               (let declared_len = unat declared in
                if usize_max < declared_len then Err QuicInvalidHeader
                else if declared_len < 4 then Err QuicInvalidHeader
                else (case checked_add offset declared_len of
                   None \<Rightarrow> Err QuicInvalidHeader
                 | Some packet_end \<Rightarrow>
                     if length packet < packet_end then Err QuicTooShort
                     else if packet_end \<noteq> length packet then Err QuicInvalidHeader
                     else (case checked_add offset 4 of
                        None \<Rightarrow> Err QuicInvalidHeader
                      | Some pn_end \<Rightarrow>
                          Ok \<lparr>qp_is_long = True, qp_connection_id = dcid,
                              qp_packet_number = from_be_bytes (slice offset pn_end packet),
                              qp_payload = slice pn_end packet_end packet\<rparr>)))))"

definition unwrap_quic_ref :: "bytes \<Rightarrow> (QuicError, QuicPacket) result" where
  "unwrap_quic_ref packet =
     (if packet = [] then Err QuicTooShort
      else if packet ! 0 AND 0x80 \<noteq> 0 then
        (let flags = packet ! 0 in
         if length packet < QUIC_LONG_HEADER_MIN then Err QuicTooShort
         else if flags \<noteq> QUIC_INITIAL_FLAGS \<and> flags \<noteq> QUIC_LEGACY_HANDSHAKE_FLAGS then Err QuicInvalidHeader
         else if (from_be_bytes (slice 1 5 packet) :: u32) \<noteq> QUIC_VERSION_V1 then Err QuicInvalidHeader
         else (let dcid_len = unat (packet ! 5) in
           if dcid_len \<noteq> 4 then Err QuicInvalidHeader
           else (case checked_add 6 dcid_len of
              None \<Rightarrow> Err QuicInvalidHeader
            | Some dcid_end \<Rightarrow>
                if length packet < dcid_end then Err QuicTooShort
                else (let dcid = slice 6 dcid_end packet; offset = dcid_end in
                  if length packet \<le> offset then Err QuicTooShort
                  else if unat (packet ! offset) \<noteq> 0 then Err QuicInvalidHeader
                  else unwrap_quic_long_tail packet dcid (offset + 1)))))
      else if length packet < QUIC_SHORT_HEADER_MIN then Err QuicTooShort
      else if packet ! 0 \<noteq> QUIC_SHORT_FLAGS then Err QuicInvalidHeader
      else Ok \<lparr>qp_is_long = False, qp_connection_id = slice 1 5 packet,
               qp_packet_number = from_be_bytes (slice 5 9 packet), qp_payload = drop 9 packet\<rparr>)"

definition unwrap_quic_payload :: "bytes \<Rightarrow> (QuicError, bytes) result" where
  "unwrap_quic_payload packet =
     (case unwrap_quic_ref packet of Inl e \<Rightarrow> Err e | Inr parsed \<Rightarrow> Ok (qp_payload parsed))"

definition unwrap_quic :: "bytes \<Rightarrow> (QuicError, QuicPacket) result" where
  "unwrap_quic packet = unwrap_quic_ref packet"

definition looks_like_quic_initial :: "bytes \<Rightarrow> bool" where
  "looks_like_quic_initial packet =
     (case unwrap_quic_ref packet of Inl _ \<Rightarrow> False | Inr parsed \<Rightarrow> qp_is_long parsed)"

section \<open>Round trips\<close>

lemma unat_or_add:
  assumes "2 ^ n dvd unat (a :: 'a::len word)" and "unat b < 2 ^ n"
  shows "unat (a OR b) = unat a + unat b"
proof -
  obtain m where m: "unat a = push_bit n m" using assms(1) by (auto simp: push_bit_nat_def mult.commute)
  have "take_bit n (unat b) = unat b" using assms(2) by (simp add: take_bit_nat_eq_self_iff)
  then have "\<not> bit (push_bit n m) i \<or> \<not> bit (unat b) i" for i
    by (metis bit_push_bit_iff bit_take_bit_iff leD)
  then show ?thesis by (simp add: unsigned_or_eq m disjunctive_add)
qed

lemma unat_byte_u64 [simp]: "unat (ucast (b :: byte) :: u64) = unat b"
  by (simp add: unsigned_ucast_eq take_bit_nat_eq_self [OF less_trans [OF unat_byte_less]])

lemma unat_shift_in:
  assumes v: "unat (v :: u64) < 2 ^ 56"
  shows "unat (push_bit 8 v OR ucast (b :: byte)) = 256 * unat v + unat b"
proof -
  have s: "unat (push_bit 8 v) = 256 * unat v"
    using v by (simp add: push_bit_eq_mult unat_word_ariths)
  then show ?thesis using unat_or_add [of 8 "push_bit 8 v" "ucast b"] by simp
qed

lemma unat_low_byte: "unat (ucast (v :: u64) :: byte) = unat v mod 256"
  by (simp add: unsigned_ucast_eq take_bit_eq_mod)

lemma unat_and_mask: "unat (w AND mask n) = unat (w :: 'a::len word) mod 2 ^ n"
  unfolding take_bit_eq_mask [symmetric] unsigned_take_bit_eq by (rule take_bit_eq_mod)

lemma unat_and_ff: "unat (ucast (v AND 0xFF :: u64) :: byte) = unat v mod 256"
  using unat_and_mask [of v 8] by (simp add: unat_low_byte mask_eq_exp_minus_1)

lemma varint_first_byte:
  "unat (drop_bit 6 (b :: byte)) = unat b div 64" "unat (b AND 0x3F) = unat b mod 64"
  using unat_and_mask [of b 6] by (simp_all add: unat_drop_bit_eq drop_bit_nat_def mask_eq_exp_minus_1)

text \<open>Reading at a place where the first byte announces exactly the given bytes.\<close>

definition varint_value :: "bytes \<Rightarrow> u64" where
  "varint_value bs = foldl (\<lambda>v b. push_bit 8 v OR ucast b) (ucast (hd bs AND 0x3F)) (tl bs)"

lemma read_varint_at:
  assumes "bs \<noteq> []" "length bs = 2 ^ (unat (hd bs) div 64)" "length pre + length bs \<le> usize_max"
  shows "read_varint (pre @ bs @ rest) (length pre) = Some (varint_value bs, length pre + length bs)"
proof -
  have m: "map (\<lambda>i. (pre @ bs @ rest) ! (length pre + i)) [1..<length bs] = tl bs"
    using assms(1) by (intro nth_equalityI) (auto simp: nth_append nth_tl)
  have h: "(pre @ bs @ rest) ! length pre = hd bs" using assms(1) by (simp add: nth_append hd_conv_nth)
  have "foldl (\<lambda>v i. push_bit 8 v OR ucast ((pre @ bs @ rest) ! (length pre + i))) a [1..<length bs]
      = foldl (\<lambda>v b. push_bit 8 v OR ucast b) a (tl bs)" for a :: u64
    unfolding m [symmetric] by (simp add: foldl_map)
  then show ?thesis
    using assms by (simp add: read_varint_def Let_def h varint_first_byte(1) checked_add_def varint_value_def)
qed

lemma base256: "256 * (n div 2 ^ (k + 8)) + n div 2 ^ k mod 256 = n div 2 ^ k" for n :: nat
  using div_mult2_eq [of n "2 ^ k" 256] mult_div_mod_eq [of 256 "n div 2 ^ k"] by (simp add: power_add)

text \<open>The encoding of a value below \<open>2 ^ 30\<close>: its bytes, and that reading them back at any place gives it.\<close>

lemma varint_bytes:
  assumes v: "unat v < 2 ^ 30"
  obtains e where "\<forall>out. push_varint out v = (True, out @ e)" and "e \<noteq> []" and "length e \<le> 4"
    and "length e = 2 ^ (unat (hd e) div 64)" and "varint_value e = v"
proof -
  have low: "unat (ucast (drop_bit k v) :: byte) = unat v div 2 ^ k mod 256" for k
    by (simp add: unat_low_byte unat_drop_bit_eq drop_bit_nat_def)
  have lowff: "unat (ucast (drop_bit k v AND 0xFF) :: byte) = unat v div 2 ^ k mod 256" for k
    by (simp add: unat_and_ff unat_drop_bit_eq drop_bit_nat_def)
  consider (one) "unat v < 64" | (two) "64 \<le> unat v" "unat v < 16384" | (four) "16384 \<le> unat v" by linarith
  then show thesis
  proof cases
    case one
    then show thesis
      by (intro that [of "[ucast v]"])
        (simp_all add: push_varint_def word_less_nat_alt unat_low_byte varint_value_def varint_first_byte(2)
          word_eq_iff_unsigned [where 'a = nat])
  next
    case two
    let ?a = "0x40 OR ucast (drop_bit 8 v) :: byte" and ?b = "ucast (v AND 0xFF) :: byte"
    have a: "unat ?a = 64 + unat v div 256"
      using unat_or_add [of 6 "0x40" "ucast (drop_bit 8 v) :: byte"] two low [of 8] by simp
    have "unat (push_bit 8 (ucast (?a AND 0x3F) :: u64) OR ucast ?b) = unat v"
      using two a by (subst unat_shift_in) (simp_all add: varint_first_byte(2) unat_and_ff)
    then have "varint_value [?a, ?b] = v" by (simp add: varint_value_def word_eq_iff_unsigned [where 'a = nat])
    moreover have "unat ?a div 64 = 1" using two unfolding a by linarith
    ultimately show thesis using two
      by (intro that [of "[?a, ?b]"]) (simp_all add: push_varint_def word_less_nat_alt)
  next
    case four
    let ?a = "0x80 OR ucast (drop_bit 24 v) :: byte" and ?b = "ucast (drop_bit 16 v AND 0xFF) :: byte"
      and ?c = "ucast (drop_bit 8 v AND 0xFF) :: byte" and ?d = "ucast (v AND 0xFF) :: byte"
    have a: "unat ?a = 128 + unat v div 2 ^ 24"
      using unat_or_add [of 6 "0x80" "ucast (drop_bit 24 v) :: byte"] v low [of 24] by simp
    let ?x = "ucast (?a AND 0x3F) :: u64"
    let ?y = "push_bit 8 ?x OR ucast ?b" let ?z = "push_bit 8 ?y OR ucast ?c"
    have m: "(128 + n) mod 64 = n" "(128 + n) div 64 = 2" if "n < 64" for n :: nat
      using that mod_mult_self2 [of n 64 2] div_mult_self2 [of 64 n 2] by (simp_all add: add.commute)
    have "unat v div 2 ^ 24 < 64" using v by simp
    from m [OF this] have "unat ?a mod 64 = unat v div 2 ^ 24" and q: "unat ?a div 64 = 2"
      unfolding a by blast+
    then have x: "unat ?x = unat v div 2 ^ 24" by (simp add: varint_first_byte(2))
    have le: "unat v div n < 2 ^ 56" for n using v le_less_trans [OF div_le_dividend [of "unat v" n]] by simp
    have y: "unat ?y = unat v div 2 ^ 16"
      using x le [of "2 ^ 24"] lowff [of 16] base256 [of "unat v" 16] by (subst unat_shift_in) simp_all
    have z: "unat ?z = unat v div 2 ^ 8"
      using y le [of "2 ^ 16"] lowff [of 8] base256 [of "unat v" 8] by (subst unat_shift_in) simp_all
    have "unat (push_bit 8 ?z OR ucast ?d) = unat v"
      using z le [of "2 ^ 8"] by (subst unat_shift_in) (simp_all add: unat_and_ff)
    then have "varint_value [?a, ?b, ?c, ?d] = v" by (simp add: varint_value_def word_eq_iff_unsigned [where 'a = nat])
    then show thesis using four v q
      by (intro that [of "[?a, ?b, ?c, ?d]"]) (simp_all add: push_varint_def word_less_nat_alt)
  qed
qed


lemma short_envelope:
  assumes "length cid = 4"
  shows "unwrap_quic_ref (wrap_quic_short data cid pn) =
    Ok \<lparr>qp_is_long = False, qp_connection_id = cid, qp_packet_number = pn, qp_payload = data\<rparr>"
  using assms by (simp add: unwrap_quic_ref_def wrap_quic_short_def wrap_quic_short_into_def quic_flags slice_def
      from_to_be_bytes)

lemma long_envelope:
  assumes cid: "length cid = 4" and d: "length data + 4 < 2 ^ 30"
  shows "unwrap_quic_ref (wrap_quic_long data cid pn) =
    Ok \<lparr>qp_is_long = True, qp_connection_id = cid, qp_packet_number = pn, qp_payload = data\<rparr>"
proof -
  define v :: u64 where "v = 4 + of_nat (length data)"
  define h where "h = [0xC3] @ to_be_bytes QUIC_VERSION_V1 @ [4] @ cid @ [0 :: byte]"
  have v: "unat v = 4 + length data" 
    using d unat_of_nat_eq' [of "4 + length data", where 'a = 64] by (simp add: v_def)
  then have "unat v < 2 ^ 30" using d by simp
  then obtain e where e: "\<forall>out. push_varint out v = (True, out @ e)" "e \<noteq> []" "length e \<le> 4"
      "length e = 2 ^ (unat (hd e) div 64)" "varint_value e = v"
    by (rule varint_bytes)
  define p where "p = h @ [0] @ e @ to_be_bytes pn @ data"
  have w: "wrap_quic_long data cid pn = p"
    by (simp add: wrap_quic_long_def wrap_quic_long_into_def e(1) quic_flags(1) p_def h_def flip: v_def)
  have l: "length h = 11" using cid by (simp add: h_def)
  have t: "read_varint p 11 = Some (0, 12)"
    using read_varint_at [of "[0]" h "e @ to_be_bytes pn @ data"] l by (simp add: varint_value_def usize_max_def p_def)
  have r: "read_varint p 12 = Some (v, 12 + length e)"
    using read_varint_at [OF e(2,4), of "h @ [0]" "to_be_bytes pn @ data"] l e(3,5) by (simp add: usize_max_def p_def)
  have pl: "length p = 16 + length e + length data" using l by (simp add: p_def)
  have s: "slice (12 + length e) (16 + length e) p = to_be_bytes pn" "slice (16 + length e) (length p) p = data"
    using l by (simp_all add: p_def slice_def drop_Cons')
  have fb: "(from_be_bytes (to_be_bytes w) :: u32) = w" for w by (simp add: from_to_be_bytes)
  have "unwrap_quic_long_tail p cid 11 =
      Ok \<lparr>qp_is_long = True, qp_connection_id = cid, qp_packet_number = pn, qp_payload = data\<rparr>"
    using d e(3) s by (simp add: unwrap_quic_long_tail_def t r v pl usize_max_def checked_add_def fb add_ac)
  moreover have "p ! 0 = 0xC3" "slice (Suc 0) 5 p = to_be_bytes QUIC_VERSION_V1" "p ! 5 = 4" "slice 6 10 p = cid" "p ! 10 = 0"
    using cid by (simp_all add: p_def h_def slice_def nth_append)
  moreover have "p \<noteq> []" by (simp add: p_def)
  ultimately show ?thesis unfolding w
    using pl e(2) by (simp add: unwrap_quic_ref_def quic_flags fb checked_add_def usize_max_def)
qed


text \<open>The short parser accepts nothing but what \<^verbatim>\<open>wrap_quic_short\<close> emits.\<close>

lemma short_envelope_exact:
  assumes "unwrap_quic_ref p = Ok q" and "\<not> qp_is_long q"
  shows "p = wrap_quic_short (qp_payload q) (qp_connection_id q) (qp_packet_number q)"
proof -
  have p: "p \<noteq> []" "9 \<le> length p" "p ! 0 = 0x43"
    and q: "q = \<lparr>qp_is_long = False, qp_connection_id = slice 1 5 p,
         qp_packet_number = from_be_bytes (slice 5 9 p), qp_payload = drop 9 p\<rparr>"
    using assms by (auto simp: unwrap_quic_ref_def unwrap_quic_long_tail_def quic_flags Let_def
        split: if_splits option.splits prod.splits)
  have "to_be_bytes (from_be_bytes (slice 5 9 p) :: u32) = slice 5 9 p" using p(2) by (simp add: to_from_be_bytes)
  moreover have "p = p ! 0 # slice 1 5 p @ slice 5 9 p @ drop 9 p"
    using p(1) slice_split [of 1 5 9 p] by (cases p) (simp_all add: slice_def append_assoc [symmetric] del: append_assoc)
  ultimately show ?thesis using p(3) q by (simp add: wrap_quic_short_def wrap_quic_short_into_def quic_flags)
qed

end
