(* ===== verification/Data_Frag.thy ===== *)
theory Data_Frag
  imports Packet_Codec Quic
begin

unbundle bit_operations_syntax

text \<open>
  Authenticated fragmentation of encrypted UDP records, \<^verbatim>\<open>protocol/data_frag.rs\<close>:
  splitting a record into envelopes with a truncated HMAC, parsing and authenticating one
  envelope, and the bounded reassembly table.
\<close>

section \<open>Constants and types\<close>

definition DF_MAGIC :: bytes where "DF_MAGIC = [0xf1, 0x51, 0x44, 0x46]"
definition DF_VERSION :: u8 where "DF_VERSION = 1"
definition DF_FLAGS :: u8 where "DF_FLAGS = 0"
definition DF_TAG_LEN :: nat where "DF_TAG_LEN = 16"
definition HEADER_WITHOUT_TAG :: nat where "HEADER_WITHOUT_TAG = 28"
definition HEADER_LEN :: nat where "HEADER_LEN = HEADER_WITHOUT_TAG + DF_TAG_LEN"
definition MAX_FRAGMENTS :: nat where "MAX_FRAGMENTS = 64"
definition MAX_REASSEMBLY_RECORDS :: nat where "MAX_REASSEMBLY_RECORDS = 32"
definition MAX_REASSEMBLY_BYTES :: nat where "MAX_REASSEMBLY_BYTES = 512 * 1024"
definition DF_REASSEMBLY_TIMEOUT :: duration where "DF_REASSEMBLY_TIMEOUT = duration_secs 5"
definition MAX_REASSEMBLED_RECORD :: nat where
  "MAX_REASSEMBLED_RECORD = TLS_RECORD_HEADER + MAX_RECORD_SIZE"
definition IPV6_MIN_UDP_PAYLOAD :: nat where "IPV6_MIN_UDP_PAYLOAD = 1280 - 40 - 8"
definition IPV4_MIN_UDP_PAYLOAD :: nat where "IPV4_MIN_UDP_PAYLOAD = 576 - 20 - 8"

lemmas df_consts = DF_MAGIC_def DF_VERSION_def DF_FLAGS_def DF_TAG_LEN_def HEADER_WITHOUT_TAG_def
  HEADER_LEN_def MAX_FRAGMENTS_def MAX_REASSEMBLY_RECORDS_def MAX_REASSEMBLY_BYTES_def
  MAX_REASSEMBLED_RECORD_def

datatype DataFragError = BudgetTooSmall | NotFragmented | RecordTooLarge | TooManyFragments
  | DfTruncated | DfUnsupported | DfInvalidMetadata | DfAuthentication | DfConflict | DfResourceLimit

record ParsedFragment =
  pf_record_id :: u64
  pf_offset :: u32
  pf_total_len :: u32
  pf_index :: u16
  pf_count :: u16
  pf_payload :: bytes

record DfChunk =
  chunk_offset :: u32
  chunk_bytes :: bytes

record PendingRecord =
  created_at :: instant
  total_len :: u32
  frag_count :: u16
  slots :: "DfChunk option list"
  received_count :: u16
  received_bytes :: nat

record DataReassembler =
  df_entries :: "(u64 \<times> PendingRecord) list"
  df_buffered_bytes :: nat

section \<open>Budgets and splitting\<close>

definition is_data_fragment :: "bytes \<Rightarrow> bool" where
  "is_data_fragment datagram \<longleftrightarrow> length DF_MAGIC \<le> length datagram \<and> take (length DF_MAGIC) datagram = DF_MAGIC"

definition conservative_udp_payload_budget :: "bool \<Rightarrow> nat" where
  "conservative_udp_payload_budget outer_ipv6 =
     (if outer_ipv6 then IPV6_MIN_UDP_PAYLOAD else IPV4_MIN_UDP_PAYLOAD)"

definition unfragmented_record_budget_with_wrapper :: "nat \<Rightarrow> nat \<Rightarrow> nat \<Rightarrow> (DataFragError, nat) result" where
  "unfragmented_record_budget_with_wrapper udp_payload_budget obfs_overhead wrapper_len =
     (case Option.bind (checked_sub udp_payload_budget obfs_overhead) (\<lambda>v. checked_sub v wrapper_len) of
        None \<Rightarrow> Err BudgetTooSmall
      | Some v \<Rightarrow> if HEADER_LEN < v then Ok v else Err BudgetTooSmall)"

definition unfragmented_record_budget :: "nat \<Rightarrow> nat \<Rightarrow> bool \<Rightarrow> (DataFragError, nat) result" where
  "unfragmented_record_budget udp_payload_budget obfs_overhead quic_enabled =
     unfragmented_record_budget_with_wrapper udp_payload_budget obfs_overhead
       (if quic_enabled then QUIC_SHORT_HEADER_MIN else 0)"

definition fragment_tag :: "Primitives \<Rightarrow> bytes \<Rightarrow> bytes \<Rightarrow> bytes \<Rightarrow> bytes" where
  "fragment_tag P key header payload = take DF_TAG_LEN (hmac_sha256 P key (header @ payload))"

definition fragment_header :: "u64 \<Rightarrow> u32 \<Rightarrow> u32 \<Rightarrow> u16 \<Rightarrow> u16 \<Rightarrow> u16 \<Rightarrow> bytes" where
  "fragment_header record_id offset tot index cnt payload_len =
     DF_MAGIC @ [DF_VERSION, DF_FLAGS] @ to_le_bytes record_id @ to_le_bytes offset @ to_le_bytes tot
     @ to_le_bytes index @ to_le_bytes cnt @ to_le_bytes payload_len"

definition u32_try_from :: "nat \<Rightarrow> u32 option" where
  "u32_try_from n = (if n < 2 ^ 32 then Some (of_nat n) else None)"

definition fragment_datagram :: "Primitives \<Rightarrow> bytes \<Rightarrow> u64 \<Rightarrow> u32 \<Rightarrow> u32 \<Rightarrow> u16 \<Rightarrow> u16 \<Rightarrow> bytes \<Rightarrow> bytes" where
  "fragment_datagram P key record_id offset tot index cnt payload =
     (let header = fragment_header record_id offset tot index cnt (of_nat (length payload))
      in header @ fragment_tag P key header payload @ payload)"

text \<open>The loop over \<^verbatim>\<open>record.chunks(max_payload).enumerate()\<close>.\<close>

fun fragment_loop :: "Primitives \<Rightarrow> bytes \<Rightarrow> u64 \<Rightarrow> nat \<Rightarrow> u32 \<Rightarrow> u16 \<Rightarrow> nat \<Rightarrow> bytes list
    \<Rightarrow> (DataFragError, bytes list) result" where
  "fragment_loop P key record_id max_payload tot cnt index [] = Ok []"
| "fragment_loop P key record_id max_payload tot cnt index (payload # rest) =
     (case Option.bind (checked_mul index max_payload) u32_try_from of
        None \<Rightarrow> Err RecordTooLarge
      | Some offset \<Rightarrow>
          (case fragment_loop P key record_id max_payload tot cnt (Suc index) rest of
             Inl e \<Rightarrow> Err e
           | Inr fragments \<Rightarrow>
               Ok (fragment_datagram P key record_id offset tot (of_nat index) cnt payload # fragments)))"

definition fragment_record :: "Primitives \<Rightarrow> bytes \<Rightarrow> bytes \<Rightarrow> u64 \<Rightarrow> nat \<Rightarrow> (DataFragError, bytes list) result" where
  "fragment_record P rec key record_id max_payload =
     (if max_payload = 0 then Err BudgetTooSmall
      else if length rec \<le> max_payload then Err NotFragmented
      else if MAX_REASSEMBLED_RECORD < length rec \<or> 2 ^ 32 - 1 < length rec then Err RecordTooLarge
      else (let cnt = div_ceil (length rec) max_payload in
        if MAX_FRAGMENTS < cnt \<or> u16_max < cnt then Err TooManyFragments
        else fragment_loop P key record_id max_payload (of_nat (length rec)) (of_nat cnt) 0
               (chunks max_payload rec)))"

section \<open>Parsing\<close>

definition parse_and_authenticate :: "Primitives \<Rightarrow> bytes \<Rightarrow> bytes \<Rightarrow> (DataFragError, ParsedFragment) result" where
  "parse_and_authenticate P datagram key =
     (if length datagram < HEADER_LEN then Err DfTruncated
      else if \<not> is_data_fragment datagram then Err DfInvalidMetadata
      else if datagram ! 4 \<noteq> DF_VERSION \<or> datagram ! 5 \<noteq> DF_FLAGS then Err DfUnsupported
      else (let record_id = from_le_bytes (slice 6 14 datagram);
                offset = from_le_bytes (slice 14 18 datagram);
                tot = from_le_bytes (slice 18 22 datagram);
                index = from_le_bytes (slice 22 24 datagram);
                cnt = from_le_bytes (slice 24 26 datagram);
                payload_len = unat (from_le_bytes (slice 26 28 datagram) :: u16)
            in if \<not> (2 \<le> unat cnt \<and> unat cnt \<le> MAX_FRAGMENTS) \<or> cnt \<le> index \<or> payload_len = 0 \<or> tot = 0
                  \<or> MAX_REASSEMBLED_RECORD < unat tot \<or> length datagram \<noteq> HEADER_LEN + payload_len
                  \<or> (case checked_add (unat offset) payload_len of None \<Rightarrow> True | Some fin \<Rightarrow> unat tot < fin)
               then Err DfInvalidMetadata
               else if fragment_tag P key (take HEADER_WITHOUT_TAG datagram) (drop HEADER_LEN datagram)
                       \<noteq> slice HEADER_WITHOUT_TAG HEADER_LEN datagram
               then Err DfAuthentication
               else Ok \<lparr>pf_record_id = record_id, pf_offset = offset, pf_total_len = tot, pf_index = index,
                        pf_count = cnt, pf_payload = drop HEADER_LEN datagram\<rparr>))"

section \<open>Reassembly\<close>

definition DataReassembler_new :: DataReassembler where
  "DataReassembler_new = \<lparr>df_entries = [], df_buffered_bytes = 0\<rparr>"

definition df_remove :: "u64 \<Rightarrow> DataReassembler \<Rightarrow> DataReassembler" where
  "df_remove record_id s =
     (case map_of (df_entries s) record_id of
        None \<Rightarrow> s
      | Some entry \<Rightarrow> s\<lparr>df_entries := AList.delete record_id (df_entries s),
                       df_buffered_bytes := df_buffered_bytes s - received_bytes entry\<rparr>)"

definition df_expired :: "instant \<Rightarrow> PendingRecord \<Rightarrow> bool" where
  "df_expired now entry \<longleftrightarrow> DF_REASSEMBLY_TIMEOUT < now - created_at entry"

definition df_expire :: "instant \<Rightarrow> DataReassembler \<Rightarrow> DataReassembler" where
  "df_expire now s = fold df_remove (map fst (filter (\<lambda>e. df_expired now (snd e)) (df_entries s))) s"

definition overlaps :: "ParsedFragment \<Rightarrow> DfChunk option list \<Rightarrow> bool" where
  "overlaps f cs =
     (let new_start = unat (pf_offset f); new_end = new_start + length (pf_payload f)
      in list_ex (\<lambda>c. case c of None \<Rightarrow> False | Some chunk \<Rightarrow>
           (let start = unat (chunk_offset chunk); fin = start + length (chunk_bytes chunk)
            in new_start < fin \<and> start < new_end)) cs)"

fun assemble_chunks :: "DfChunk list \<Rightarrow> bytes \<Rightarrow> (DataFragError, bytes) result" where
  "assemble_chunks [] rec = Ok rec"
| "assemble_chunks (c # cs) rec =
     (if unat (chunk_offset c) \<noteq> length rec then Err DfConflict
      else assemble_chunks cs (rec @ chunk_bytes c))"

definition finish_record :: "PendingRecord \<Rightarrow> (DataFragError, bytes option) result" where
  "finish_record entry =
     (case assemble_chunks (sort_key (\<lambda>c. unat (chunk_offset c)) (map the (filter (\<lambda>c. c \<noteq> None) (slots entry)))) [] of
        Inl e \<Rightarrow> Err e
      | Inr rec \<Rightarrow> if length rec \<noteq> unat (total_len entry) then Err DfConflict else Ok (Some rec))"

definition store_chunk :: "ParsedFragment \<Rightarrow> PendingRecord \<Rightarrow> PendingRecord" where
  "store_chunk f entry = entry\<lparr>
     slots := (slots entry)[unat (pf_index f) := Some \<lparr>chunk_offset = pf_offset f, chunk_bytes = pf_payload f\<rparr>],
     received_count := received_count entry + 1,
     received_bytes := received_bytes entry + length (pf_payload f)\<rparr>"

text \<open>From the byte budget to the end of \<^verbatim>\<open>push_at\<close>; the entry is in the table.\<close>

definition accept_fragment :: "DataReassembler \<Rightarrow> ParsedFragment \<Rightarrow> PendingRecord
    \<Rightarrow> (DataFragError, bytes option) result \<times> DataReassembler" where
  "accept_fragment s f entry0 =
     (if MAX_REASSEMBLY_BYTES < saturating_add (df_buffered_bytes s) (length (pf_payload f))
      then (Err DfResourceLimit, df_remove (pf_record_id f) s)
      else (let entry = store_chunk f entry0;
                buffered = df_buffered_bytes s + length (pf_payload f)
            in if received_count entry \<noteq> frag_count entry
               then (Ok None, s\<lparr>df_entries := AList.update (pf_record_id f) entry (df_entries s),
                                df_buffered_bytes := buffered\<rparr>)
               else (finish_record entry,
                     s\<lparr>df_entries := AList.delete (pf_record_id f) (df_entries s),
                       df_buffered_bytes := buffered - received_bytes entry\<rparr>)))"

definition new_pending :: "instant \<Rightarrow> ParsedFragment \<Rightarrow> PendingRecord" where
  "new_pending now f = \<lparr>created_at = now, total_len = pf_total_len f, frag_count = pf_count f,
     slots = replicate (unat (pf_count f)) None, received_count = 0, received_bytes = 0\<rparr>"

definition push_at :: "Primitives \<Rightarrow> DataReassembler \<Rightarrow> bytes \<Rightarrow> bytes \<Rightarrow> instant
    \<Rightarrow> (DataFragError, bytes option) result \<times> DataReassembler" where
  "push_at P s0 datagram key now =
     (case parse_and_authenticate P datagram key of
        Inl e \<Rightarrow> (Err e, s0)
      | Inr f \<Rightarrow>
          (let s = df_expire now s0; rid = pf_record_id f in
           case map_of (df_entries s) rid of
             Some existing \<Rightarrow>
               if total_len existing \<noteq> pf_total_len f \<or> frag_count existing \<noteq> pf_count f
               then (Err DfConflict, df_remove rid s)
               else (case slots existing ! unat (pf_index f) of
                  Some chunk \<Rightarrow>
                    if chunk_offset chunk = pf_offset f \<and> chunk_bytes chunk = pf_payload f
                    then (Ok None, s) else (Err DfConflict, df_remove rid s)
                | None \<Rightarrow>
                    if overlaps f (slots existing) then (Err DfConflict, df_remove rid s)
                    else accept_fragment s f existing)
           | None \<Rightarrow>
               if MAX_REASSEMBLY_RECORDS \<le> length (df_entries s) then (Err DfResourceLimit, s)
               else (let fresh = new_pending now f
                     in accept_fragment (s\<lparr>df_entries := AList.update rid fresh (df_entries s)\<rparr>) f fresh)))"

section \<open>Every envelope the sender makes is accepted\<close>

lemma length_fragment_header [simp]: "length (fragment_header r off tot i n pl) = 28"
  by (simp add: fragment_header_def DF_MAGIC_def)

lemma length_fragment_tag: "hmac_law P \<Longrightarrow> length (fragment_tag P key h p) = 16"
  by (simp add: fragment_tag_def hmac_law_def DF_TAG_LEN_def)

lemma fragment_header_fields:
  fixes r :: u64 and off tot :: u32 and i n pl :: u16 and rest :: bytes
  defines "d \<equiv> fragment_header r off tot i n pl @ rest"
  shows "is_data_fragment d" "d ! 4 = DF_VERSION" "d ! 5 = DF_FLAGS"
    "from_le_bytes (slice 6 14 d) = r" "from_le_bytes (slice 14 18 d) = off"
    "from_le_bytes (slice 18 22 d) = tot" "from_le_bytes (slice 22 24 d) = i"
    "from_le_bytes (slice 24 26 d) = n" "from_le_bytes (slice 26 28 d) = pl"
  unfolding d_def
  by (simp_all add: is_data_fragment_def fragment_header_def DF_MAGIC_def slice_def wire_simps)

lemma parse_fragment_datagram:
  fixes off tot :: u32 and i n :: u16
  assumes law: "hmac_law P" and n: "2 \<le> unat n" "unat n \<le> MAX_FRAGMENTS" and i: "i < n"
    and p: "payload \<noteq> []" "length payload \<le> 65535" and tot: "unat tot \<le> MAX_REASSEMBLED_RECORD"
    and fits: "unat off + length payload \<le> unat tot"
  shows "parse_and_authenticate P (fragment_datagram P key r off tot i n payload) key =
    Ok \<lparr>pf_record_id = r, pf_offset = off, pf_total_len = tot, pf_index = i, pf_count = n, pf_payload = payload\<rparr>"
proof -
  let ?h = "fragment_header r off tot i n (of_nat (length payload))"
  let ?t = "fragment_tag P key ?h payload"
  define d where "d = fragment_datagram P key r off tot i n payload"
  have d: "d = ?h @ ?t @ payload" by (simp add: d_def fragment_datagram_def Let_def)
  have t: "length ?t = 16" using law by (rule length_fragment_tag)
  have f: "is_data_fragment d" "d ! 4 = DF_VERSION" "d ! 5 = DF_FLAGS"
    "from_le_bytes (slice 6 14 d) = r" "from_le_bytes (slice 14 18 d) = off"
    "from_le_bytes (slice 18 22 d) = tot" "from_le_bytes (slice 22 24 d) = i"
    "from_le_bytes (slice 24 26 d) = n" "from_le_bytes (slice 26 28 d) = (of_nat (length payload) :: u16)"
    unfolding d by (rule fragment_header_fields)+
  have parts: "take HEADER_WITHOUT_TAG d = ?h" "drop HEADER_LEN d = payload"
      "slice HEADER_WITHOUT_TAG HEADER_LEN d = ?t" "length d = HEADER_LEN + length payload"
    using t by (simp_all add: d df_consts slice_def)
  have pl: "unat (of_nat (length payload) :: u16) = length payload" using p by simp
  have "tot \<noteq> 0" using fits p by auto
  moreover have "checked_add (unat off) (length payload) = Some (unat off + length payload)"
    using fits tot by (simp add: checked_add_def usize_max_def df_consts packet_consts)
  ultimately show ?thesis
    unfolding d_def [symmetric]
    using n i p tot fits by (simp add: parse_and_authenticate_def f parts pl Let_def not_le)
qed

section \<open>The pieces of one record\<close>

text \<open>Payload, parsed form and envelope of piece \<open>k\<close> of a record split at \<open>mp\<close> bytes.\<close>

definition piece_count :: "bytes \<Rightarrow> nat \<Rightarrow> nat" where
  "piece_count rec mp = div_ceil (length rec) mp"

definition piece :: "bytes \<Rightarrow> nat \<Rightarrow> nat \<Rightarrow> bytes" where
  "piece rec mp k = take mp (drop (k * mp) rec)"

definition piece_frag :: "u64 \<Rightarrow> bytes \<Rightarrow> nat \<Rightarrow> nat \<Rightarrow> ParsedFragment" where
  "piece_frag rid rec mp k = \<lparr>pf_record_id = rid, pf_offset = of_nat (k * mp),
     pf_total_len = of_nat (length rec), pf_index = of_nat k,
     pf_count = of_nat (piece_count rec mp), pf_payload = piece rec mp k\<rparr>"

definition piece_datagram :: "Primitives \<Rightarrow> bytes \<Rightarrow> u64 \<Rightarrow> bytes \<Rightarrow> nat \<Rightarrow> nat \<Rightarrow> bytes" where
  "piece_datagram P key rid rec mp k = fragment_datagram P key rid (of_nat (k * mp))
     (of_nat (length rec)) (of_nat k) (of_nat (piece_count rec mp)) (piece rec mp k)"

definition splittable :: "bytes \<Rightarrow> nat \<Rightarrow> bool" where
  "splittable rec mp \<longleftrightarrow> 0 < mp \<and> mp < length rec \<and> length rec \<le> MAX_REASSEMBLED_RECORD
     \<and> piece_count rec mp \<le> MAX_FRAGMENTS"

lemma splittable_bounds:
  assumes "splittable rec mp"
  shows "0 < mp" "mp < length rec" "length rec \<le> 16645" "2 \<le> piece_count rec mp" "piece_count rec mp \<le> 64"
proof -
  show mp: "0 < mp" "mp < length rec" "length rec \<le> 16645" "piece_count rec mp \<le> 64"
    using assms by (simp_all add: splittable_def df_consts packet_consts)
  have "1 < piece_count rec mp"
    unfolding piece_count_def using mp by (subst less_div_ceil_iff) simp_all
  then show "2 \<le> piece_count rec mp" by simp
qed

lemma piece_bounds:
  assumes "splittable rec mp" and "k < piece_count rec mp"
  shows "k * mp < length rec" "piece rec mp k \<noteq> []" "length (piece rec mp k) \<le> mp"
    "k * mp + length (piece rec mp k) \<le> length rec" "k < 64"
proof -
  show k: "k * mp < length rec"
    using assms splittable_bounds(1) by (simp add: piece_count_def less_div_ceil_iff)
  then show "piece rec mp k \<noteq> []" using splittable_bounds(1) [OF assms(1)] by (simp add: piece_def)
  show "length (piece rec mp k) \<le> mp" "k * mp + length (piece rec mp k) \<le> length rec"
    using k by (simp_all add: piece_def)
  show "k < 64" using assms(2) splittable_bounds(5) [OF assms(1)] by linarith
qed

lemma fragment_loop_eq:
  assumes "\<And>k. k < length cs \<Longrightarrow> (index + k) * mp < 2 ^ 32"
  shows "fragment_loop P key rid mp tot cnt index cs = Ok (map (\<lambda>k. fragment_datagram P key rid
     (of_nat ((index + k) * mp)) tot (of_nat (index + k)) cnt (cs ! k)) [0..<length cs])"
  using assms
proof (induction cs arbitrary: index)
  case (Cons c cs)
  have "index * mp < 2 ^ 32" using Cons.prems [of 0] by simp
  then have "Option.bind (checked_mul index mp) u32_try_from = Some (of_nat (index * mp))"
    by (simp add: checked_mul_def u32_try_from_def usize_max_def)
  moreover have "fragment_loop P key rid mp tot cnt (Suc index) cs = Ok (map (\<lambda>k. fragment_datagram P key rid
     (of_nat ((Suc index + k) * mp)) tot (of_nat (Suc index + k)) cnt (cs ! k)) [0..<length cs])"
    by (rule Cons.IH) (use Cons.prems [of "Suc _"] in simp)
  moreover have "[0..<length (c # cs)] = 0 # map Suc [0..<length cs]"
    by (simp add: upt_conv_Cons map_Suc_upt del: upt_Suc)
  ultimately show ?case by (simp add: comp_def algebra_simps)
qed simp

lemma fragment_record_pieces:
  assumes "splittable rec mp"
  shows "fragment_record P rec key rid mp = Ok (map (piece_datagram P key rid rec mp) [0..<piece_count rec mp])"
proof -
  note b = splittable_bounds [OF assms]
  have len: "length (chunks mp rec) = piece_count rec mp"
    using b by (simp add: length_chunks piece_count_def)
  have "k * mp < 2 ^ 32" if "k < piece_count rec mp" for k
    using piece_bounds(1) [OF assms that] b(3) by simp
  then have "fragment_loop P key rid mp (of_nat (length rec)) (of_nat (piece_count rec mp)) 0 (chunks mp rec)
      = Ok (map (\<lambda>k. fragment_datagram P key rid (of_nat (k * mp)) (of_nat (length rec)) (of_nat k)
          (of_nat (piece_count rec mp)) (chunks mp rec ! k)) [0..<piece_count rec mp])"
    using fragment_loop_eq [of "chunks mp rec" 0 mp] by (simp add: len)
  moreover have "chunks mp rec ! k = piece rec mp k" if "k < piece_count rec mp" for k
    using that b(1) by (simp add: nth_chunks piece_def piece_count_def)
  ultimately show ?thesis using assms b
    by (simp add: fragment_record_def Let_def splittable_def u16_max_def piece_datagram_def
        flip: piece_count_def)
qed

lemma fragment_record_Ok_splittable:
  "fragment_record P rec key rid mp = Ok ds \<Longrightarrow> splittable rec mp"
  by (auto simp: fragment_record_def splittable_def piece_count_def Let_def split: if_splits)

lemma parse_piece:
  assumes "hmac_law P" and "splittable rec mp" and "k < piece_count rec mp"
  shows "parse_and_authenticate P (piece_datagram P key rid rec mp k) key = Ok (piece_frag rid rec mp k)"
proof -
  note b = splittable_bounds [OF assms(2)] and pb = piece_bounds [OF assms(2,3)]
  have off: "unat (of_nat (k * mp) :: u32) = k * mp" using pb(1) b(3) by (intro unat_of_nat_u32) linarith
  have tot: "unat (of_nat (length rec) :: u32) = length rec" using b(3) by (intro unat_of_nat_u32) linarith
  have n: "unat (of_nat (piece_count rec mp) :: u16) = piece_count rec mp" using b(5) by simp
  have "unat (of_nat k :: u16) = k" using pb(5) by simp
  then have i: "(of_nat k :: u16) < of_nat (piece_count rec mp)"
    using n assms(3) by (simp only: word_less_nat_alt)
  show ?thesis unfolding piece_datagram_def piece_frag_def
  proof (rule parse_fragment_datagram [OF assms(1)])
    show "(of_nat k :: u16) < of_nat (piece_count rec mp)" by (rule i)
    show "unat (of_nat (length rec) :: u32) \<le> MAX_REASSEMBLED_RECORD"
      unfolding tot using b(3) by (simp add: df_consts packet_consts)
    show "length (piece rec mp k) \<le> 65535" using pb(3) b(2,3) by linarith
    show "2 \<le> unat (of_nat (piece_count rec mp) :: u16)" "unat (of_nat (piece_count rec mp) :: u16) \<le> MAX_FRAGMENTS"
      unfolding n using b by (simp_all add: MAX_FRAGMENTS_def)
    show "piece rec mp k \<noteq> []" by (rule pb)
    show "unat (of_nat (k * mp) :: u32) + length (piece rec mp k) \<le> unat (of_nat (length rec) :: u32)"
      unfolding off tot by (rule pb)
  qed
qed

section \<open>The table of pending records\<close>

interpretation df: accounted_table df_entries df_buffered_bytes df_remove received_bytes
  by unfold_locales
    (auto simp: df_remove_def delete_absent map_of_eq_None_iff dest!: map_of_SomeD intro: rev_image_eqI
       split: option.splits)

lemma map_of_df_expire:
  "distinct (map fst (df_entries s)) \<Longrightarrow> map_of (df_entries (df_expire now s)) rid =
     (case map_of (df_entries s) rid of None \<Rightarrow> None | Some e \<Rightarrow> if df_expired now e then None else Some e)"
  unfolding df_expire_def by (rule df.map_of_expire)

lemma df_entries_expire:
  "distinct (map fst (df_entries s)) \<Longrightarrow>
     df_entries (df_expire now s) = filter (\<lambda>e. \<not> df_expired now (snd e)) (df_entries s)"
  unfolding df_expire_def by (rule df.entries_expire)

lemma accounted_df_expire:
  "accounted received_bytes (df_entries s) (df_buffered_bytes s) \<Longrightarrow>
     accounted received_bytes (df_entries (df_expire now s)) (df_buffered_bytes (df_expire now s))"
  unfolding df_expire_def by (rule df.accounted_fold_remove)

lemma df_buffered_expire_le: "df_buffered_bytes (df_expire now s) \<le> df_buffered_bytes s"
  unfolding df_expire_def by (rule df.buffered_fold_remove_le)

section \<open>Reassembly of the pieces in any order\<close>

definition piece_slot :: "bytes \<Rightarrow> nat \<Rightarrow> nat \<Rightarrow> DfChunk" where
  "piece_slot rec mp k = \<lparr>chunk_offset = of_nat (k * mp), chunk_bytes = piece rec mp k\<rparr>"

definition seen_bytes :: "bytes \<Rightarrow> nat \<Rightarrow> nat set \<Rightarrow> nat" where
  "seen_bytes rec mp S = (\<Sum>k\<in>S. length (piece rec mp k))"

text \<open>The entry of a record of which the pieces in \<open>S\<close> have arrived.\<close>

definition entry_with :: "instant \<Rightarrow> bytes \<Rightarrow> nat \<Rightarrow> nat set \<Rightarrow> PendingRecord" where
  "entry_with t rec mp S = \<lparr>created_at = t, total_len = of_nat (length rec),
     frag_count = of_nat (piece_count rec mp),
     slots = map (\<lambda>k. if k \<in> S then Some (piece_slot rec mp k) else None) [0..<piece_count rec mp],
     received_count = of_nat (card S), received_bytes = seen_bytes rec mp S\<rparr>"

lemma received_bytes_entry_with [simp]: "received_bytes (entry_with t rec mp S) = seen_bytes rec mp S"
  by (simp add: entry_with_def)

lemma unat_piece_offset:
  assumes "splittable rec mp" and "k < piece_count rec mp"
  shows "unat (of_nat (k * mp) :: u32) = k * mp"
  using piece_bounds(1) [OF assms] splittable_bounds(3) [OF assms(1)] by (intro unat_of_nat_u32) linarith

lemma pieces_disjoint:
  assumes s: "splittable rec mp" and j: "j < piece_count rec mp" and k: "k < piece_count rec mp" and "j \<noteq> k"
  shows "\<not> (k * mp < j * mp + length (piece rec mp j) \<and> j * mp < k * mp + length (piece rec mp k))"
proof -
  have "j * mp + mp \<le> k * mp \<or> k * mp + mp \<le> j * mp"
    using \<open>j \<noteq> k\<close> mult_le_mono1 [of "Suc j" k mp] mult_le_mono1 [of "Suc k" j mp] by (auto simp: linorder_neq_iff)
  then show ?thesis using piece_bounds(3) [OF s j] piece_bounds(3) [OF s k] by linarith
qed

lemma overlaps_entry_with:
  assumes s: "splittable rec mp" and k: "k < piece_count rec mp" "k \<notin> S"
  shows "\<not> overlaps (piece_frag rid rec mp k) (slots (entry_with t rec mp S))"
proof -
  have "\<not> (k * mp < unat (of_nat (j * mp) :: u32) + length (piece rec mp j)
         \<and> unat (of_nat (j * mp) :: u32) < k * mp + length (piece rec mp k))"
    if "j \<in> S" "j < piece_count rec mp" for j
    unfolding unat_piece_offset [OF s that(2)]
    by (rule pieces_disjoint) (use s k that in auto)
  then show ?thesis
    unfolding overlaps_def entry_with_def piece_frag_def piece_slot_def Let_def
    by (auto simp: list_ex_iff unat_piece_offset [OF s k(1)] simp del: of_nat_mult split: if_splits)
qed

lemma assemble_pieces:
  assumes s: "splittable rec mp" and "i \<le> piece_count rec mp"
  shows "assemble_chunks (map (piece_slot rec mp) [i..<piece_count rec mp]) (take (i * mp) rec) = Ok rec"
  using assms(2)
proof (induction i rule: inc_induct)
  case base
  have "length rec \<le> piece_count rec mp * mp"
    using splittable_bounds(1) [OF s] div_ceil_le_iff [of mp "length rec" "piece_count rec mp"]
    by (simp add: piece_count_def)
  then show ?case by simp
next
  case (step i)
  have "take (i * mp) rec @ piece rec mp i = take (Suc i * mp) rec"
    by (simp add: piece_def take_add add.commute [of mp])
  moreover have "length (take (i * mp) rec) = i * mp"
    using piece_bounds(1) [OF s step(2)] by simp
  ultimately show ?case
    using step by (simp add: upt_conv_Cons piece_slot_def unat_piece_offset [OF s] del: of_nat_mult)
qed

lemma finish_complete:
  assumes s: "splittable rec mp"
  shows "finish_record (entry_with t rec mp {0..<piece_count rec mp}) = Ok (Some rec)"
proof -
  let ?n = "piece_count rec mp"
  have slots: "slots (entry_with t rec mp {0..<?n}) = map Some (map (piece_slot rec mp) [0..<?n])"
    by (simp add: entry_with_def)
  have "map (\<lambda>k. unat (of_nat (k * mp) :: u32)) [0..<?n] = map (\<lambda>k. k * mp) [0..<?n]"
    using unat_piece_offset [OF s] by (intro map_cong) (simp_all del: of_nat_mult)
  moreover have "sorted (map (\<lambda>k. k * mp) [0..<?n])"
    by (intro sorted_map_mono) (auto intro: monoI simp: mono_on_def)
  ultimately have "sorted (map (\<lambda>k. unat (of_nat (k * mp) :: u32)) [0..<?n])" by (simp only:)
  then have "sort_key (\<lambda>c. unat (chunk_offset c)) (map (piece_slot rec mp) [0..<?n]) = map (piece_slot rec mp) [0..<?n]"
    by (intro sort_key_id_if_sorted) (simp add: piece_slot_def comp_def del: of_nat_mult)
  moreover have "unat (total_len (entry_with t rec mp S)) = length rec" for S
    using splittable_bounds(3) [OF s] by (simp add: entry_with_def)
  moreover have "map the (filter (\<lambda>c. c \<noteq> None) (map Some xs)) = xs" for xs :: "DfChunk list"
    by (induction xs) auto
  ultimately show ?thesis
    using assemble_pieces [OF s, of 0] by (simp add: finish_record_def slots comp_def del: of_nat_mult filter_map map_map)
qed

text \<open>The state of a reassembler in which exactly the pieces in \<open>S\<close> of record \<open>rid\<close> are pending,
  with room for the rest of the record.\<close>

definition pending :: "u64 \<Rightarrow> bytes \<Rightarrow> nat \<Rightarrow> instant \<Rightarrow> nat set \<Rightarrow> DataReassembler \<Rightarrow> bool" where
  "pending rid rec mp t S s \<longleftrightarrow> accounted received_bytes (df_entries s) (df_buffered_bytes s)
     \<and> map_of (df_entries s) rid = (if S = {} then None else Some (entry_with t rec mp S))
     \<and> (S = {} \<longrightarrow> length (df_entries s) < MAX_REASSEMBLY_RECORDS)
     \<and> df_buffered_bytes s + (length rec - seen_bytes rec mp S) \<le> MAX_REASSEMBLY_BYTES"

lemma seen_bytes_insert:
  assumes "finite S" "k \<notin> S"
  shows "seen_bytes rec mp (insert k S) = seen_bytes rec mp S + length (piece rec mp k)"
  using assms by (simp add: seen_bytes_def)

lemma seen_bytes_upto: "seen_bytes rec mp {0..<i} = min (i * mp) (length rec)"
proof (induction i)
  case (Suc i)
  then show ?case by (simp add: seen_bytes_def piece_def)
qed (simp add: seen_bytes_def)

lemma seen_bytes_le:
  assumes s: "splittable rec mp" and "S \<subseteq> {0..<piece_count rec mp}"
  shows "seen_bytes rec mp S \<le> length rec"
proof -
  have "seen_bytes rec mp S \<le> seen_bytes rec mp {0..<piece_count rec mp}"
    unfolding seen_bytes_def using assms(2) by (intro sum_mono2) auto
  also have "\<dots> \<le> length rec" by (simp add: seen_bytes_upto)
  finally show ?thesis .
qed

lemma pending_expire:
  assumes "pending rid rec mp t S s" and "now - t \<le> DF_REASSEMBLY_TIMEOUT"
  shows "pending rid rec mp t S (df_expire now s)"
proof -
  have d: "distinct (map fst (df_entries s))" using assms(1) by (simp add: pending_def accounted_def)
  have "length (df_entries (df_expire now s)) \<le> length (df_entries s)"
    by (simp add: df_entries_expire [OF d])
  moreover have "df_buffered_bytes (df_expire now s) \<le> df_buffered_bytes s" by (rule df_buffered_expire_le)
  moreover have "\<not> df_expired now (entry_with t rec mp S)" using assms(2) by (simp add: df_expired_def entry_with_def)
  ultimately show ?thesis using assms(1)
    by (auto simp: pending_def map_of_df_expire [OF d] accounted_df_expire)
qed

lemma store_piece:
  assumes s: "splittable rec mp" and k: "k < piece_count rec mp" "k \<notin> S" and S: "finite S"
  shows "store_chunk (piece_frag rid rec mp k) (entry_with t rec mp S) = entry_with t rec mp (insert k S)"
proof -
  have "unat (of_nat k :: u16) = k" using piece_bounds(5) [OF s k(1)] by simp
  then show ?thesis using k S
    by (simp add: store_chunk_def piece_frag_def entry_with_def seen_bytes_insert)
      (auto intro!: nth_equalityI simp: nth_list_update piece_slot_def)
qed

lemma new_pending_piece: "splittable rec mp \<Longrightarrow> new_pending now (piece_frag rid rec mp k) = entry_with now rec mp {}"
  using splittable_bounds(5) [of rec mp]
  by (simp add: new_pending_def piece_frag_def entry_with_def seen_bytes_def map_replicate_const)

text \<open>Accepting a new piece: the record is delivered with the last one.\<close>

lemma accept_piece:
  assumes s: "splittable rec mp" and k: "k < piece_count rec mp" "k \<notin> S" and S: "S \<subseteq> {0..<piece_count rec mp}"
    and acc: "accounted received_bytes (df_entries s) (df_buffered_bytes s)"
    and ent: "map_of (df_entries s) rid = Some (entry_with t rec mp S)"
    and room: "df_buffered_bytes s + (length rec - seen_bytes rec mp S) \<le> MAX_REASSEMBLY_BYTES"
  shows "if insert k S = {0..<piece_count rec mp}
     then \<exists>s'. accept_fragment s (piece_frag rid rec mp k) (entry_with t rec mp S) = (Ok (Some rec), s')
        \<and> map_of (df_entries s') rid = None
     else \<exists>s'. accept_fragment s (piece_frag rid rec mp k) (entry_with t rec mp S) = (Ok None, s')
        \<and> pending rid rec mp t (insert k S) s'"
proof -
  let ?n = "piece_count rec mp" and ?f = "piece_frag rid rec mp k" and ?S = "insert k S"
  have fin: "finite S" using S finite_subset by blast
  have sub: "?S \<subseteq> {0..<?n}" using S k by auto
  have bytes: "seen_bytes rec mp ?S = seen_bytes rec mp S + length (piece rec mp k)"
    using fin k(2) by (rule seen_bytes_insert)
  have le: "seen_bytes rec mp ?S \<le> length rec" using s sub by (rule seen_bytes_le)
  have [simp]: "pf_payload ?f = piece rec mp k" "pf_record_id ?f = rid" by (simp_all add: piece_frag_def)
  have "df_buffered_bytes s + length (piece rec mp k) \<le> MAX_REASSEMBLY_BYTES" using room le bytes by linarith
  then have budget: "\<not> MAX_REASSEMBLY_BYTES < saturating_add (df_buffered_bytes s) (length (pf_payload ?f))"
    by (simp add: saturating_add_def)
  have "card ?S \<le> card {0..<?n}" using sub by (intro card_mono) simp_all
  moreover have "card ?S = card {0..<?n} \<longleftrightarrow> ?S = {0..<?n}"
    using card_subset_eq [OF finite_atLeastLessThan sub] by metis
  ultimately have card: "card ?S \<le> ?n" "card ?S = ?n \<longleftrightarrow> ?S = {0..<?n}"
    by (simp_all only: card_atLeastLessThan diff_zero)
  have complete: "received_count (entry_with t rec mp ?S) = frag_count (entry_with t rec mp ?S) \<longleftrightarrow> ?S = {0..<?n}"
    using card splittable_bounds(5) [OF s] by (simp add: entry_with_def u16_of_nat_eq_iff)
  note st = store_piece [OF s k fin, of rid t]
  show ?thesis
  proof (cases "?S = {0..<?n}")
    case True
    then show ?thesis using budget finish_complete [OF s] complete
      by (simp add: accept_fragment_def st Let_def AList.delete_conv)
  next
    case False
    let ?s' = "s\<lparr>df_entries := AList.update rid (entry_with t rec mp ?S) (df_entries s),
                 df_buffered_bytes := df_buffered_bytes s + length (piece rec mp k)\<rparr>"
    have "accept_fragment s ?f (entry_with t rec mp S) = (Ok None, ?s')"
      using False budget complete by (simp add: accept_fragment_def st Let_def)
    moreover have "pending rid rec mp t ?S ?s'"
      using acc total_cost_update [OF _ ent, of received_bytes "entry_with t rec mp ?S"] bytes room le
      by (auto simp: pending_def accounted_def distinct_update AList.update_conv)
    ultimately show ?thesis using False by auto
  qed
qed

lemma push_piece_again:
  assumes law: "hmac_law P" and s: "splittable rec mp" and k: "k < piece_count rec mp" "k \<in> S"
    and pend: "pending rid rec mp t S s" and time: "now - t \<le> DF_REASSEMBLY_TIMEOUT"
  shows "push_at P s (piece_datagram P key rid rec mp k) key now = (Ok None, df_expire now s)"
proof -
  have "map_of (df_entries (df_expire now s)) rid = Some (entry_with t rec mp S)"
    using pending_expire [OF pend time] k(2) by (auto simp: pending_def)
  moreover have "unat (of_nat k :: u16) = k" using piece_bounds(5) [OF s k(1)] by simp
  ultimately show ?thesis
    using k by (simp add: push_at_def parse_piece [OF law s k(1)] piece_frag_def Let_def)
      (simp add: entry_with_def piece_slot_def)
qed

lemma push_new_piece:
  assumes law: "hmac_law P" and s: "splittable rec mp" and k: "k < piece_count rec mp" "k \<notin> S"
    and S: "S \<subseteq> {0..<piece_count rec mp}"
    and pend: "pending rid rec mp t S s" and time: "now - t \<le> DF_REASSEMBLY_TIMEOUT" "S = {} \<Longrightarrow> t = now"
  shows "if insert k S = {0..<piece_count rec mp}
     then \<exists>s'. push_at P s (piece_datagram P key rid rec mp k) key now = (Ok (Some rec), s')
        \<and> map_of (df_entries s') rid = None
     else \<exists>s'. push_at P s (piece_datagram P key rid rec mp k) key now = (Ok None, s')
        \<and> pending rid rec mp t (insert k S) s'"
proof -
  let ?f = "piece_frag rid rec mp k" and ?s = "df_expire now s"
  have pe: "pending rid rec mp t S ?s" using pend time(1) by (rule pending_expire)
  have [simp]: "pf_record_id ?f = rid" "unat (pf_index ?f) = k"
    using piece_bounds(5) [OF s k(1)] by (simp_all add: piece_frag_def)
  show ?thesis
  proof (cases "S = {}")
    case True
    let ?s1 = "?s\<lparr>df_entries := AList.update rid (entry_with now rec mp {}) (df_entries ?s)\<rparr>"
    have none: "map_of (df_entries ?s) rid = None" and len: "\<not> MAX_REASSEMBLY_RECORDS \<le> length (df_entries ?s)"
      using pe True by (simp_all add: pending_def not_le)
    have eq: "push_at P s (piece_datagram P key rid rec mp k) key now = accept_fragment ?s1 ?f (entry_with now rec mp {})"
      using none len by (simp add: push_at_def parse_piece [OF law s k(1)] new_pending_piece [OF s] Let_def)
    have zero: "seen_bytes rec mp {} = 0" by (simp add: seen_bytes_def)
    have "accounted received_bytes (df_entries ?s1) (df_buffered_bytes ?s1)"
      using pe none by (simp add: pending_def accounted_def distinct_update update_new map_of_None_iff zero)
    moreover have "map_of (df_entries ?s1) rid = Some (entry_with now rec mp {})" by (simp add: AList.update_conv)
    moreover have "df_buffered_bytes ?s1 + (length rec - seen_bytes rec mp {}) \<le> MAX_REASSEMBLY_BYTES"
      using pe True by (simp add: pending_def)
    ultimately show ?thesis
      using accept_piece [OF s k(1), of "{}" ?s1 rid now] True time(2) unfolding eq by simp
  next
    case False
    then have ent: "map_of (df_entries ?s) rid = Some (entry_with t rec mp S)" using pe by (simp add: pending_def)
    have slot: "slots (entry_with t rec mp S) ! k = None" using k by (simp add: entry_with_def)
    have same: "total_len (entry_with t rec mp S) = pf_total_len ?f" "frag_count (entry_with t rec mp S) = pf_count ?f"
      by (simp_all add: entry_with_def piece_frag_def)
    have "push_at P s (piece_datagram P key rid rec mp k) key now = accept_fragment ?s ?f (entry_with t rec mp S)"
      by (simp add: push_at_def parse_piece [OF law s k(1)] Let_def ent slot same overlaps_entry_with [OF s k])
    moreover have "accounted received_bytes (df_entries ?s) (df_buffered_bytes ?s)"
      "df_buffered_bytes ?s + (length rec - seen_bytes rec mp S) \<le> MAX_REASSEMBLY_BYTES"
      using pe by (simp_all add: pending_def)
    ultimately show ?thesis using accept_piece [OF s k S _ ent] by simp
  qed
qed

section \<open>Whole runs\<close>

text \<open>The reassembler fed a list of datagrams with their arrival times.\<close>

fun push_all :: "Primitives \<Rightarrow> bytes \<Rightarrow> DataReassembler \<Rightarrow> (bytes \<times> instant) list
    \<Rightarrow> (DataFragError, bytes option) result list \<times> DataReassembler" where
  "push_all P key s [] = ([], s)"
| "push_all P key s ((d, now) # rest) =
     (let (r, s1) = push_at P s d key now; (rs, s2) = push_all P key s1 rest in (r # rs, s2))"

definition deliver_pieces :: "Primitives \<Rightarrow> bytes \<Rightarrow> u64 \<Rightarrow> bytes \<Rightarrow> nat \<Rightarrow> (nat \<times> instant) list \<Rightarrow> (bytes \<times> instant) list" where
  "deliver_pieces P key rid rec mp arrivals = map (\<lambda>(k, now). (piece_datagram P key rid rec mp k, now)) arrivals"

lemma push_all_append:
  "push_all P key s (xs @ ys) = (let (rs, s1) = push_all P key s xs; (rs', s2) = push_all P key s1 ys in (rs @ rs', s2))"
  by (induction P key s xs rule: push_all.induct) (simp_all add: Let_def split: prod.splits)

lemma push_incomplete:
  assumes law: "hmac_law P" and s: "splittable rec mp"
    and idx: "fst ` set arrivals \<subseteq> {0..<piece_count rec mp}" "fst ` set arrivals \<noteq> {0..<piece_count rec mp}"
    and t0: "\<And>k now. (k, now) \<in> set arrivals \<Longrightarrow> now - t \<le> DF_REASSEMBLY_TIMEOUT"
    and hd: "arrivals \<noteq> [] \<Longrightarrow> snd (hd arrivals) = t"
    and init: "pending rid rec mp t {} s"
  shows "\<exists>s'. push_all P key s (deliver_pieces P key rid rec mp arrivals) = (replicate (length arrivals) (Ok None), s')
     \<and> pending rid rec mp t (fst ` set arrivals) s'"
  using idx t0 hd
proof (induction arrivals rule: rev_induct)
  case Nil
  then show ?case using init by (simp add: deliver_pieces_def)
next
  case (snoc a as)
  obtain k now where a: "a = (k, now)" by (cases a)
  let ?S = "fst ` set as" and ?n = "piece_count rec mp"
  have sub: "?S \<subseteq> {0..<?n}" and k: "k < ?n" and ne: "insert k ?S \<noteq> {0..<?n}" using snoc.prems(1,2) a by auto
  have "?S \<noteq> {0..<?n}" using ne k by (metis atLeastLessThan_iff insert_absorb le0)
  moreover have "as \<noteq> [] \<Longrightarrow> snd (hd as) = t" using snoc.prems(4) by simp
  moreover have "now - t \<le> DF_REASSEMBLY_TIMEOUT" if "(k, now) \<in> set as" for k now
    using snoc.prems(3) [of k now] that by simp
  ultimately obtain s1 where s1: "push_all P key s (deliver_pieces P key rid rec mp as) = (replicate (length as) (Ok None), s1)"
      "pending rid rec mp t ?S s1"
    using snoc.IH [OF sub] by blast
  have time: "now - t \<le> DF_REASSEMBLY_TIMEOUT" using snoc.prems(3) [of k now] a by simp
  have first: "?S = {} \<Longrightarrow> t = now" using snoc.prems(4) a by simp
  have "\<exists>s'. push_at P s1 (piece_datagram P key rid rec mp k) key now = (Ok None, s') \<and> pending rid rec mp t (insert k ?S) s'"
  proof (cases "k \<in> ?S")
    case True
    then show ?thesis using push_piece_again [OF law s k True s1(2) time] pending_expire [OF s1(2) time]
      by (simp add: insert_absorb)
  next
    case False
    then show ?thesis using push_new_piece [OF law s k False sub s1(2) time first] ne by simp
  qed
  then show ?case using s1 a
    by (auto simp: deliver_pieces_def push_all_append replicate_append_same Let_def)
qed

lemma concat_pieces:
  assumes "splittable rec mp"
  shows "concat (map (piece rec mp) [0..<piece_count rec mp]) = rec"
proof -
  have mp: "0 < mp" using assms by (rule splittable_bounds)
  have "map (piece rec mp) [0..<piece_count rec mp] = chunks mp rec"
    using mp by (intro nth_equalityI) (simp_all add: length_chunks nth_chunks piece_def piece_count_def)
  then show ?thesis using mp by (simp add: concat_chunks)
qed

lemma length_piece_datagram:
  assumes "hmac_law P"
  shows "length (piece_datagram P key rid rec mp k) = HEADER_LEN + length (piece rec mp k)"
  by (simp add: piece_datagram_def fragment_datagram_def Let_def length_fragment_tag [OF assms] df_consts)

lemma reassembly_any_order:
  assumes law: "hmac_law P" and ok: "fragment_record P rec key rid mp = Ok ds"
    and acc: "accounted received_bytes (df_entries s) (df_buffered_bytes s)"
    and fresh: "map_of (df_entries s) rid = None" "length (df_entries s) < MAX_REASSEMBLY_RECORDS"
    and room: "df_buffered_bytes s + length rec \<le> MAX_REASSEMBLY_BYTES"
    and idx: "fst ` set arrivals \<subset> {0..<length ds}" "insert k (fst ` set arrivals) = {0..<length ds}"
    and time: "\<forall>t \<in> insert now (snd ` set arrivals). t - snd (hd arrivals) \<le> DF_REASSEMBLY_TIMEOUT"
  shows "\<exists>s'. push_all P key s (map (\<lambda>(i, t). (ds ! i, t)) (arrivals @ [(k, now)]))
       = (replicate (length arrivals) (Ok None) @ [Ok (Some rec)], s')
     \<and> map_of (df_entries s') rid = None"
proof -
  have sp: "splittable rec mp" using ok by (rule fragment_record_Ok_splittable)
  let ?n = "piece_count rec mp" and ?S = "fst ` set arrivals" and ?t = "snd (hd arrivals)"
  have ds: "ds = map (piece_datagram P key rid rec mp) [0..<?n]"
    using ok fragment_record_pieces [OF sp] by simp
  then have n: "length ds = ?n" by simp
  have sub: "?S \<subseteq> {0..<?n}" "?S \<noteq> {0..<?n}" and k: "k < ?n" "k \<notin> ?S" using idx n by auto
  have "?S \<noteq> {}"
  proof
    assume "?S = {}"
    then have "card {0..<?n} = 1" using idx(2) n by (metis card_1_singleton_iff One_nat_def)
    then show False using splittable_bounds(4) [OF sp] by simp
  qed
  have "pending rid rec mp ?t {} s"
    using acc fresh room by (simp add: pending_def seen_bytes_def)
  then obtain s1 where s1: "push_all P key s (deliver_pieces P key rid rec mp arrivals) = (replicate (length arrivals) (Ok None), s1)"
      "pending rid rec mp ?t ?S s1"
    using push_incomplete [OF law sp sub] time by (metis image_eqI insertCI snd_conv)
  have tm: "now - ?t \<le> DF_REASSEMBLY_TIMEOUT" using time by simp
  have full: "insert k ?S = {0..<?n}" using idx(2) n by simp
  have ne: "?S = {} \<Longrightarrow> ?t = now" using \<open>?S \<noteq> {}\<close> by blast
  obtain s2 where s2: "push_at P s1 (piece_datagram P key rid rec mp k) key now = (Ok (Some rec), s2)"
      "map_of (df_entries s2) rid = None"
    using push_new_piece [OF law sp k sub(1) s1(2) tm ne, of key, unfolded if_P [OF full]] by blast
  have "map (\<lambda>(i, t). (ds ! i, t)) (arrivals @ [(k, now)]) = deliver_pieces P key rid rec mp (arrivals @ [(k, now)])"
    using sub(1) k by (auto simp: ds deliver_pieces_def)
  moreover have "push_all P key s (deliver_pieces P key rid rec mp (arrivals @ [(k, now)]))
      = (replicate (length arrivals) (Ok None) @ [Ok (Some rec)], s2)"
    using s1 s2 by (simp add: push_all_append deliver_pieces_def)
  ultimately show ?thesis using s2(2) by (simp only: prod.inject) blast
qed

text \<open>
  C22. Fragmenting a sealed record: when \<open>fragment_record\<close> succeeds it makes exactly
  \<open>\<lceil>length / max_payload\<rceil>\<close> datagrams, at least 2 and at most \<open>MAX_FRAGMENTS\<close>, none longer than
  \<open>HEADER_LEN + max_payload\<close>; the receiver authenticates every one of them with the same key and
  reads back the record id, the total length, its index and the count; and the payloads in index
  order are the record.
\<close>

theorem fragments_carry_the_record:
  assumes law: "hmac_law P" and ok: "fragment_record P rec key rid mp = Ok ds"
  shows "length ds = div_ceil (length rec) mp \<and> 2 \<le> length ds \<and> length ds \<le> MAX_FRAGMENTS
     \<and> (\<forall>d \<in> set ds. length d \<le> HEADER_LEN + mp)
     \<and> (\<exists>fs. map (\<lambda>d. parse_and_authenticate P d key) ds = map Ok fs \<and> concat (map pf_payload fs) = rec
          \<and> (\<forall>k < length fs. pf_record_id (fs ! k) = rid \<and> unat (pf_total_len (fs ! k)) = length rec
               \<and> unat (pf_index (fs ! k)) = k \<and> unat (pf_count (fs ! k)) = length ds))"
proof -
  have s: "splittable rec mp" using ok by (rule fragment_record_Ok_splittable)
  note b = splittable_bounds [OF s]
  have ds: "ds = map (piece_datagram P key rid rec mp) [0..<piece_count rec mp]"
    using ok fragment_record_pieces [OF s] by simp
  have "length ds = div_ceil (length rec) mp \<and> 2 \<le> length ds \<and> length ds \<le> MAX_FRAGMENTS"
    using b by (simp add: ds piece_count_def MAX_FRAGMENTS_def)
  moreover have "\<forall>d \<in> set ds. length d \<le> HEADER_LEN + mp"
    using piece_bounds(3) [OF s] by (auto simp: ds length_piece_datagram [OF law])
  moreover
  let ?fs = "map (piece_frag rid rec mp) [0..<piece_count rec mp]"
  have "map (\<lambda>d. parse_and_authenticate P d key) ds = map Ok ?fs"
    using parse_piece [OF law s] by (simp add: ds comp_def)
  moreover have "concat (map pf_payload ?fs) = rec"
    using concat_pieces [OF s] by (simp add: comp_def piece_frag_def)
  moreover have "pf_record_id (?fs ! k) = rid \<and> unat (pf_total_len (?fs ! k)) = length rec
      \<and> unat (pf_index (?fs ! k)) = k \<and> unat (pf_count (?fs ! k)) = length ds" if "k < length ?fs" for k
    using that b piece_bounds(5) [OF s, of k] by (simp add: ds piece_frag_def)
  ultimately show ?thesis by blast
qed

definition demo_record :: bytes where
  "demo_record = [1, 2, 3, 4, 5]"

definition demo_key :: bytes where
  "demo_key = replicate 32 7"

lemma demo_splittable: "splittable demo_record 2" "piece_count demo_record 2 = 3"
  by (simp_all add: splittable_def demo_record_def piece_count_def div_ceil_def df_consts packet_consts)

lemma demo_fragments:
  "fragment_record plain_primitives demo_record demo_key 9 2
     = Ok (map (piece_datagram plain_primitives demo_key 9 demo_record 2) [0..<3])"
  using fragment_record_pieces [OF demo_splittable(1)] by (simp add: demo_splittable(2))

theorem fragments_carry_the_record_witness:
  "list_all (\<lambda>d. length d \<le> HEADER_LEN + 2) (map (piece_datagram plain_primitives demo_key 9 demo_record 2) [0..<3])"
  unfolding list_all_iff
  using fragments_carry_the_record [OF plain_primitives_laws(3) demo_fragments] by blast

text \<open>
  C7. Reassembly does not depend on the order of arrival, and duplicates do no harm: the pieces of a
  record arrive in any order, any of them any number of times, within the reassembly timeout of the
  first one, at a reassembler (in any state of its other records) with a free entry and room for the
  record. Every arrival before the one that completes the record returns nothing and no error,
  and the completing one returns exactly the record and frees its entry.
\<close>

theorem reassembles_in_any_order:
  assumes law: "hmac_law P" and ok: "fragment_record P rec key rid mp = Ok ds"
    and acc: "accounted received_bytes (df_entries s) (df_buffered_bytes s)"
    and fresh: "map_of (df_entries s) rid = None" "length (df_entries s) < MAX_REASSEMBLY_RECORDS"
    and room: "df_buffered_bytes s + length rec \<le> MAX_REASSEMBLY_BYTES"
    and idx: "fst ` set arrivals \<subset> {0..<length ds}" "insert k (fst ` set arrivals) = {0..<length ds}"
    and time: "\<forall>t \<in> insert now (snd ` set arrivals). t - snd (hd arrivals) \<le> DF_REASSEMBLY_TIMEOUT"
  shows "\<exists>s'. push_all P key s (map (\<lambda>(i, t). (ds ! i, t)) (arrivals @ [(k, now)]))
       = (replicate (length arrivals) (Ok None) @ [Ok (Some rec)], s')
     \<and> map_of (df_entries s') rid = None"
  using assms by (rule reassembly_any_order)

definition demo_arrivals :: "(nat \<times> instant) list" where
  "demo_arrivals = [(2, 5), (0, 6), (2, 7)]"

lemma demo_arrivals_indexes:
  "insert 1 (fst ` set demo_arrivals) = {0..<3}" "fst ` set demo_arrivals \<subset> {0..<3}"
  by code_simp+

theorem reassembles_in_any_order_witness:
  "\<exists>s'. push_all plain_primitives demo_key DataReassembler_new
      (map (\<lambda>(i, t). (map (piece_datagram plain_primitives demo_key 9 demo_record 2) [0..<3] ! i, t)) (demo_arrivals @ [(1, 8)]))
    = (replicate (length demo_arrivals) (Ok None) @ [Ok (Some demo_record)], s') \<and> map_of (df_entries s') 9 = None"
proof (rule reassembles_in_any_order [OF plain_primitives_laws(3) demo_fragments])
  show "\<forall>t \<in> insert 8 (snd ` set demo_arrivals). t - snd (hd demo_arrivals) \<le> DF_REASSEMBLY_TIMEOUT"
    by (simp add: demo_arrivals_def DF_REASSEMBLY_TIMEOUT_def)
qed (simp_all add: demo_arrivals_indexes [simplified] DataReassembler_new_def accounted_def df_consts demo_record_def)

section \<open>Resource limits against any sender\<close>

text \<open>What a pending record owns: a slot for every piece, with the counters the filled slots give,
  and at least one piece missing.\<close>

definition filled :: "DfChunk option list \<Rightarrow> nat" where
  "filled cs = length (filter (\<lambda>c. c \<noteq> None) cs)"

definition held_bytes :: "DfChunk option list \<Rightarrow> nat" where
  "held_bytes cs = sum_list (map (\<lambda>c. case c of None \<Rightarrow> 0 | Some ch \<Rightarrow> length (chunk_bytes ch)) cs)"

definition entry_wf :: "PendingRecord \<Rightarrow> bool" where
  "entry_wf e \<longleftrightarrow> length (slots e) = unat (frag_count e) \<and> unat (frag_count e) \<le> MAX_FRAGMENTS
     \<and> unat (received_count e) = filled (slots e) \<and> received_bytes e = held_bytes (slots e)"

definition reassembler_inv :: "DataReassembler \<Rightarrow> bool" where
  "reassembler_inv s \<longleftrightarrow> accounted received_bytes (df_entries s) (df_buffered_bytes s)
     \<and> length (df_entries s) \<le> MAX_REASSEMBLY_RECORDS \<and> df_buffered_bytes s \<le> MAX_REASSEMBLY_BYTES
     \<and> (\<forall>(rid, e) \<in> set (df_entries s). entry_wf e \<and> filled (slots e) < length (slots e))"

lemma filled_update:
  "i < length cs \<Longrightarrow> cs ! i = None \<Longrightarrow> filled (cs[i := Some c]) = Suc (filled cs)"
  unfolding filled_def by (induction cs arbitrary: i) (auto split: nat.split simp: nth_Cons)

lemma held_bytes_update:
  "i < length cs \<Longrightarrow> cs ! i = None \<Longrightarrow> held_bytes (cs[i := Some c]) = held_bytes cs + length (chunk_bytes c)"
  unfolding held_bytes_def by (induction cs arbitrary: i) (auto split: nat.split simp: nth_Cons)

lemma filled_le: "filled cs \<le> length cs"
  by (simp add: filled_def)

lemma parsed_bounds:
  assumes "parse_and_authenticate P d key = Ok f"
  shows "2 \<le> unat (pf_count f)" "unat (pf_count f) \<le> MAX_FRAGMENTS" "unat (pf_index f) < unat (pf_count f)"
    "pf_payload f \<noteq> []" "unat (pf_total_len f) \<le> MAX_REASSEMBLED_RECORD"
    "unat (pf_offset f) + length (pf_payload f) \<le> unat (pf_total_len f)"
  using assms
  by (auto simp: parse_and_authenticate_def Let_def word_le_nat_alt checked_add_def split: if_splits option.splits)

lemma store_chunk_wf:
  assumes "entry_wf e" and "unat (pf_index f) < length (slots e)" and "slots e ! unat (pf_index f) = None"
  shows "entry_wf (store_chunk f e)"
    "received_count (store_chunk f e) \<noteq> frag_count (store_chunk f e) \<Longrightarrow>
       filled (slots (store_chunk f e)) < length (slots (store_chunk f e))"
    "received_bytes (store_chunk f e) = received_bytes e + length (pf_payload f)"
proof -
  let ?cs = "slots (store_chunk f e)"
  have up: "filled ?cs = Suc (filled (slots e))" "held_bytes ?cs = held_bytes (slots e) + length (pf_payload f)"
    using assms(2,3) by (simp_all add: store_chunk_def filled_update held_bytes_update)
  have "filled ?cs \<le> length ?cs" by (rule filled_le)
  then have "filled ?cs \<le> unat (frag_count e)" using assms(1) by (simp add: entry_wf_def store_chunk_def)
  moreover have "unat (received_count e + 1) = Suc (unat (received_count e))"
    using assms(1) calculation up(1) by (simp add: unat_plus_if' entry_wf_def MAX_FRAGMENTS_def)
  ultimately show wf: "entry_wf (store_chunk f e)"
    using assms(1) up by (simp add: entry_wf_def store_chunk_def)
  then show "filled ?cs < length ?cs" if "received_count (store_chunk f e) \<noteq> frag_count (store_chunk f e)"
    using that filled_le [of ?cs] unsigned_word_eqI [of "received_count (store_chunk f e)" "frag_count (store_chunk f e)"]
    by (metis entry_wf_def le_neq_implies_less)
  show "received_bytes (store_chunk f e) = received_bytes e + length (pf_payload f)" by (simp add: store_chunk_def)
qed

lemma reassembler_inv_remove: "reassembler_inv s \<Longrightarrow> reassembler_inv (df_remove rid s)"
  using df.accounted_remove [of s rid] df.buffered_remove_le [of rid s] set_delete_subset [of rid "df_entries s"]
    length_delete_le' [of rid "df_entries s"]
  by (auto simp: reassembler_inv_def df.entries_remove)

lemma reassembler_inv_expire: "reassembler_inv s \<Longrightarrow> reassembler_inv (df_expire now s)"
proof -
  have "reassembler_inv (fold df_remove ks s)" if "reassembler_inv s" for ks s
    using that by (induction ks arbitrary: s) (simp_all add: reassembler_inv_remove)
  then show "reassembler_inv s \<Longrightarrow> reassembler_inv (df_expire now s)" by (simp add: df_expire_def)
qed

text \<open>The entry of the fragment is in the table, and its slot is free.\<close>

lemma accept_fragment_inv:
  assumes inv: "accounted received_bytes (df_entries s) (df_buffered_bytes s)"
      "length (df_entries s) \<le> MAX_REASSEMBLY_RECORDS" "df_buffered_bytes s \<le> MAX_REASSEMBLY_BYTES"
    and others: "\<And>r e'. (r, e') \<in> set (df_entries s) \<Longrightarrow> entry_wf e' \<and> filled (slots e') < length (slots e')"
    and ent: "map_of (df_entries s) (pf_record_id f) = Some e"
    and idx: "unat (pf_index f) < length (slots e)" "slots e ! unat (pf_index f) = None"
  shows "reassembler_inv (snd (accept_fragment s f e))"
proof (cases "MAX_REASSEMBLY_BYTES < saturating_add (df_buffered_bytes s) (length (pf_payload f))")
  case True
  have "reassembler_inv s" using inv others by (auto simp: reassembler_inv_def)
  with True show ?thesis by (simp add: accept_fragment_def reassembler_inv_remove)
next
  case False
  let ?rid = "pf_record_id f" and ?e = "store_chunk f e" and ?b = "df_buffered_bytes s + length (pf_payload f)"
  have b: "?b \<le> MAX_REASSEMBLY_BYTES"
    using False by (simp add: saturating_add_def usize_max_def df_consts min_def split: if_splits)
  have wf: "entry_wf e" using others map_of_SomeD [OF ent] by blast
  note st = store_chunk_wf [OF wf idx]
  have cost: "?b = total_cost received_bytes (AList.update ?rid ?e (df_entries s))"
    using inv(1) total_cost_update [OF _ ent, of received_bytes ?e] st(3) by (simp add: accounted_def)
  show ?thesis
  proof (cases "received_count ?e = frag_count ?e")
    case True
    have "total_cost received_bytes (AList.delete ?rid (df_entries s)) + received_bytes ?e = ?b"
      using inv(1) total_cost_delete [OF _ ent, of received_bytes] st(3) by (simp add: accounted_def)
    then show ?thesis using True False inv others b set_delete_subset [of ?rid "df_entries s"]
        length_delete_le' [of ?rid "df_entries s"]
      by (auto simp: accept_fragment_def Let_def reassembler_inv_def accounted_def distinct_delete)
  next
    case neq: False
    then show ?thesis using False inv(1,2) others b cost st set_update_subset [of ?rid ?e "df_entries s"]
      by (auto simp: accept_fragment_def Let_def reassembler_inv_def accounted_def distinct_update
          length_update_present [OF ent])
  qed
qed

lemma new_pending_wf:
  assumes "parse_and_authenticate P d key = Ok f"
  shows "entry_wf (new_pending now f)" "filled (slots (new_pending now f)) < length (slots (new_pending now f))"
    "unat (pf_index f) < length (slots (new_pending now f))" "slots (new_pending now f) ! unat (pf_index f) = None"
    "received_bytes (new_pending now f) = 0"
  using parsed_bounds [OF assms]
  by (simp_all add: new_pending_def entry_wf_def filled_def held_bytes_def sum_list_replicate)

lemma push_at_inv:
  assumes inv: "reassembler_inv s"
  shows "reassembler_inv (snd (push_at P s d key now))"
proof (cases "parse_and_authenticate P d key")
  case (Inl e)
  then show ?thesis using inv by (simp add: push_at_def)
next
  case (Inr f)
  let ?s = "df_expire now s" and ?rid = "pf_record_id f"
  have pe: "reassembler_inv ?s" using inv by (rule reassembler_inv_expire)
  note pb = parsed_bounds [OF Inr]
  show ?thesis
  proof (cases "map_of (df_entries ?s) ?rid")
    case None
    let ?e = "new_pending now f"
    let ?s1 = "?s\<lparr>df_entries := AList.update ?rid ?e (df_entries ?s)\<rparr>"
    note nw = new_pending_wf [OF Inr, of now]
    have up: "AList.update ?rid ?e (df_entries ?s) = df_entries ?s @ [(?rid, ?e)]"
      using None by (simp add: update_new map_of_None_iff)
    show ?thesis
    proof (cases "MAX_REASSEMBLY_RECORDS \<le> length (df_entries ?s)")
      case False
      have "map_of (df_entries ?s1) ?rid = Some ?e" by (simp add: AList.update_conv)
      then have "reassembler_inv (snd (accept_fragment ?s1 f ?e))"
        by (rule accept_fragment_inv [rotated 4])
          (use pe nw None False in \<open>auto simp: up reassembler_inv_def accounted_def map_of_None_iff\<close>)
      with None False show ?thesis by (simp add: push_at_def Inr Let_def)
    qed (use None pe in \<open>simp add: push_at_def Inr Let_def\<close>)
  next
    case (Some e)
    have wf: "entry_wf e" using pe map_of_SomeD [OF Some] by (auto simp: reassembler_inv_def)
    have "reassembler_inv (snd (accept_fragment ?s f e))"
      if "frag_count e = pf_count f" "slots e ! unat (pf_index f) = None"
      by (rule accept_fragment_inv) (use pe Some wf pb that in \<open>auto simp: reassembler_inv_def entry_wf_def\<close>)
    then show ?thesis using Some pe
      by (simp add: push_at_def Inr Let_def reassembler_inv_remove split: option.split)
  qed
qed

lemma push_all_inv: "reassembler_inv s \<Longrightarrow> reassembler_inv (snd (push_all P key s datagrams))"
proof (induction datagrams arbitrary: s)
  case (Cons a datagrams)
  then show ?case
    using push_at_inv [OF Cons.prems, of P "fst a" key "snd a"]
    by (cases a) (simp add: Let_def case_prod_unfold)
qed simp

text \<open>
  C23. Whatever datagrams arrive, at whatever times and under whatever keys, authentic or not: a
  reassembler holds at most \<open>MAX_REASSEMBLY_RECORDS\<close> records and \<open>MAX_REASSEMBLY_BYTES\<close>
  payload bytes, its byte counter is exactly the sum of what its entries hold, every entry has as many
  slots as it announced pieces (so the slot a fragment indexes exists) with exact counters,
  and no complete record is left in the table.
\<close>

theorem reassembler_stays_bounded:
  "reassembler_inv (snd (push_all P key DataReassembler_new datagrams))"
  by (rule push_all_inv) (simp add: reassembler_inv_def DataReassembler_new_def accounted_def)

section \<open>Arrival in order\<close>

definition df_keys :: "DataReassembler \<Rightarrow> u64 set" where
  "df_keys s = fst ` set (df_entries s)"

lemma keys_remove: "df_keys (df_remove rid s) \<subseteq> df_keys s"
  using set_delete_subset [of rid "df_entries s"] by (auto simp: df_keys_def df.entries_remove)

lemma keys_expire: "df_keys (df_expire now s) \<subseteq> df_keys s"
proof -
  have "df_keys (fold df_remove ks s) \<subseteq> df_keys s" for ks s
  proof (induction ks arbitrary: s)
    case (Cons k ks)
    then show ?case using order_trans [OF Cons.IH keys_remove] by simp
  qed simp
  then show ?thesis by (simp add: df_expire_def)
qed

lemma keys_update: "df_keys (s\<lparr>df_entries := AList.update rid e (df_entries s)\<rparr>) \<subseteq> insert rid (df_keys s)"
  using set_update_subset [of rid e "df_entries s"] by (auto simp: df_keys_def)

lemma keys_accept: "df_keys (snd (accept_fragment s f e)) \<subseteq> insert (pf_record_id f) (df_keys s)"
  using keys_remove [of "pf_record_id f" s] set_delete_subset [of "pf_record_id f" "df_entries s"]
    set_update_subset [of "pf_record_id f" "store_chunk f e" "df_entries s"]
  by (auto simp: accept_fragment_def Let_def df_keys_def)

lemma keys_push:
  assumes "parse_and_authenticate P d key = Ok f"
  shows "df_keys (snd (push_at P s d key now)) \<subseteq> insert (pf_record_id f) (df_keys s)"
proof -
  let ?s = "df_expire now s" and ?rid = "pf_record_id f"
  have "df_keys (snd (accept_fragment (?s\<lparr>df_entries := AList.update ?rid e (df_entries ?s)\<rparr>) f e)) \<subseteq> insert ?rid (df_keys ?s)" for e
    using keys_accept [of "?s\<lparr>df_entries := AList.update ?rid e (df_entries ?s)\<rparr>" f e] keys_update [of ?rid e ?s] by blast
  moreover have "df_keys (snd (accept_fragment ?s f e)) \<subseteq> insert ?rid (df_keys ?s)" for e by (rule keys_accept)
  moreover have "df_keys (df_remove ?rid ?s) \<subseteq> insert ?rid (df_keys ?s)" using keys_remove by blast
  moreover have "df_keys ?s \<subseteq> insert ?rid (df_keys ?s)" by blast
  ultimately have "df_keys (snd (push_at P s d key now)) \<subseteq> insert ?rid (df_keys ?s)"
    by (simp add: push_at_def assms Let_def split: option.split)
  then show ?thesis using keys_expire [of now s] by blast
qed

lemma push_all_keys:
  assumes "\<forall>x \<in> set xs. \<exists>f. parse_and_authenticate P (fst x) key = Ok f \<and> pf_record_id f = rid"
  shows "df_keys (snd (push_all P key s xs)) \<subseteq> insert rid (df_keys s)"
  using assms
proof (induction xs arbitrary: s)
  case (Cons x xs)
  obtain d t where x: "x = (d, t)" by (cases x)
  obtain f where f: "parse_and_authenticate P d key = Ok f" "pf_record_id f = rid" using Cons.prems x by auto
  let ?s = "snd (push_at P s d key t)"
  have "df_keys (snd (push_all P key ?s xs)) \<subseteq> insert rid (df_keys ?s)" using Cons by simp
  moreover have "df_keys ?s \<subseteq> insert rid (df_keys s)" using keys_push [OF f(1), of s t] f(2) by simp
  ultimately show ?case by (simp add: x Let_def split_beta) blast
qed auto

text \<open>The datagrams of one record, in order and in time, at a reassembler with nothing pending: the
  last one returns the record, and nothing is pending again.\<close>

lemma pieces_in_order:
  assumes law: "hmac_law P" and ok: "fragment_record P rec key rid mp = Ok ds"
    and empty: "df_entries s = []" "df_buffered_bytes s = 0"
    and ts: "length ts = length ds" "\<forall>t \<in> set ts. t - hd ts \<le> DF_REASSEMBLY_TIMEOUT"
  shows "\<exists>s'. push_all P key s (zip ds ts) = (replicate (length ds - 1) (Ok None) @ [Ok (Some rec)], s')
    \<and> df_entries s' = [] \<and> df_buffered_bytes s' = 0"
proof -
  have sp: "splittable rec mp" using ok by (rule fragment_record_Ok_splittable)
  have ds: "ds = map (piece_datagram P key rid rec mp) [0..<piece_count rec mp]"
    using ok fragment_record_pieces [OF sp] by simp
  have n: "2 \<le> length ds" using splittable_bounds(4) [OF sp] ds by simp
  define m where "m = length ds - 1"
  have m: "length ds = Suc m" "length ts = Suc m" "0 < m" using n ts(1) by (simp_all add: m_def)
  let ?as = "zip [0..<m] (butlast ts)"
  have ne: "ts \<noteq> []" "length ?as = m" "?as \<noteq> []" using m by (auto simp: zip_eq_Nil_iff simp flip: length_0_conv)
  have z: "zip ds ts = map (\<lambda>(i, t). (ds ! i, t)) (?as @ [(m, last ts)])"
    using m ne(1) by (intro nth_equalityI) (auto simp: nth_append nth_butlast last_conv_nth less_Suc_eq)
  have fst_as: "fst ` set ?as = {0..<m}"
    using m by (simp add: set_map [symmetric] del: set_map)
  have "\<forall>x \<in> set (zip ds ts). \<exists>f. parse_and_authenticate P (fst x) key = Ok f \<and> pf_record_id f = rid"
    using parse_piece [OF law sp] by (fastforce simp: ds piece_frag_def dest: set_zip_leftD)
  from push_all_keys [OF this, of s] have keys: "df_keys (snd (push_all P key s (zip ds ts))) \<subseteq> {rid}"
    using empty by (simp add: df_keys_def)
  have inv: "reassembler_inv s" using empty by (simp add: reassembler_inv_def accounted_def)
  have acc: "accounted received_bytes (df_entries s) (df_buffered_bytes s)" using inv by (simp add: reassembler_inv_def)
  have "hd (butlast ts) = hd ts" "butlast ts \<noteq> []" using m by (cases ts; auto)+
  then have hd: "snd (hd ?as) = hd ts" using m(3) by (simp add: hd_zip)
  have time: "\<forall>t \<in> insert (last ts) (snd ` set ?as). t - snd (hd ?as) \<le> DF_REASSEMBLY_TIMEOUT"
    using ts(2) ne(1) unfolding hd by (auto dest!: set_zip_rightD in_set_butlastD)
  have room: "df_buffered_bytes s + length rec \<le> MAX_REASSEMBLY_BYTES"
    using sp empty(2) by (simp add: splittable_def df_consts MAX_REASSEMBLED_RECORD_def packet_consts)
  have idx: "fst ` set ?as \<subset> {0..<length ds}" "insert m (fst ` set ?as) = {0..<length ds}"
    unfolding fst_as using m by auto
  obtain s' where s': "push_all P key s (zip ds ts) = (replicate (length ?as) (Ok None) @ [Ok (Some rec)], s')"
      "map_of (df_entries s') rid = None"
    using reassembly_any_order [OF law ok acc _ _ room idx time] empty unfolding z by (auto simp: df_consts)
  have "rid \<notin> df_keys s'" using s'(2) by (simp add: df_keys_def map_of_eq_None_iff)
  then have "df_keys s' = {}" using keys s'(1) by auto
  then have e: "df_entries s' = []" by (simp add: df_keys_def)
  have "reassembler_inv s'" using push_all_inv [OF inv, of P key "zip ds ts"] s'(1) by simp
  then have "df_buffered_bytes s' = 0" using e by (simp add: reassembler_inv_def accounted_def)
  then show ?thesis using s'(1) e ne(2) m(1) by auto
qed

end
