(* ===== verification/Udp_Frag.thy ===== *)
theory Udp_Frag
  imports Data_Frag
begin

text \<open>
  Fragmentation of the UDP handshake messages, junk datagrams and the path-MTU probe datagrams
  (\<^verbatim>\<open>protocol/udp_frag.rs\<close>). Random padding is an argument of the builders. The model's clock readings are
  arguments as well. \<^verbatim>\<open>i32\<close> values of the probe ladder are integers.
\<close>

section \<open>Constants\<close>

definition OBFS_NONCE_LEN :: nat where "OBFS_NONCE_LEN = 12"
definition OBFS_SEAL_OVERHEAD :: nat where "OBFS_SEAL_OVERHEAD = 1 + OBFS_NONCE_LEN"
definition MTU_MIN :: nat where "MTU_MIN = 576"

definition FRAG_MAGIC :: bytes where "FRAG_MAGIC = [0xF0, 0x9B, 0x71]"
definition FRAG_HDR_LEN :: nat where "FRAG_HDR_LEN = length FRAG_MAGIC + 3"
definition IPV6_MIN_MTU :: nat where "IPV6_MIN_MTU = 1280"
definition OUTER_QUIC :: nat where "OUTER_QUIC = QUIC_LONG_HEADER_EMITTED"
definition OUTER_OBFS_SEAL :: nat where "OUTER_OBFS_SEAL = OBFS_SEAL_OVERHEAD"
definition OUTER_UDP :: nat where "OUTER_UDP = 8"
definition OUTER_IPV6 :: nat where "OUTER_IPV6 = 40"
definition OUTER_RESERVE :: nat where "OUTER_RESERVE = 32"
definition MAX_CHUNK :: nat where
  "MAX_CHUNK = IPV6_MIN_MTU - OUTER_IPV6 - OUTER_UDP - OUTER_OBFS_SEAL - OUTER_QUIC - OUTER_RESERVE - FRAG_HDR_LEN"
definition MAX_CHUNK_ACCEPT :: nat where "MAX_CHUNK_ACCEPT = 1200"
definition MAX_FRAGS :: u8 where "MAX_FRAGS = 24"
definition UF_REASSEMBLY_TIMEOUT :: duration where "UF_REASSEMBLY_TIMEOUT = duration_secs 10"
definition MSG_CLIENT_HELLO :: u8 where "MSG_CLIENT_HELLO = 1"
definition MSG_SERVER_HELLO :: u8 where "MSG_SERVER_HELLO = 2"
definition MSG_JUNK :: u8 where "MSG_JUNK = 3"
definition MSG_MTU_PROBE :: u8 where "MSG_MTU_PROBE = 4"
definition MSG_MTU_PROBE_ACK :: u8 where "MSG_MTU_PROBE_ACK = 5"
definition MSG_AUTH_OK :: u8 where "MSG_AUTH_OK = 6"
definition PROBE_BODY_LEN :: nat where "PROBE_BODY_LEN = 4"
definition MSG_MTU_PROBE_V2 :: u8 where "MSG_MTU_PROBE_V2 = 7"
definition MSG_MTU_PROBE_ACK_V2 :: u8 where "MSG_MTU_PROBE_ACK_V2 = 8"
definition PROBE_V2_BODY_LEN :: nat where "PROBE_V2_BODY_LEN = 18"
definition UDP_RECORD_PROBE_OVERHEAD :: nat where "UDP_RECORD_PROBE_OVERHEAD = 48"

lemmas uf_outer = QUIC_LONG_HEADER_EMITTED_def OBFS_SEAL_OVERHEAD_def OBFS_NONCE_LEN_def IPV6_MIN_MTU_def OUTER_QUIC_def
  OUTER_OBFS_SEAL_def OUTER_UDP_def OUTER_IPV6_def OUTER_RESERVE_def
lemmas uf_msgs = MSG_CLIENT_HELLO_def MSG_SERVER_HELLO_def MSG_JUNK_def MSG_MTU_PROBE_def MSG_MTU_PROBE_ACK_def
  MSG_AUTH_OK_def MSG_MTU_PROBE_V2_def MSG_MTU_PROBE_ACK_V2_def

lemma uf_consts: "FRAG_HDR_LEN = 6" "MAX_CHUNK = 1163" "MAX_CHUNK_ACCEPT = 1200" "PROBE_BODY_LEN = 4" "PROBE_V2_BODY_LEN = 18"
  by (simp_all add: FRAG_HDR_LEN_def FRAG_MAGIC_def MAX_CHUNK_def uf_outer MAX_CHUNK_ACCEPT_def PROBE_BODY_LEN_def
      PROBE_V2_BODY_LEN_def)

section \<open>The probe ladder\<close>

text \<open>\<^verbatim>\<open>Vec::dedup\<close>: equal neighbours collapse.\<close>

fun dedup :: "'a list \<Rightarrow> 'a list" where
  "dedup [] = []"
| "dedup [x] = [x]"
| "dedup (x # y # xs) = (if x = y then dedup (x # xs) else x # dedup (y # xs))"

text \<open>\<open>None\<close> where \<^verbatim>\<open>clamp\<close> panics: a ceiling below the smallest MTU.\<close>

definition mtu_probe_ladder :: "int \<Rightarrow> int \<Rightarrow> int list option" where
  "mtu_probe_ladder ceiling floor0 =
     (if ceiling < int MTU_MIN then None
      else (let fl = min (max floor0 (int MTU_MIN)) ceiling;
                rungs = [ceiling, 12000, 9000, 6000, 4000, 2500, 2000, 1500, 1360, 1320, 1280, 1200, 1100, 1000,
                         900, 800, 700, fl]
            in Some (dedup (rev (sort (filter (\<lambda>candidate. fl \<le> candidate \<and> candidate \<le> ceiling) rungs))))))"

section \<open>Classifying datagrams\<close>

definition is_fragment :: "bytes \<Rightarrow> bool" where
  "is_fragment d \<longleftrightarrow> FRAG_HDR_LEN \<le> length d \<and> take (length FRAG_MAGIC) d = FRAG_MAGIC"

definition is_mtu_probe :: "bytes \<Rightarrow> bool" where
  "is_mtu_probe d \<longleftrightarrow> is_fragment d \<and> d ! 3 = MSG_MTU_PROBE \<and> FRAG_HDR_LEN + PROBE_BODY_LEN \<le> length d"

definition is_mtu_probe_ack :: "bytes \<Rightarrow> bool" where
  "is_mtu_probe_ack d \<longleftrightarrow> is_fragment d \<and> d ! 3 = MSG_MTU_PROBE_ACK \<and> FRAG_HDR_LEN + PROBE_BODY_LEN \<le> length d"

definition is_junk :: "bytes \<Rightarrow> bool" where
  "is_junk d \<longleftrightarrow> is_fragment d \<and> d ! 3 = MSG_JUNK"

definition is_auth_ok_fragment :: "bytes \<Rightarrow> bool" where
  "is_auth_ok_fragment d \<longleftrightarrow> is_fragment d \<and> d ! 3 = MSG_AUTH_OK"

definition is_mtu_probe_v2 :: "bytes \<Rightarrow> bool" where
  "is_mtu_probe_v2 d \<longleftrightarrow> is_fragment d \<and> d ! 3 = MSG_MTU_PROBE_V2 \<and> FRAG_HDR_LEN + PROBE_V2_BODY_LEN \<le> length d"

definition is_mtu_probe_ack_v2 :: "bytes \<Rightarrow> bool" where
  "is_mtu_probe_ack_v2 d \<longleftrightarrow> is_fragment d \<and> d ! 3 = MSG_MTU_PROBE_ACK_V2 \<and> FRAG_HDR_LEN + PROBE_V2_BODY_LEN \<le> length d"

section \<open>Probes\<close>

definition parse_mtu_probe :: "bytes \<Rightarrow> (u16 \<times> u16) option" where
  "parse_mtu_probe d =
     (if length d < FRAG_HDR_LEN + PROBE_BODY_LEN then None
      else Some (from_le_bytes [d ! FRAG_HDR_LEN, d ! (FRAG_HDR_LEN + 1)],
                 from_le_bytes [d ! (FRAG_HDR_LEN + 2), d ! (FRAG_HDR_LEN + 3)]))"

definition parse_mtu_probe_request :: "bytes \<Rightarrow> (u16 \<times> u16) option" where
  "parse_mtu_probe_request d =
     (if \<not> is_mtu_probe d \<or> d ! 4 \<noteq> 0 \<or> d ! 5 \<noteq> 1 then None
      else (case parse_mtu_probe d of None \<Rightarrow> None
            | Some parsed \<Rightarrow> if unat (snd parsed) = length d then Some parsed else None))"

definition parse_mtu_probe_ack :: "bytes \<Rightarrow> (u16 \<times> u16) option" where
  "parse_mtu_probe_ack d =
     (if \<not> is_mtu_probe_ack d \<or> length d \<noteq> FRAG_HDR_LEN + PROBE_BODY_LEN \<or> d ! 4 \<noteq> 0 \<or> d ! 5 \<noteq> 1 then None
      else parse_mtu_probe d)"

definition mtu_probe_datagram :: "u16 \<Rightarrow> nat \<Rightarrow> bytes \<Rightarrow> bytes option" where
  "mtu_probe_datagram i probe_payload_size pad =
     (if probe_payload_size < FRAG_HDR_LEN + PROBE_BODY_LEN \<or> u16_max < probe_payload_size then None
      else Some (FRAG_MAGIC @ [MSG_MTU_PROBE, 0, 1] @ to_le_bytes i @ to_le_bytes (of_nat probe_payload_size :: u16)
                 @ take (probe_payload_size - (FRAG_HDR_LEN + PROBE_BODY_LEN)) pad))"

definition mtu_probe_ack_datagram :: "u16 \<Rightarrow> u16 \<Rightarrow> bytes" where
  "mtu_probe_ack_datagram i probe_payload_size =
     FRAG_MAGIC @ [MSG_MTU_PROBE_ACK, 0, 1] @ to_le_bytes i @ to_le_bytes probe_payload_size"

definition parse_mtu_probe_v2 :: "bytes \<Rightarrow> (u128 \<times> u16) option" where
  "parse_mtu_probe_v2 d =
     (if length d < FRAG_HDR_LEN + PROBE_V2_BODY_LEN then None
      else Some (from_le_bytes (slice FRAG_HDR_LEN (FRAG_HDR_LEN + 16) d),
                 from_le_bytes (slice (FRAG_HDR_LEN + 16) (FRAG_HDR_LEN + PROBE_V2_BODY_LEN) d)))"

definition parse_mtu_probe_v2_request :: "bytes \<Rightarrow> (u128 \<times> u16) option" where
  "parse_mtu_probe_v2_request d =
     (if \<not> is_mtu_probe_v2 d \<or> d ! 4 \<noteq> 0 \<or> d ! 5 \<noteq> 1 then None
      else (case parse_mtu_probe_v2 d of None \<Rightarrow> None
            | Some parsed \<Rightarrow> if unat (snd parsed) = length d then Some parsed else None))"

definition parse_mtu_probe_v2_ack :: "bytes \<Rightarrow> (u128 \<times> u16) option" where
  "parse_mtu_probe_v2_ack d =
     (if \<not> is_mtu_probe_ack_v2 d \<or> length d \<noteq> FRAG_HDR_LEN + PROBE_V2_BODY_LEN \<or> d ! 4 \<noteq> 0 \<or> d ! 5 \<noteq> 1 then None
      else parse_mtu_probe_v2 d)"

definition mtu_probe_v2_datagram :: "u128 \<Rightarrow> nat \<Rightarrow> bytes \<Rightarrow> bytes option" where
  "mtu_probe_v2_datagram token probe_payload_size pad =
     (if probe_payload_size < FRAG_HDR_LEN + PROBE_V2_BODY_LEN \<or> u16_max < probe_payload_size then None
      else Some (FRAG_MAGIC @ [MSG_MTU_PROBE_V2, 0, 1] @ to_le_bytes token @ to_le_bytes (of_nat probe_payload_size :: u16)
                 @ take (probe_payload_size - (FRAG_HDR_LEN + PROBE_V2_BODY_LEN)) pad))"

definition mtu_probe_v2_ack_datagram :: "u128 \<Rightarrow> u16 \<Rightarrow> bytes" where
  "mtu_probe_v2_ack_datagram token probe_payload_size =
     FRAG_MAGIC @ [MSG_MTU_PROBE_ACK_V2, 0, 1] @ to_le_bytes token @ to_le_bytes probe_payload_size"

definition junk_datagram :: "nat \<Rightarrow> bytes \<Rightarrow> bytes" where
  "junk_datagram len random = FRAG_MAGIC @ [MSG_JUNK, 0, 1] @ take len random"

section \<open>Fragmentation and reassembly\<close>

datatype FragError = TooLargeToFragment | NotAFragment | BadFragmentCount | IndexOutOfRange | ChunkTooLarge
  | InconsistentFragment | ConflictingDuplicate

definition hs_fragment :: "u8 \<Rightarrow> bytes \<Rightarrow> nat \<Rightarrow> nat \<Rightarrow> bytes" where
  "hs_fragment msg_id msg cnt i =
     (let start = i * MAX_CHUNK; fin = min (start + MAX_CHUNK) (length msg)
      in FRAG_MAGIC @ [msg_id, of_nat i, of_nat cnt] @ slice start fin msg)"

definition fragment :: "u8 \<Rightarrow> bytes \<Rightarrow> (FragError, bytes list) result" where
  "fragment msg_id msg =
     (let cnt = max (div_ceil (length msg) MAX_CHUNK) 1 in
      if unat MAX_FRAGS < cnt then Err TooLargeToFragment
      else Ok (map (hs_fragment msg_id msg cnt) [0..<cnt]))"

record HsReassembler =
  hs_msg_id :: u8
  hs_count :: u8
  parts :: "bytes option list"
  have_parts :: u8
  hs_started :: instant

definition HsReassembler_new :: "instant \<Rightarrow> HsReassembler" where
  "HsReassembler_new now = \<lparr>hs_msg_id = 0, hs_count = 0, parts = [], have_parts = 0, hs_started = now\<rparr>"

definition age :: "HsReassembler \<Rightarrow> instant \<Rightarrow> duration" where
  "age s now = now - hs_started s"

text \<open>The end of \<^verbatim>\<open>push\<close>: place the chunk, and return the message when no part is missing.\<close>

definition place_part :: "HsReassembler \<Rightarrow> u8 \<Rightarrow> bytes \<Rightarrow> (FragError, bytes option) result \<times> HsReassembler" where
  "place_part s idx chunk =
     (let finish = (\<lambda>s. (Ok (if have_parts s = hs_count s then Some (concat (map the (parts s))) else None), s)) in
      case parts s ! unat idx of
        Some existing \<Rightarrow> if existing \<noteq> chunk then (Err ConflictingDuplicate, s) else finish s
      | None \<Rightarrow> finish (s\<lparr>parts := (parts s)[unat idx := Some chunk], have_parts := have_parts s + 1\<rparr>))"

definition hs_push :: "HsReassembler \<Rightarrow> bytes \<Rightarrow> instant \<Rightarrow> (FragError, bytes option) result \<times> HsReassembler" where
  "hs_push s d now =
     (if \<not> is_fragment d then (Err NotAFragment, s)
      else (let msg_id = d ! 3; idx = d ! 4; cnt = d ! 5; chunk = drop FRAG_HDR_LEN d in
        if cnt = 0 \<or> MAX_FRAGS < cnt then (Err BadFragmentCount, s)
        else if cnt \<le> idx then (Err IndexOutOfRange, s)
        else if MAX_CHUNK_ACCEPT < length chunk then (Err ChunkTooLarge, s)
        else if hs_count s = 0
        then place_part (s\<lparr>hs_msg_id := msg_id, hs_count := cnt, parts := replicate (unat cnt) None,
                           have_parts := 0, hs_started := now\<rparr>) idx chunk
        else if msg_id \<noteq> hs_msg_id s \<or> cnt \<noteq> hs_count s then (Err InconsistentFragment, s)
        else place_part s idx chunk))"

section \<open>Handshake messages survive reordering and duplication\<close>

fun hs_push_all :: "HsReassembler \<Rightarrow> (bytes \<times> instant) list \<Rightarrow> (FragError, bytes option) result list" where
  "hs_push_all s [] = []"
| "hs_push_all s ((d, now) # rest) = (let (r, s') = hs_push s d now in r # hs_push_all s' rest)"

definition hs_state :: "u8 \<Rightarrow> bytes \<Rightarrow> nat \<Rightarrow> nat set \<Rightarrow> instant \<Rightarrow> HsReassembler" where
  "hs_state msg_id msg n S t = \<lparr>hs_msg_id = msg_id, hs_count = of_nat n,
     parts = map (\<lambda>i. if i \<in> S then Some (take MAX_CHUNK (drop (i * MAX_CHUNK) msg)) else None) [0..<n],
     have_parts = of_nat (card S), hs_started = t\<rparr>"

lemma unat_of_nat_u8: "k < 256 \<Longrightarrow> unat (of_nat k :: u8) = k"
  by (simp add: unat_of_nat_eq')

lemma hs_slice: "slice (i * MAX_CHUNK) (min (i * MAX_CHUNK + MAX_CHUNK) (length msg)) msg = take MAX_CHUNK (drop (i * MAX_CHUNK) msg)"
  by (auto simp: slice_def min_def uf_consts)

lemma hs_fragment_fields:
  "is_fragment (hs_fragment msg_id msg n i)" "hs_fragment msg_id msg n i ! 3 = msg_id" "hs_fragment msg_id msg n i ! 4 = of_nat i"
  "hs_fragment msg_id msg n i ! 5 = of_nat n" "drop FRAG_HDR_LEN (hs_fragment msg_id msg n i) = take MAX_CHUNK (drop (i * MAX_CHUNK) msg)"
  "length (hs_fragment msg_id msg n i) \<le> 6 + MAX_CHUNK"
  unfolding hs_fragment_def Let_def hs_slice by (simp_all add: is_fragment_def FRAG_MAGIC_def FRAG_HDR_LEN_def)

lemma concat_hs_parts: "length msg \<le> n * MAX_CHUNK \<Longrightarrow>
  concat (map (\<lambda>i. take MAX_CHUNK (drop (i * MAX_CHUNK) msg)) [0..<n]) = msg"
proof -
  have "concat (map (\<lambda>i. take MAX_CHUNK (drop (i * MAX_CHUNK) msg)) [0..<n]) = take (n * MAX_CHUNK) msg"
    by (induction n) (simp_all add: take_add add.commute [of MAX_CHUNK])
  then show "length msg \<le> n * MAX_CHUNK \<Longrightarrow> ?thesis" by simp
qed

lemma hs_place:
  assumes n: "0 < n" "n \<le> 24" "length msg \<le> n * MAX_CHUNK" and S: "S \<subseteq> {0..<n}" and i: "i < n"
  shows "place_part (hs_state msg_id msg n S t) (of_nat i) (take MAX_CHUNK (drop (i * MAX_CHUNK) msg))
    = (Ok (if insert i S = {0..<n} then Some msg else None), hs_state msg_id msg n (insert i S) t)"
proof -
  have fin: "finite S" using S finite_subset by blast
  have sub: "insert i S \<subseteq> {0..<n}" using S i by simp
  have "card (insert i S) \<le> card {0..<n}" using sub by (intro card_mono) simp_all
  then have le: "card (insert i S) \<le> n" by simp
  have "card (insert i S) = card {0..<n} \<longleftrightarrow> insert i S = {0..<n}"
    using card_subset_eq [OF finite_atLeastLessThan sub] by metis
  moreover have "(of_nat (card (insert i S)) :: u8) = of_nat n \<longleftrightarrow> card (insert i S) = n"
  proof
    assume "(of_nat (card (insert i S)) :: u8) = of_nat n"
    then have "unat (of_nat (card (insert i S)) :: u8) = unat (of_nat n :: u8)" by (rule arg_cong)
    then show "card (insert i S) = n" using le n(2) by (simp only: unat_of_nat_u8)
  qed simp
  ultimately have full: "have_parts (hs_state msg_id msg n (insert i S) t) = hs_count (hs_state msg_id msg n (insert i S) t)
      \<longleftrightarrow> insert i S = {0..<n}"
    by (simp add: hs_state_def)
  have whole: "concat (map the (parts (hs_state msg_id msg n {0..<n} t))) = msg"
  proof -
    have "map the (parts (hs_state msg_id msg n {0..<n} t)) = map (\<lambda>i. take MAX_CHUNK (drop (i * MAX_CHUNK) msg)) [0..<n]"
      by (simp add: hs_state_def)
    then show ?thesis using concat_hs_parts [OF n(3)] by simp
  qed
  have u: "unat (of_nat i :: u8) = i" using i n(2) by (intro unat_of_nat_u8) simp
  show ?thesis
  proof (cases "i \<in> S")
    case True
    then have "insert i S = S" by blast
    moreover have "parts (hs_state msg_id msg n S t) ! i = Some (take MAX_CHUNK (drop (i * MAX_CHUNK) msg))"
      using True i by (simp add: hs_state_def)
    ultimately show ?thesis using full whole by (auto simp: place_part_def u Let_def)
  next
    case False
    have "parts (hs_state msg_id msg n S t) ! i = None" using False i by (simp add: hs_state_def)
    moreover have "(hs_state msg_id msg n S t)\<lparr>parts := (parts (hs_state msg_id msg n S t))[i := Some (take MAX_CHUNK (drop (i * MAX_CHUNK) msg))],
        have_parts := have_parts (hs_state msg_id msg n S t) + 1\<rparr> = hs_state msg_id msg n (insert i S) t"
      using False i fin by (auto simp: hs_state_def nth_list_update intro!: nth_equalityI)
    ultimately show ?thesis using full whole by (auto simp: place_part_def u Let_def)
  qed
qed

lemma hs_push_state:
  assumes n: "0 < n" "n \<le> 24" "length msg \<le> n * MAX_CHUNK" and S: "S \<subseteq> {0..<n}" and i: "i < n"
  shows "hs_push (hs_state msg_id msg n S t) (hs_fragment msg_id msg n i) now
    = (Ok (if insert i S = {0..<n} then Some msg else None), hs_state msg_id msg n (insert i S) t)"
    "hs_push (HsReassembler_new t0) (hs_fragment msg_id msg n i) now
    = (Ok (if {i} = {0..<n} then Some msg else None), hs_state msg_id msg n {i} now)"
proof -
  note f = hs_fragment_fields [of msg_id msg n i]
  have u: "unat (of_nat n :: u8) = n" "unat (of_nat i :: u8) = i" using n i by (auto intro!: unat_of_nat_u8)
  have guards: "(of_nat n :: u8) \<noteq> 0" "\<not> MAX_FRAGS < of_nat n" "\<not> (of_nat n :: u8) \<le> of_nat i"
    "\<not> MAX_CHUNK_ACCEPT < length (take MAX_CHUNK (drop (i * MAX_CHUNK) msg))"
    using n i u by (auto simp: word_less_nat_alt word_le_nat_alt MAX_FRAGS_def uf_consts unat_eq_0 [symmetric] simp del: unat_eq_0)
  have c: "hs_count (hs_state msg_id msg n S t) = of_nat n" "hs_msg_id (hs_state msg_id msg n S t) = msg_id"
    by (simp_all add: hs_state_def)
  show "hs_push (hs_state msg_id msg n S t) (hs_fragment msg_id msg n i) now
    = (Ok (if insert i S = {0..<n} then Some msg else None), hs_state msg_id msg n (insert i S) t)"
    using guards hs_place [OF n S i] by (simp add: hs_push_def f c Let_def)
  have "(HsReassembler_new t0)\<lparr>hs_msg_id := msg_id, hs_count := of_nat n, parts := replicate n None, have_parts := 0, hs_started := now\<rparr>
      = hs_state msg_id msg n {} now"
    by (simp add: hs_state_def HsReassembler_new_def map_replicate_const)
  then show "hs_push (HsReassembler_new t0) (hs_fragment msg_id msg n i) now
    = (Ok (if {i} = {0..<n} then Some msg else None), hs_state msg_id msg n {i} now)"
    using guards hs_place [OF n empty_subsetI i] by (simp add: hs_push_def f Let_def u HsReassembler_new_def)
qed

lemma hs_push_all_state:
  assumes n: "0 < n" "n \<le> 24" "length msg \<le> n * MAX_CHUNK" and S: "S \<subseteq> {0..<n}" and idx: "fst ` set as \<subseteq> {0..<n}"
  shows "hs_push_all (hs_state msg_id msg n S t) (map (\<lambda>(i, now). (hs_fragment msg_id msg n i, now)) as)
    = map (\<lambda>j. Ok (if S \<union> fst ` set (take (Suc j) as) = {0..<n} then Some msg else None)) [0..<length as]"
  using S idx
proof (induction as arbitrary: S)
  case (Cons a as)
  obtain i now where a: "a = (i, now)" by (cases a)
  then have i: "i < n" and sub: "insert i S \<subseteq> {0..<n}" "fst ` set as \<subseteq> {0..<n}" using Cons.prems by auto
  have "[0..<length (a # as)] = 0 # map Suc [0..<length as]" by (simp add: upt_conv_Cons map_Suc_upt del: upt_Suc)
  then show ?case using Cons.IH [OF sub] hs_push_state(1) [OF n Cons.prems(1) i] a
    by (simp add: Un_commute comp_def)
qed simp

lemma fragment_count_bounds:
  assumes "fragment msg_id msg = Ok ds"
  shows "ds = map (hs_fragment msg_id msg (length ds)) [0..<length ds]" "0 < length ds" "length ds \<le> 24"
    "length msg \<le> length ds * MAX_CHUNK"
proof -
  let ?n = "max (div_ceil (length msg) MAX_CHUNK) 1"
  have ds: "ds = map (hs_fragment msg_id msg ?n) [0..<?n]" "?n \<le> 24"
    using assms by (auto simp: fragment_def Let_def MAX_FRAGS_def split: if_splits)
  have "length msg \<le> div_ceil (length msg) MAX_CHUNK * MAX_CHUNK" by (rule div_ceil_mult_ge) (simp add: uf_consts)
  also have "\<dots> \<le> ?n * MAX_CHUNK" by (intro mult_le_mono1) simp
  finally have le: "length msg \<le> ?n * MAX_CHUNK" .
  have len: "length ds = ?n" unfolding ds(1) by simp
  show "ds = map (hs_fragment msg_id msg (length ds)) [0..<length ds]" unfolding len by (rule ds(1))
  show "length msg \<le> length ds * MAX_CHUNK" unfolding len by (rule le)
  show "0 < length ds" "length ds \<le> 24" unfolding len using ds(2) by simp_all
qed

text \<open>
  C14. A handshake message that is fragmented is reassembled whatever the network does to the order and
  number of its datagrams: each arrival returns the message exactly when every fragment has arrived by then,
  nothing before, never an error; and each datagram, with the QUIC, obfuscation, UDP and IPv6 headers around it,
  fits the smallest IPv6 MTU.
\<close>

theorem handshake_reassembles:
  assumes ok: "fragment msg_id msg = Ok ds" and idx: "fst ` set arrivals \<subseteq> {0..<length ds}"
  shows "hs_push_all (HsReassembler_new t0) (map (\<lambda>(i, now). (ds ! i, now)) arrivals)
      = map (\<lambda>j. Ok (if fst ` set (take (Suc j) arrivals) = {0..<length ds} then Some msg else None)) [0..<length arrivals]
    \<and> (\<forall>d \<in> set ds. length d + OUTER_QUIC + OUTER_OBFS_SEAL + OUTER_UDP + OUTER_IPV6 \<le> IPV6_MIN_MTU)"
proof -
  note n = fragment_count_bounds [OF ok]
  have nth: "ds ! i = hs_fragment msg_id msg (length ds) i" if "i < length ds" for i
    using that by (subst n(1)) simp
  have eq: "map (\<lambda>(i, now). (ds ! i, now)) arrivals = map (\<lambda>(i, now). (hs_fragment msg_id msg (length ds) i, now)) arrivals"
    using idx nth by (intro map_cong refl) force
  have run: "hs_push_all (HsReassembler_new t0) (map (\<lambda>(i, now). (hs_fragment msg_id msg (length ds) i, now)) arrivals)
      = map (\<lambda>j. Ok (if fst ` set (take (Suc j) arrivals) = {0..<length ds} then Some msg else None)) [0..<length arrivals]"
  proof (cases arrivals)
    case (Cons a as)
    obtain i now where a: "a = (i, now)" by (cases a)
    then have i: "i < length ds" and sub: "{i} \<subseteq> {0..<length ds}" "fst ` set as \<subseteq> {0..<length ds}" using Cons idx by auto
    have "[0..<length (a # as)] = 0 # map Suc [0..<length as]" by (simp add: upt_conv_Cons map_Suc_upt del: upt_Suc)
    then show ?thesis using hs_push_all_state [OF n(2-4) sub] hs_push_state(2) [OF n(2-4) _ i, of "{}" t0] Cons a
      by (simp add: comp_def)
  qed simp
  have fits: "length d + OUTER_QUIC + OUTER_OBFS_SEAL + OUTER_UDP + OUTER_IPV6 \<le> IPV6_MIN_MTU" if "d \<in> set ds" for d
  proof -
    have "d \<in> hs_fragment msg_id msg (length ds) ` {0..<length ds}" using that arg_cong [OF n(1), of set] by simp
    then obtain i where "d = hs_fragment msg_id msg (length ds) i" by blast
    then show ?thesis using hs_fragment_fields(6) [of msg_id msg "length ds" i] by (simp add: uf_outer uf_consts)
  qed
  show ?thesis unfolding eq using run fits by blast
qed

definition demo_hello :: bytes where
  "demo_hello = replicate 2000 7"

definition demo_hello_arrivals :: "(nat \<times> instant) list" where
  "demo_hello_arrivals = [(1, 3), (1, 4), (0, 9)]"

theorem handshake_reassembles_witness:
  "hs_push_all (HsReassembler_new 0) (map (\<lambda>(i, now). (map (hs_fragment 1 demo_hello 2) [0..<2] ! i, now)) demo_hello_arrivals)
    = [Ok None, Ok None, Ok (Some demo_hello)]"
proof -
  have two: "max (div_ceil (length demo_hello) MAX_CHUNK) 1 = 2" by (simp add: demo_hello_def uf_consts div_ceil_def)
  have ok: "fragment 1 demo_hello = Ok (map (hs_fragment 1 demo_hello 2) [0..<2])"
    unfolding fragment_def Let_def two by (simp add: MAX_FRAGS_def)
  have idx: "fst ` set demo_hello_arrivals \<subseteq> {0..<length (map (hs_fragment 1 demo_hello 2) [0..<2])}"
    by (simp add: demo_hello_arrivals_def)
  have sets: "{Suc 0} \<noteq> {0..<2}" "{0, Suc 0} = {0..<2}" "{Suc 0, 0} = {0..<2}" "insert (Suc 0) {0..<2} = {0..<2}" by code_simp+
  from handshake_reassembles [OF ok idx, of 0, THEN conjunct1]
  show ?thesis by (simp add: demo_hello_arrivals_def sets)
qed

section \<open>Probes\<close>

lemma probe_prefix [simp]:
  "is_fragment (FRAG_MAGIC @ a # b # c # rest)" "(FRAG_MAGIC @ a # b # c # rest) ! 3 = a"
  "(FRAG_MAGIC @ a # b # c # rest) ! 4 = b" "(FRAG_MAGIC @ a # b # c # rest) ! 5 = c"
  by (simp_all add: is_fragment_def FRAG_MAGIC_def FRAG_HDR_LEN_def)

lemma length_FRAG_MAGIC [simp]: "length FRAG_MAGIC = 3"
  by (simp add: FRAG_MAGIC_def)

lemma parse_probe_body:
  "parse_mtu_probe (FRAG_MAGIC @ a # b # c # to_le_bytes i @ to_le_bytes sz @ rest) = Some (i, sz)"
proof -
  obtain i0 i1 where i: "to_le_bytes i = [i0, i1]" by (rule u16_le_bytes [of i])
  obtain s0 s1 where s: "to_le_bytes sz = [s0, s1]" by (rule u16_le_bytes [of sz])
  have "from_le_bytes [i0, i1] = i" "from_le_bytes [s0, s1] = sz"
    unfolding i [symmetric] s [symmetric] by (simp_all add: wire_simps)
  then show ?thesis by (simp add: parse_mtu_probe_def i s FRAG_MAGIC_def FRAG_HDR_LEN_def PROBE_BODY_LEN_def)
qed

lemma parse_probe_v2_body:
  fixes token :: u128 and sz :: u16
  shows "parse_mtu_probe_v2 (FRAG_MAGIC @ a # b # c # to_le_bytes token @ to_le_bytes sz @ rest) = Some (token, sz)"
  by (simp add: parse_mtu_probe_v2_def uf_consts slice_def FRAG_MAGIC_def wire_simps)

lemma probe_read_back:
  assumes "sz \<le> length pad" and d: "mtu_probe_datagram i sz pad = Some d"
  shows "length d = sz" "parse_mtu_probe_request d = Some (i, of_nat sz)"
proof -
  have sz: "10 \<le> sz" "sz \<le> 65535" and d': "d = FRAG_MAGIC @ MSG_MTU_PROBE # 0 # 1 # to_le_bytes i @ to_le_bytes (of_nat sz :: u16) @ take (sz - 10) pad"
    using d by (auto simp: mtu_probe_datagram_def uf_consts u16_max_def split: if_splits)
  show len: "length d = sz" using sz assms(1) by (simp add: d')
  have "parse_mtu_probe d = Some (i, of_nat sz)" unfolding d' by (rule parse_probe_body)
  moreover have "is_mtu_probe d" using len sz by (simp add: is_mtu_probe_def uf_consts) (simp add: d')
  moreover have "d ! 4 = 0" "d ! 5 = 1" by (simp_all add: d')
  moreover have "unat (of_nat sz :: u16) = length d" using len sz by simp
  ultimately show "parse_mtu_probe_request d = Some (i, of_nat sz)" by (simp add: parse_mtu_probe_request_def)
qed

lemma probe_v2_read_back:
  assumes "sz \<le> length pad" and d: "mtu_probe_v2_datagram token sz pad = Some d"
  shows "length d = sz" "parse_mtu_probe_v2_request d = Some (token, of_nat sz)"
proof -
  have sz: "24 \<le> sz" "sz \<le> 65535" and d': "d = FRAG_MAGIC @ MSG_MTU_PROBE_V2 # 0 # 1 # to_le_bytes token @ to_le_bytes (of_nat sz :: u16) @ take (sz - 24) pad"
    using d by (auto simp: mtu_probe_v2_datagram_def uf_consts u16_max_def split: if_splits)
  show len: "length d = sz" using sz assms(1) by (simp add: d')
  have "parse_mtu_probe_v2 d = Some (token, of_nat sz)" unfolding d' by (rule parse_probe_v2_body)
  moreover have "is_mtu_probe_v2 d" using len sz by (simp add: is_mtu_probe_v2_def uf_consts) (simp add: d')
  moreover have "d ! 4 = 0" "d ! 5 = 1" by (simp_all add: d')
  moreover have "unat (of_nat sz :: u16) = length d" using len sz by simp
  ultimately show "parse_mtu_probe_v2_request d = Some (token, of_nat sz)" by (simp add: parse_mtu_probe_v2_request_def)
qed

lemma probe_acks_read_back:
  "parse_mtu_probe_ack (mtu_probe_ack_datagram i sz) = Some (i, sz)"
  "parse_mtu_probe_v2_ack (mtu_probe_v2_ack_datagram token sz) = Some (token, sz)"
  using parse_probe_body [of MSG_MTU_PROBE_ACK 0 1 i sz "[]"] parse_probe_v2_body [of MSG_MTU_PROBE_ACK_V2 0 1 token sz "[]"]
  by (simp_all add: parse_mtu_probe_ack_def is_mtu_probe_ack_def mtu_probe_ack_datagram_def parse_mtu_probe_v2_ack_def
      is_mtu_probe_ack_v2_def mtu_probe_v2_ack_datagram_def uf_consts)

lemma probe_request_exact:
  "parse_mtu_probe_request x = Some (j, n) \<Longrightarrow> length x = unat n \<and> x ! 3 = MSG_MTU_PROBE"
  "parse_mtu_probe_v2_request x = Some (tk, n) \<Longrightarrow> length x = unat n \<and> x ! 3 = MSG_MTU_PROBE_V2"
  by (auto simp: parse_mtu_probe_request_def is_mtu_probe_def parse_mtu_probe_v2_request_def is_mtu_probe_v2_def
      split: if_split_asm option.split_asm)

lemma probe_kinds_exclusive:
  "x ! 3 = MSG_MTU_PROBE \<Longrightarrow> parse_mtu_probe_ack x = None \<and> parse_mtu_probe_v2_request x = None"
  "x ! 3 = MSG_MTU_PROBE_V2 \<Longrightarrow> parse_mtu_probe_v2_ack x = None"
  by (simp_all add: parse_mtu_probe_ack_def is_mtu_probe_ack_def parse_mtu_probe_v2_request_def is_mtu_probe_v2_def
      parse_mtu_probe_v2_ack_def is_mtu_probe_ack_v2_def uf_msgs)

text \<open>
  Path-MTU probes and their acknowledgements are read back exactly, in both versions; a probe request
  is only ever recognised in a datagram whose true length is the n it claims, so an acknowledgement
  never certifies a n that did not cross the path; and no datagram is both a request and an acknowledgement.
\<close>

lemma probes_read_back:
  assumes pad: "sz \<le> length pad"
  shows "(\<forall>d. mtu_probe_datagram i sz pad = Some d \<longrightarrow> length d = sz \<and> parse_mtu_probe_request d = Some (i, of_nat sz))
    \<and> (\<forall>d. mtu_probe_v2_datagram token sz pad = Some d \<longrightarrow> length d = sz \<and> parse_mtu_probe_v2_request d = Some (token, of_nat sz))
    \<and> parse_mtu_probe_ack (mtu_probe_ack_datagram i sz16) = Some (i, sz16)
    \<and> parse_mtu_probe_v2_ack (mtu_probe_v2_ack_datagram token sz16) = Some (token, sz16)
    \<and> (\<forall>j n. parse_mtu_probe_request x = Some (j, n) \<longrightarrow> length x = unat n \<and> parse_mtu_probe_ack x = None
         \<and> parse_mtu_probe_v2_request x = None)
    \<and> (\<forall>tk n. parse_mtu_probe_v2_request x = Some (tk, n) \<longrightarrow> length x = unat n \<and> parse_mtu_probe_v2_ack x = None)"
  using probe_read_back [OF pad] probe_v2_read_back [OF pad] probe_acks_read_back probe_request_exact probe_kinds_exclusive
  by blast

lemma probes_read_back_example:
  "parse_mtu_probe_ack (mtu_probe_ack_datagram 5 1400) = Some (5, 1400)"
  using probes_read_back [of 12 "replicate 12 0" 5 0 1400 "[]"] by simp

section \<open>The ladder\<close>

lemma dedup_props:
  fixes xs :: "int list"
  assumes "sorted_wrt (\<ge>) xs"
  shows "set (dedup xs) = set xs" "sorted_wrt (>) (dedup xs)" "xs \<noteq> [] \<Longrightarrow> hd (dedup xs) = hd xs"
  using assms by (induction xs rule: dedup.induct) (auto intro: le_less_trans)

text \<open>
  The probe ladder runs strictly downwards from the ceiling to the floor (raised to the smallest MTU and cut
  to the ceiling): both are rungs, every rung lies between them, and no rung repeats. It is undefined
  (the clamp panics) exactly for a ceiling below the smallest MTU.
\<close>

lemma ladder_descends:
  "(mtu_probe_ladder ceiling fl = None \<longleftrightarrow> ceiling < int MTU_MIN)
   \<and> (\<forall>rungs. mtu_probe_ladder ceiling fl = Some rungs \<longrightarrow>
        sorted_wrt (>) rungs \<and> hd rungs = ceiling \<and> min (max fl (int MTU_MIN)) ceiling \<in> set rungs
        \<and> (\<forall>r \<in> set rungs. min (max fl (int MTU_MIN)) ceiling \<le> r \<and> r \<le> ceiling))"
proof (intro conjI allI impI)
  show "(mtu_probe_ladder ceiling fl = None) = (ceiling < int MTU_MIN)" by (simp add: mtu_probe_ladder_def Let_def)
  fix rungs assume some: "mtu_probe_ladder ceiling fl = Some rungs"
  let ?f = "min (max fl (int MTU_MIN)) ceiling"
  let ?all = "[ceiling, 12000, 9000, 6000, 4000, 2500, 2000, 1500, 1360, 1320, 1280, 1200, 1100, 1000, 900, 800, 700, ?f]"
  let ?xs = "filter (\<lambda>c. ?f \<le> c \<and> c \<le> ceiling) ?all"
  have eq: "rungs = dedup (rev (sort ?xs))" and le: "?f \<le> ceiling"
    using some by (auto simp only: mtu_probe_ladder_def Let_def split: if_splits)
  have sorted: "sorted_wrt (\<ge>) (rev (sort ?xs))" by (simp add: sorted_wrt_rev del: filter.simps)
  note d = dedup_props [OF sorted]
  have set: "set rungs = set ?xs" unfolding eq d(1) by (simp only: set_rev set_sort)
  have mem: "ceiling \<in> set ?xs" "?f \<in> set ?xs" using le by (simp_all only: set_filter mem_Collect_eq) simp_all
  show "sorted_wrt (>) rungs" unfolding eq by (rule d(2))
  show "?f \<in> set rungs" unfolding set by (rule mem)
  have bounds: "?f \<le> r \<and> r \<le> ceiling" if "r \<in> set rungs" for r using that unfolding set by (simp only: set_filter mem_Collect_eq)
  then show "\<forall>r \<in> set rungs. ?f \<le> r \<and> r \<le> ceiling" by blast
  have "rungs \<noteq> []" using mem set by auto
  then obtain h t where ht: "rungs = h # t" by (cases rungs) auto
  have "ceiling \<in> set rungs" unfolding set by (rule mem)
  then have "ceiling \<le> h" using \<open>sorted_wrt (>) rungs\<close> ht by auto
  moreover have "h \<le> ceiling" using bounds ht by simp
  ultimately show "hd rungs = ceiling" using ht by simp
qed

lemma ladder_descends_example:
  "\<exists>rungs. mtu_probe_ladder 1400 600 = Some rungs \<and> hd rungs = 1400"
  using ladder_descends [of 1400 600] by (auto simp: MTU_MIN_def)

end
