(* ===== verification/Pmtu.thy ===== *)
theory Pmtu
  imports Udp_Frag
begin

text \<open>
  The path-MTU search of \<^verbatim>\<open>protocol/pmtu.rs\<close>: a queue of candidate sizes, one outstanding challenge that is sent
  twice at most, and a bisection between a size that answered and one that did not. Random tokens are
  arguments. Not here: \<^verbatim>\<open>socket_path_mtu\<close>, a system call.
\<close>

section \<open>State\<close>

definition CONFIRM_INTERVAL :: duration where "CONFIRM_INTERVAL = duration_secs 30"
definition GROW_INTERVAL :: duration where "GROW_INTERVAL = duration_secs (10 * 60)"
definition TICK :: duration where "TICK = duration_millis 250"
definition INITIAL_TIMEOUT :: duration where "INITIAL_TIMEOUT = duration_secs 2"
definition MIN_TIMEOUT :: duration where "MIN_TIMEOUT = duration_secs 1"
definition MAX_TIMEOUT :: duration where "MAX_TIMEOUT = duration_secs 5"
definition SENDS :: u8 where "SENDS = 2"
definition CONFIRMATIONS :: u8 where "CONFIRMATIONS = 3"

record Challenge =
  token :: u128
  budget :: nat
  sends :: u8
  sent_at :: instant
  ch_deadline :: instant

record ProbeSearch =
  candidates :: "nat list"
  challenge :: "Challenge option"
  confirmations :: u8
  timeout :: duration
  discovery :: bool
  lower :: "nat option"
  upper :: "nat option"
  previously_certified :: "nat option"

definition ProbeSearch_default :: ProbeSearch where
  "ProbeSearch_default = \<lparr>candidates = [], challenge = None, confirmations = 0, timeout = INITIAL_TIMEOUT,
     discovery = False, lower = None, upper = None, previously_certified = None\<rparr>"

section \<open>Operations\<close>

definition clear_search :: "ProbeSearch \<Rightarrow> ProbeSearch" where
  "clear_search s = s\<lparr>candidates := [], challenge := None, confirmations := 0, discovery := False,
     lower := None, upper := None, previously_certified := None\<rparr>"

definition start :: "nat list \<Rightarrow> ProbeSearch \<Rightarrow> ProbeSearch" where
  "start cs s = (clear_search s)\<lparr>candidates := take 32 cs\<rparr>"

definition start_discovery :: "nat list \<Rightarrow> ProbeSearch \<Rightarrow> ProbeSearch" where
  "start_discovery cs s = (start cs s)\<lparr>discovery := True\<rparr>"

definition confirmation_budgets :: "nat \<Rightarrow> nat \<Rightarrow> nat list" where
  "confirmation_budgets cur base = (if base < cur then [cur, base] else [base])"

definition start_confirmation :: "nat \<Rightarrow> nat \<Rightarrow> ProbeSearch \<Rightarrow> ProbeSearch" where
  "start_confirmation cur base s = (start (confirmation_budgets cur base) s)\<lparr>previously_certified := Some cur\<rparr>"

definition is_active :: "ProbeSearch \<Rightarrow> bool" where
  "is_active s \<longleftrightarrow> challenge s \<noteq> None \<or> candidates s \<noteq> []"

definition new_challenge :: "u128 \<Rightarrow> nat \<Rightarrow> instant \<Rightarrow> Challenge" where
  "new_challenge tok b now = \<lparr>token = tok, budget = b, sends = 0, sent_at = now, ch_deadline = now\<rparr>"

text \<open>A challenge whose sends are used up: discovery narrows the bracket from above.\<close>

definition drop_failed :: "Challenge \<Rightarrow> ProbeSearch \<Rightarrow> ProbeSearch" where
  "drop_failed ch s =
     (let failed = budget ch;
          s1 = (if discovery s then
                  (let s2 = s\<lparr>upper := Some (case upper s of None \<Rightarrow> failed | Some u \<Rightarrow> min u failed)\<rparr>
                   in case lower s of
                        None \<Rightarrow> s2
                      | Some lo \<Rightarrow>
                          if failed \<le> lo then s2\<lparr>lower := None, candidates := []\<rparr>
                          else s2\<lparr>candidates := [lo + (failed - lo) div 2]\<rparr>)
                else s)
      in s1\<lparr>challenge := None, confirmations := 0\<rparr>)"

text \<open>The loop of \<^verbatim>\<open>next_send\<close>; the token is the one draw a call can need, since a new challenge is sent at once.\<close>

function next_send :: "u128 \<Rightarrow> instant \<Rightarrow> ProbeSearch \<Rightarrow> Challenge option \<times> ProbeSearch" where
  "next_send tok now s =
     (case (case challenge s of
              Some ch \<Rightarrow> Some (ch, s)
            | None \<Rightarrow> (case candidates s of [] \<Rightarrow> None
                      | b # bs \<Rightarrow> Some (new_challenge tok b now, s\<lparr>candidates := bs, challenge := Some (new_challenge tok b now)\<rparr>))) of
        None \<Rightarrow> (None, s)
      | Some (ch, s1) \<Rightarrow>
          if sends ch \<noteq> 0 \<and> now < ch_deadline ch then (None, s1)
          else if SENDS \<le> sends ch then next_send tok now (drop_failed ch s1)
          else (let ch' = ch\<lparr>sends := sends ch + 1, sent_at := now, ch_deadline := now + timeout s1\<rparr>
                in (Some ch', s1\<lparr>challenge := Some ch'\<rparr>)))"
  by pat_completeness auto
termination
  by (relation "measure (\<lambda>(tok, now, s). if \<exists>ch. challenge s = Some ch \<and> SENDS \<le> sends ch then 1 else 0)")
    (auto simp: new_challenge_def SENDS_def drop_failed_def Let_def split: option.splits list.splits)

declare next_send.simps [simp del]

definition adapt_timeout :: "duration \<Rightarrow> duration \<Rightarrow> duration" where
  "adapt_timeout cur measured =
     (let target = min (max (measured * 4) MIN_TIMEOUT) MAX_TIMEOUT
      in if cur < target then target else (cur * 3 + target) div 4)"

definition acknowledge :: "u128 \<Rightarrow> nat \<Rightarrow> instant \<Rightarrow> u128 \<Rightarrow> ProbeSearch \<Rightarrow> nat option \<times> ProbeSearch" where
  "acknowledge tok b now fresh s =
     (case challenge s of
        None \<Rightarrow> (None, s)
      | Some ch \<Rightarrow>
          if token ch \<noteq> tok \<or> budget ch \<noteq> b \<or> sends ch = 0 then (None, s)
          else (let s1 = (if sends ch = 1 then s\<lparr>timeout := adapt_timeout (timeout s) (now - sent_at ch)\<rparr> else s);
                    s2 = s1\<lparr>confirmations := confirmations s1 + 1\<rparr>;
                    first = (discovery s2 \<and> confirmations s2 = 1);
                    s3 = (if first then s2\<lparr>lower := Some b\<rparr> else s2)
                in case (if first then (case upper s3 of Some u \<Rightarrow> if b + 1 < u then Some u else None | None \<Rightarrow> None) else None) of
                     Some u \<Rightarrow> (None, s3\<lparr>candidates := [b + (u - b) div 2], challenge := None, confirmations := 0\<rparr>)
                   | None \<Rightarrow>
                       if (if previously_certified s3 = Some b then 1 else CONFIRMATIONS) \<le> confirmations s3
                       then (Some b, clear_search s3)
                       else (None, s3\<lparr>challenge := Some (ch\<lparr>token := fresh, sends := 0, sent_at := now, ch_deadline := now\<rparr>)\<rparr>)))"

definition probe_ceiling :: "int \<Rightarrow> nat \<Rightarrow> u32 option \<Rightarrow> int" where
  "probe_ceiling inner_mtu outer_overhead route_mtu =
     (let maximum = int MAX_TUNNEL_MTU;
          fallback = max 1500 (nat (max inner_mtu 0) + outer_overhead);
          path = (case route_mtu of None \<Rightarrow> fallback | Some mtu \<Rightarrow> unat mtu);
          room = path - outer_overhead
      in min (max (if int room < 2 ^ 31 then int room else maximum) (int MTU_MIN)) maximum)"

section \<open>A path that carries what fits\<close>

text \<open>The search against a path of capacity \<open>cap\<close>: a challenge that fits is echoed after \<open>rtt\<close>, before
  the search is called again; one that does not is lost, and the next call comes at its deadline. \<open>rnd\<close> supplies the tokens. The result is the size certified.\<close>

fun discover :: "nat \<Rightarrow> duration \<Rightarrow> (nat \<Rightarrow> u128) \<Rightarrow> nat \<Rightarrow> nat \<Rightarrow> instant \<Rightarrow> ProbeSearch \<Rightarrow> nat option" where
  "discover cap rtt rnd 0 k now s = None"
| "discover cap rtt rnd (Suc n) k now s =
     (case next_send (rnd k) now s of
        (None, _) \<Rightarrow> None
      | (Some ch, s1) \<Rightarrow>
          if budget ch \<le> cap
          then (case acknowledge (token ch) (budget ch) (now + rtt) (rnd (Suc k)) s1 of
                  (Some b, _) \<Rightarrow> Some b
                | (None, s2) \<Rightarrow> discover cap rtt rnd n (k + 2) (now + rtt) s2)
          else discover cap rtt rnd n (k + 2) (ch_deadline ch) s1)"

text \<open>What the search certifies from a state, whatever the clock and the token supply.\<close>

definition certifies :: "nat \<Rightarrow> ProbeSearch \<Rightarrow> nat \<Rightarrow> bool" where
  "certifies cap s r \<longleftrightarrow> (\<forall>rtt rnd k now. \<exists>n. discover cap rtt rnd n k now s = Some r)"

lemma certifiesE:
  assumes "certifies cap s r"
  obtains n where "discover cap rtt rnd n k now s = Some r"
  using assms unfolding certifies_def by blast

lemma next_send_fresh:
  assumes "challenge s = None" and "candidates s = b # bs"
  shows "next_send tok now s = (Some \<lparr>token = tok, budget = b, sends = 1, sent_at = now, ch_deadline = now + timeout s\<rparr>,
     s\<lparr>candidates := bs, challenge := Some \<lparr>token = tok, budget = b, sends = 1, sent_at = now, ch_deadline = now + timeout s\<rparr>\<rparr>)"
  using assms by (subst next_send.simps) (simp add: new_challenge_def SENDS_def Let_def)

lemma next_send_again:
  assumes "challenge s = Some ch" and "sends ch = 0 \<or> sends ch = 1 \<and> ch_deadline ch \<le> now"
  shows "next_send tok now s = (Some (ch\<lparr>sends := sends ch + 1, sent_at := now, ch_deadline := now + timeout s\<rparr>),
     s\<lparr>challenge := Some (ch\<lparr>sends := sends ch + 1, sent_at := now, ch_deadline := now + timeout s\<rparr>)\<rparr>)"
proof -
  have "\<not> SENDS \<le> sends ch" using assms(2) unfolding SENDS_def by (auto simp: word_le_nat_alt)
  then show ?thesis using assms by (subst next_send.simps) (auto simp: Let_def)
qed

lemma next_send_drop:
  assumes "challenge s = Some ch" and "sends ch = 2" and "ch_deadline ch \<le> now"
  shows "next_send tok now s = next_send tok now (drop_failed ch s)"
  using assms by (subst next_send.simps) (auto simp: SENDS_def)

lemma discover_drop:
  assumes "challenge s = Some ch" and "sends ch = 2" and "ch_deadline ch \<le> now"
  shows "discover cap rtt rnd n k now s = discover cap rtt rnd n k now (drop_failed ch s)"
  by (cases n) (simp_all add: next_send_drop [OF assms])

text \<open>A candidate above the capacity is sent twice and dropped.\<close>

lemma certifies_drop:
  assumes c: "challenge s = None" "candidates s = b # bs" and big: "cap < b"
    and next_step: "\<And>ch. budget ch = b \<Longrightarrow> certifies cap (drop_failed ch (s\<lparr>candidates := bs, challenge := Some ch\<rparr>)) r"
  shows "certifies cap s r"
  unfolding certifies_def
proof (intro allI)
  fix rtt k now :: nat and rnd :: "nat \<Rightarrow> u128"
  let ?c1 = "\<lparr>token = rnd k, budget = b, sends = 1, sent_at = now, ch_deadline = now + timeout s\<rparr>"
  let ?n1 = "now + timeout s" and ?s1 = "s\<lparr>candidates := bs, challenge := Some ?c1\<rparr>"
  let ?c2 = "?c1\<lparr>sends := 2, sent_at := ?n1, ch_deadline := ?n1 + timeout s\<rparr>"
  let ?s2 = "s\<lparr>candidates := bs, challenge := Some ?c2\<rparr>" and ?n2 = "?n1 + timeout s"
  obtain n where n: "discover cap rtt rnd n (k + 2 + 2) ?n2 (drop_failed ?c2 ?s2) = Some r"
    by (rule certifiesE [OF next_step [of ?c2]]) auto
  have "discover cap rtt rnd (Suc n) (k + 2) ?n1 ?s1 = discover cap rtt rnd n (k + 2 + 2) ?n2 ?s2"
    using next_send_again [of ?s1 ?c1 ?n1 "rnd (k + 2)"] big by (simp add: add_ac)
  also have "\<dots> = discover cap rtt rnd n (k + 2 + 2) ?n2 (drop_failed ?c2 ?s2)" by (rule discover_drop) simp_all
  finally have two: "discover cap rtt rnd (Suc n) (k + 2) ?n1 ?s1 = Some r" using n by simp
  have "discover cap rtt rnd (Suc (Suc n)) k now s = discover cap rtt rnd (Suc n) (k + 2) ?n1 ?s1"
    using next_send_fresh [OF c, of "rnd k" now] big by (subst discover.simps(2)) simp
  then show "\<exists>n. discover cap rtt rnd n k now s = Some r" using two by metis
qed

text \<open>A challenge within the capacity is echoed; the search goes on from the state after the echo.\<close>

lemma certifies_echo:
  assumes send: "\<And>tok now. \<exists>ch. next_send tok now s = (Some ch, s1\<lparr>challenge := Some ch\<rparr>) \<and> budget ch = b \<and> sends ch = 1"
    and small: "b \<le> cap"
    and next_step: "\<And>ch now fresh. budget ch = b \<Longrightarrow> sends ch = 1 \<Longrightarrow>
      (case acknowledge (token ch) b now fresh (s1\<lparr>challenge := Some ch\<rparr>) of
         (Some x, _) \<Rightarrow> x = r | (None, s2) \<Rightarrow> certifies cap s2 r)"
  shows "certifies cap s r"
  unfolding certifies_def
proof (intro allI)
  fix rtt k now :: nat and rnd :: "nat \<Rightarrow> u128"
  obtain ch where ch: "next_send (rnd k) now s = (Some ch, s1\<lparr>challenge := Some ch\<rparr>)" "budget ch = b" "sends ch = 1"
    using send by blast
  obtain x s2 where a: "acknowledge (token ch) b (now + rtt) (rnd (Suc k)) (s1\<lparr>challenge := Some ch\<rparr>) = (x, s2)" by fastforce
  have step: "discover cap rtt rnd (Suc n) k now s = (case x of Some y \<Rightarrow> Some y | None \<Rightarrow> discover cap rtt rnd n (k + 2) (now + rtt) s2)" for n
    using ch small a by (simp split: option.split)
  show "\<exists>n. discover cap rtt rnd n k now s = Some r"
  proof (cases x)
    case None
    then obtain n where "discover cap rtt rnd n (k + 2) (now + rtt) s2 = Some r"
      using next_step [OF ch(2,3), of "now + rtt" "rnd (Suc k)"] a by (auto elim: certifiesE)
    then have "discover cap rtt rnd (Suc n) k now s = Some r" using step [of n] None by simp
    then show ?thesis by blast
  next
    case (Some y)
    then have "discover cap rtt rnd (Suc 0) k now s = Some r"
      using next_step [OF ch(2,3), of "now + rtt" "rnd (Suc k)"] a step [of 0] by simp
    then show ?thesis by blast
  qed
qed

text \<open>A challenge within the capacity that has been answered is answered until it is certified.\<close>

lemma certifies_confirm:
  assumes "challenge s = Some ch" "sends ch = 0" "budget ch = b" "b \<le> cap" "confirmations s \<in> {1, 2}"
    "previously_certified s = None"
  shows "certifies cap s b"
proof -
  have send: "\<exists>c. next_send tok now s = (Some c, s\<lparr>challenge := Some c\<rparr>) \<and> budget c = b \<and> sends c = 1"
    if "challenge s = Some ch" "sends ch = 0" "budget ch = b" for s :: ProbeSearch and ch tok now
    using next_send_again [OF that(1), of now tok] that by simp
  have two: "certifies cap s b" if "challenge s = Some ch" "sends ch = 0" "budget ch = b" "confirmations s = 2"
    "previously_certified s = None" for s ch
    by (rule certifies_echo [OF send [OF that(1-3)] assms(4)]) (simp add: acknowledge_def Let_def CONFIRMATIONS_def that)
  have one: "certifies cap s b" if "challenge s = Some ch" "sends ch = 0" "budget ch = b" "confirmations s = 1"
    "previously_certified s = None" for s ch
    by (rule certifies_echo [OF send [OF that(1-3)] assms(4)])
      (simp add: acknowledge_def Let_def CONFIRMATIONS_def that word_le_nat_alt, rule two, (rule refl | simp add: that)+)
  show ?thesis using assms one two by auto
qed

lemma certifies_last:
  assumes "challenge s = None" "candidates s = b # bs" "b \<le> cap" "confirmations s = 0" "previously_certified s = None"
    "discovery s" "case upper s of None \<Rightarrow> True | Some u \<Rightarrow> u \<le> b + 1"
  shows "certifies cap s b"
proof (rule certifies_echo [OF _ assms(3)])
  show "\<exists>c. next_send tok now s = (Some c, s\<lparr>candidates := bs\<rparr>\<lparr>challenge := Some c\<rparr>) \<and> budget c = b \<and> sends c = 1" for tok now
    using next_send_fresh [OF assms(1,2), of tok now] by simp
next
  fix ch :: Challenge and now fresh assume "budget ch = b" "sends ch = 1"
  then show "case acknowledge (token ch) b now fresh (s\<lparr>candidates := bs\<rparr>\<lparr>challenge := Some ch\<rparr>) of
      (Some x, _) \<Rightarrow> x = b | (None, s2) \<Rightarrow> certifies cap s2 b"
    using assms by (auto simp: acknowledge_def Let_def CONFIRMATIONS_def word_le_nat_alt intro!: certifies_confirm split: option.splits)
qed

text \<open>Bisection: a size that answered below, one that failed above.\<close>

lemma certifies_bisect:
  assumes "l \<le> cap" "cap < u" "challenge s = None" "candidates s = [l + (u - l) div 2]" "confirmations s = 0"
    "previously_certified s = None" "discovery s" "lower s = Some l" "upper s = Some u"
  shows "certifies cap s cap"
  using assms
proof (induction "u - l" arbitrary: u l s rule: less_induct)
  case less
  let ?m = "l + (u - l) div 2"
  show ?case
  proof (cases "cap < ?m")
    case True
    have d: "drop_failed ch (s\<lparr>candidates := [], challenge := Some ch\<rparr>) =
        s\<lparr>candidates := [l + (?m - l) div 2], challenge := None, confirmations := 0, upper := Some ?m\<rparr>" if "budget ch = ?m" for ch
      using less.prems that True by (simp add: drop_failed_def Let_def)
    show ?thesis
      by (rule certifies_drop [OF less.prems(3,4) True], simp only: d, rule less.hyps) (use less.prems True in auto)
  next
    case False
    show ?thesis
    proof (cases "?m + 1 < u")
      case True
      show ?thesis
      proof (rule certifies_echo)
        show "\<exists>c. next_send tok now s = (Some c, s\<lparr>candidates := []\<rparr>\<lparr>challenge := Some c\<rparr>) \<and> budget c = ?m \<and> sends c = 1" for tok now
          using next_send_fresh [OF less.prems(3,4), of tok now] by simp
      next
        fix ch :: Challenge and now fresh assume "budget ch = ?m" "sends ch = 1"
        then have "acknowledge (token ch) ?m now fresh (s\<lparr>candidates := []\<rparr>\<lparr>challenge := Some ch\<rparr>) =
            (None, s\<lparr>candidates := [?m + (u - ?m) div 2], challenge := None, confirmations := 0,
              timeout := adapt_timeout (timeout s) (now - sent_at ch), lower := Some ?m\<rparr>)"
          using less.prems True by (simp add: acknowledge_def Let_def)
        moreover have "certifies cap (s\<lparr>candidates := [?m + (u - ?m) div 2], challenge := None, confirmations := 0,
              timeout := adapt_timeout (timeout s) (now - sent_at ch), lower := Some ?m\<rparr>) cap"
          by (rule less.hyps) (use less.prems True False in auto)
        ultimately show "case acknowledge (token ch) ?m now fresh (s\<lparr>candidates := []\<rparr>\<lparr>challenge := Some ch\<rparr>) of
            (Some x, _) \<Rightarrow> x = cap | (None, s2) \<Rightarrow> certifies cap s2 cap" by simp
      qed (use False in simp)
    next
      case close: False
      then have "?m = cap" using less.prems(2) False by linarith
      moreover have "certifies cap s ?m"
        by (rule certifies_last [OF less.prems(3,4)]) (use less.prems close False in simp_all)
      ultimately show ?thesis by simp
    qed
  qed
qed

lemma certifies_below:
  assumes "cap < u" "challenge s = None" "candidates s = cs" "confirmations s = 0" "previously_certified s = None"
    "discovery s" "lower s = None" "upper s = Some u" "\<exists>c \<in> set cs. c \<le> cap"
  shows "certifies cap s cap"
  using assms
proof (induction cs arbitrary: s u)
  case (Cons b bs)
  show ?case
  proof (cases "cap < b")
    case True
    have d: "drop_failed ch (s\<lparr>candidates := bs, challenge := Some ch\<rparr>) =
        s\<lparr>candidates := bs, challenge := None, confirmations := 0, upper := Some (min u b)\<rparr>" if "budget ch = b" for ch
      using Cons.prems that by (simp add: drop_failed_def Let_def)
    show ?thesis
      by (rule certifies_drop [OF Cons.prems(2,3) True], simp only: d, rule Cons.IH [where u = "min u b"]) (use Cons.prems True in auto)
  next
    case False
    show ?thesis
    proof (cases "b + 1 < u")
      case True
      show ?thesis
      proof (rule certifies_echo)
        show "\<exists>c. next_send tok now s = (Some c, s\<lparr>candidates := bs\<rparr>\<lparr>challenge := Some c\<rparr>) \<and> budget c = b \<and> sends c = 1" for tok now
          using next_send_fresh [OF Cons.prems(2,3), of tok now] by simp
      next
        fix ch :: Challenge and now fresh assume "budget ch = b" "sends ch = 1"
        then have "acknowledge (token ch) b now fresh (s\<lparr>candidates := bs\<rparr>\<lparr>challenge := Some ch\<rparr>) =
            (None, s\<lparr>candidates := [b + (u - b) div 2], challenge := None, confirmations := 0,
              timeout := adapt_timeout (timeout s) (now - sent_at ch), lower := Some b\<rparr>)"
          using Cons.prems True by (simp add: acknowledge_def Let_def)
        moreover have "certifies cap (s\<lparr>candidates := [b + (u - b) div 2], challenge := None, confirmations := 0,
              timeout := adapt_timeout (timeout s) (now - sent_at ch), lower := Some b\<rparr>) cap"
          by (rule certifies_bisect [of b _ u]) (use Cons.prems False in auto)
        ultimately show "case acknowledge (token ch) b now fresh (s\<lparr>candidates := bs\<rparr>\<lparr>challenge := Some ch\<rparr>) of
            (Some x, _) \<Rightarrow> x = cap | (None, s2) \<Rightarrow> certifies cap s2 cap" by simp
      qed (use False in simp)
    next
      case close: False
      then have "b = cap" using Cons.prems(1) False by linarith
      moreover have "certifies cap s b"
        by (rule certifies_last [OF Cons.prems(2,3)]) (use Cons.prems close False in simp_all)
      ultimately show ?thesis by simp
    qed
  qed
qed simp

lemma certifies_ladder:
  assumes "challenge s = None" "candidates s = cs" "confirmations s = 0" "previously_certified s = None"
    "discovery s" "lower s = None" "upper s = None" "\<exists>c \<in> set cs. c \<le> cap"
  shows "certifies cap s (if hd cs \<le> cap then hd cs else cap)"
proof (cases cs)
  case (Cons b bs)
  show ?thesis
  proof (cases "b \<le> cap")
    case True
    have "certifies cap s b" by (rule certifies_last) (use assms Cons True in simp_all)
    then show ?thesis using True Cons by simp
  next
    case False
    have d: "drop_failed ch (s\<lparr>candidates := bs, challenge := Some ch\<rparr>) =
        s\<lparr>candidates := bs, challenge := None, confirmations := 0, upper := Some b\<rparr>" if "budget ch = b" for ch
      using assms that by (simp add: drop_failed_def Let_def)
    have "certifies cap s cap"
      by (rule certifies_drop [of _ b bs], use assms Cons False in simp_all, simp only: d, rule certifies_below [where u = b and cs = bs])
        (use assms Cons False in auto)
    then show ?thesis using False Cons by simp
  qed
qed (use assms in simp)

section \<open>Runs of a search\<close>

text \<open>An echo the search takes for the answer to its challenge.\<close>

definition accepted :: "u128 \<Rightarrow> nat \<Rightarrow> ProbeSearch \<Rightarrow> bool" where
  "accepted tok b s = (case challenge s of None \<Rightarrow> False | Some ch \<Rightarrow> token ch = tok \<and> budget ch = b \<and> sends ch \<noteq> 0)"

text \<open>Every state a carrier can drive a search into, with the tokens drawn so far and the echoes taken, the latest first. A token
  drawn is one not drawn before.\<close>

inductive searching :: "ProbeSearch \<Rightarrow> u128 list \<Rightarrow> (u128 \<times> nat) list \<Rightarrow> bool" where
  searching_new: "searching ProbeSearch_default [] []"
| searching_start: "searching s used log \<Longrightarrow> searching (start cs s) used log"
| searching_discovery: "searching s used log \<Longrightarrow> searching (start_discovery cs s) used log"
| searching_confirmation: "searching s used log \<Longrightarrow> searching (start_confirmation cur base s) used log"
| searching_clear: "searching s used log \<Longrightarrow> searching (clear_search s) used log"
| searching_send: "searching s used log \<Longrightarrow> tok \<notin> set used \<Longrightarrow> searching (snd (next_send tok now s)) (tok # used) log"
| searching_echo: "searching s used log \<Longrightarrow> fresh \<notin> set used \<Longrightarrow>
    searching (snd (acknowledge tok b now fresh s)) (fresh # used) (if accepted tok b s then (tok, b) # log else log)"

definition search_inv :: "u128 list \<Rightarrow> (u128 \<times> nat) list \<Rightarrow> ProbeSearch \<Rightarrow> bool" where
  "search_inv used log s \<longleftrightarrow> distinct (map fst log) \<and> fst ` set log \<subseteq> set used \<and> unat (confirmations s) < 3 \<and>
     (case challenge s of
        None \<Rightarrow> confirmations s = 0
      | Some ch \<Rightarrow> token ch \<in> set used \<and> token ch \<notin> fst ` set log \<and> unat (confirmations s) \<le> length log \<and>
          (\<forall>e \<in> set (take (unat (confirmations s)) log). snd e = budget ch))"

lemma search_inv_reset:
  assumes "search_inv used log s" and "challenge s' = None" and "confirmations s' = 0"
  shows "search_inv used log s'"
  using assms by (simp add: search_inv_def)

lemma search_inv_mono:
  assumes "search_inv used log s"
  shows "search_inv (tok # used) log s"
  using assms by (auto simp: search_inv_def split: option.splits)

lemma search_inv_send:
  assumes "search_inv used log s" and "tok \<notin> set used"
  shows "search_inv (tok # used) log (snd (next_send tok now s))"
  using assms
proof (induction tok now s rule: next_send.induct)
  case (1 tok now s)
  note IH = "1.IH" and inv = "1.prems"(1) and new = "1.prems"(2)
  show ?case
  proof (cases "challenge s")
    case None
    show ?thesis
    proof (cases "candidates s")
      case Nil
      then have "next_send tok now s = (None, s)" using None by (subst next_send.simps) simp
      then show ?thesis using search_inv_mono [OF inv] by simp
    next
      case (Cons b bs)
      show ?thesis using inv new None by (auto simp: next_send_fresh [OF None Cons] search_inv_def)
    qed
  next
    case (Some ch)
    have dropped: "search_inv used log (drop_failed ch s)"
      by (rule search_inv_reset [OF inv]) (simp_all add: drop_failed_def Let_def)
    consider "sends ch \<noteq> 0 \<and> now < ch_deadline ch" | "\<not> (sends ch \<noteq> 0 \<and> now < ch_deadline ch)" "SENDS \<le> sends ch"
      | "\<not> (sends ch \<noteq> 0 \<and> now < ch_deadline ch)" "\<not> SENDS \<le> sends ch" by blast
    then show ?thesis
    proof cases
      case 1
      then have "next_send tok now s = (None, s)" using Some by (subst next_send.simps) simp
      then show ?thesis using search_inv_mono [OF inv] by simp
    next
      case 2
      then have "next_send tok now s = next_send tok now (drop_failed ch s)" using Some by (subst next_send.simps) auto
      moreover have "search_inv (tok # used) log (snd (next_send tok now (drop_failed ch s)))"
        by (rule IH [OF _ refl 2 dropped new]) (simp add: Some)
      ultimately show ?thesis by simp
    next
      case 3
      let ?ch = "ch\<lparr>sends := sends ch + 1, sent_at := now, ch_deadline := now + timeout s\<rparr>"
      have "next_send tok now s = (Some ?ch, s\<lparr>challenge := Some ?ch\<rparr>)"
        using 3 Some by (subst next_send.simps) (simp add: Let_def)
      then show ?thesis using search_inv_mono [OF inv] Some by (simp add: search_inv_def)
    qed
  qed
qed

lemma search_inv_echo:
  assumes inv: "search_inv used log s" and fresh: "fresh \<notin> set used"
  shows "search_inv (fresh # used) (if accepted tok b s then (tok, b) # log else log) (snd (acknowledge tok b now fresh s))"
proof (cases "accepted tok b s")
  case False
  then have "snd (acknowledge tok b now fresh s) = s" by (auto simp: accepted_def acknowledge_def split: option.splits)
  then show ?thesis using False inv by (auto simp: search_inv_def split: option.splits)
next
  case True
  then obtain ch where ch: "challenge s = Some ch" "token ch = tok" "budget ch = b" "sends ch \<noteq> 0"
    by (auto simp: accepted_def split: option.splits)
  have log: "distinct (map fst ((tok, b) # log))" "fst ` set ((tok, b) # log) \<subseteq> set (fresh # used)"
    "fresh \<notin> fst ` set ((tok, b) # log)"
    using inv ch fresh by (auto simp: search_inv_def)
  have conf: "unat (confirmations s + 1) = Suc (unat (confirmations s))"
    using inv by (simp add: search_inv_def unat_word_ariths)
  have taken: "unat (confirmations s) \<le> length log" "\<forall>e \<in> set (take (unat (confirmations s)) log). snd e = b"
    using inv ch by (simp_all add: search_inv_def)
  have "challenge (snd (acknowledge tok b now fresh s)) = None \<and> confirmations (snd (acknowledge tok b now fresh s)) = 0 \<or>
      challenge (snd (acknowledge tok b now fresh s)) = Some (ch\<lparr>token := fresh, sends := 0, sent_at := now, ch_deadline := now\<rparr>) \<and>
      confirmations (snd (acknowledge tok b now fresh s)) = confirmations s + 1 \<and> unat (confirmations s + 1) < 3"
    using ch by (auto simp: acknowledge_def Let_def clear_search_def CONFIRMATIONS_def word_le_nat_alt split: option.splits)
  then show ?thesis
  proof
    assume "challenge (snd (acknowledge tok b now fresh s)) = None \<and> confirmations (snd (acknowledge tok b now fresh s)) = 0"
    then show ?thesis using log True by (simp add: search_inv_def)
  next
    assume "challenge (snd (acknowledge tok b now fresh s)) = Some (ch\<lparr>token := fresh, sends := 0, sent_at := now, ch_deadline := now\<rparr>) \<and>
      confirmations (snd (acknowledge tok b now fresh s)) = confirmations s + 1 \<and> unat (confirmations s + 1) < 3"
    then show ?thesis using log taken ch conf True by (simp add: search_inv_def)
  qed
qed

lemma searching_inv:
  assumes "searching s used log"
  shows "search_inv used log s"
  using assms
proof induction
  case searching_new
  show ?case by (simp add: search_inv_def ProbeSearch_default_def)
next
  case (searching_send s used log tok now)
  then show ?case using search_inv_send by blast
next
  case (searching_echo s used log fresh tok b now)
  then show ?case using search_inv_echo by blast
qed (erule search_inv_reset, simp_all add: start_def start_discovery_def start_confirmation_def clear_search_def)+

section \<open>Properties\<close>

text \<open>C8. Discovery finds the path MTU: on a path that carries datagrams up to \<open>cap\<close> bytes and returns their echoes, a
  discovery over candidates one of which fits terminates and certifies the largest size worth using - the first candidate if it
  fits, otherwise exactly \<open>cap\<close>, to the byte - whatever the clock, the tokens and the search's previous state, as long as the echo of
  a challenge that fits is back before the search is called again.\<close>

theorem discovery_finds_path_mtu:
  assumes "\<exists>c \<in> set (take 32 cs). c \<le> cap"
  shows "\<exists>n. discover cap rtt rnd n k now (start_discovery cs s) = Some (if hd cs \<le> cap then hd cs else cap)"
proof -
  have "certifies cap (start_discovery cs s) (if hd (take 32 cs) \<le> cap then hd (take 32 cs) else cap)"
    by (rule certifies_ladder) (use assms in \<open>simp_all add: start_discovery_def start_def clear_search_def\<close>)
  moreover have "hd (take 32 cs) = hd cs" using assms by (cases cs) simp_all
  ultimately show ?thesis by (metis certifiesE)
qed

theorem discovery_finds_path_mtu_witness:
  "\<exists>n. discover 1443 20000000 (\<lambda>k. of_nat k) n 0 0 (start_discovery [1472, 1421, 1381, 1341, 548] ProbeSearch_default) = Some 1443"
  using discovery_finds_path_mtu [of "[1472, 1421, 1381, 1341, 548]" 1443 20000000 "\<lambda>k. of_nat k" 0 0 ProbeSearch_default] by simp

text \<open>C27. Three independent echoes certify a size: whatever a carrier does with a search, an echo that certifies a size the
  search was not started to reconfirm certifies the challenge's own size, and is the third echo in a row of that size, each of
  them answering a different token. Tokens are drawn fresh: a drawn token has not been used before, as for random 128-bit numbers.\<close>

theorem certification_needs_three_echoes:
  assumes "searching s used log" and "acknowledge tok b now fresh s = (Some b', s')" and "previously_certified s \<noteq> Some b'"
  shows "b' = b \<and> (\<exists>t1 t2 before. log = (t2, b) # (t1, b) # before \<and> distinct [tok, t2, t1])"
proof -
  obtain ch where ch: "challenge s = Some ch" "token ch = tok" "budget ch = b" and b': "b' = b" and c: "CONFIRMATIONS \<le> confirmations s + 1"
    using assms(2,3) by (auto simp: acknowledge_def Let_def split: option.splits if_splits)
  have inv: "search_inv used log s" by (rule searching_inv [OF assms(1)])
  then have "unat (confirmations s) = 2"
    using c by (auto simp: search_inv_def CONFIRMATIONS_def word_le_nat_alt unat_word_ariths)
  then have two: "2 \<le> length log" "\<forall>e \<in> set (take 2 log). snd e = b" and fresh: "tok \<notin> fst ` set log" and d: "distinct (map fst log)"
    using inv ch by (simp_all add: search_inv_def)
  obtain e2 e1 before where "log = e2 # e1 # before"
    using two(1) by (metis Suc_le_length_iff numeral_2_eq_2)
  then show ?thesis using two(2) fresh d b' by (cases e2; cases e1) auto
qed

text \<open>A search with one challenge of 1400 bytes outstanding, sent once at \<open>t\<close>, after \<open>c\<close> echoes.\<close>

definition demo_search :: "u8 \<Rightarrow> u128 \<Rightarrow> instant \<Rightarrow> duration \<Rightarrow> ProbeSearch" where
  "demo_search c tok t d = ProbeSearch_default\<lparr>confirmations := c, timeout := d,
     challenge := Some \<lparr>token = tok, budget = 1400, sends = 1, sent_at = t, ch_deadline = t + d\<rparr>\<rparr>"

lemma demo_first: "snd (next_send 1 0 (start [1400] ProbeSearch_default)) = demo_search 0 1 0 INITIAL_TIMEOUT"
  by (subst next_send_fresh [of _ 1400 "[]"]) (simp_all add: start_def clear_search_def demo_search_def ProbeSearch_default_def)

lemma demo_next:
  assumes "unat c < 2"
  shows "snd (next_send tok' (t + 20) (snd (acknowledge tok 1400 (t + 20) fresh (demo_search c tok t d)))) =
    demo_search (c + 1) fresh (t + 20) (adapt_timeout d 20)"
proof -
  have "\<not> 3 \<le> c + 1" using assms by (simp add: word_le_nat_alt unat_word_ariths)
  then show ?thesis
    by (simp add: acknowledge_def Let_def demo_search_def ProbeSearch_default_def CONFIRMATIONS_def
      next_send_again [where ch = "\<lparr>token = fresh, budget = 1400, sends = 0, sent_at = t + 20, ch_deadline = t + 20\<rparr>"])
qed

lemma demo_echo:
  assumes "searching (demo_search c tok t d) used log" "unat c < 2" "fresh \<notin> set used" "tok' \<notin> set (fresh # used)"
  shows "searching (demo_search (c + 1) fresh (t + 20) (adapt_timeout d 20)) (tok' # fresh # used) ((tok, 1400) # log)"
  using searching_send [OF searching_echo [OF assms(1,3), of tok 1400 "t + 20"] assms(4), of "t + 20"]
  unfolding demo_next [OF assms(2)] by (simp add: accepted_def demo_search_def)

lemma demo_searching: "\<exists>d. searching (demo_search 2 4 40 d) [5, 4, 3, 2, 1] [(2, 1400), (1, 1400)]"
proof -
  have "searching (demo_search 0 1 0 INITIAL_TIMEOUT) [1] []"
    using searching_send [OF searching_start [OF searching_new, of "[1400]"], of 1 0] by (simp add: demo_first)
  from demo_echo [OF demo_echo [OF this, of 2 3], of 4 5] show ?thesis by simp blast
qed

theorem certification_needs_three_echoes_witness:
  "\<exists>d. searching (demo_search 2 4 40 d) [5, 4, 3, 2, 1] [(2, 1400), (1, 1400)] \<and>
     fst (acknowledge 4 1400 60 6 (demo_search 2 4 40 d)) = Some 1400 \<and> distinct [4, 2, 1 :: u128]"
proof -
  obtain d where d: "searching (demo_search 2 4 40 d) [5, 4, 3, 2, 1] [(2, 1400), (1, 1400)]" using demo_searching by blast
  have f: "fst (acknowledge 4 1400 60 6 (demo_search 2 4 40 d)) = Some 1400" and p: "previously_certified (demo_search 2 4 40 d) = None"
    by (simp_all add: acknowledge_def demo_search_def ProbeSearch_default_def Let_def CONFIRMATIONS_def)
  have "acknowledge 4 1400 60 6 (demo_search 2 4 40 d) = (Some 1400, snd (acknowledge 4 1400 60 6 (demo_search 2 4 40 d)))"
    using f by (metis prod.collapse)
  from certification_needs_three_echoes [OF d this] show ?thesis using d f p by auto
qed

end
