(* ===== verification/Ip_Addr.thy ===== *)
theory Ip_Addr
  imports Qeli_Prelude "HOL-Library.Char_ord"
begin

text \<open>
  The parts of the standard library the address code rests on: \<^verbatim>\<open>IpAddr\<close> and its classes, \<^verbatim>\<open>str::trim\<close>,
  \<^verbatim>\<open>str::split_once\<close>, and the parsers of \<^verbatim>\<open>u8\<close>, \<^verbatim>\<open>Ipv4Addr\<close>, \<^verbatim>\<open>Ipv6Addr\<close> and \<^verbatim>\<open>IpAddr\<close>. An
  address is its 32-bit or 128-bit big-endian value; a text is its list of characters.
\<close>

unbundle bit_operations_syntax

section \<open>Addresses\<close>

type_synonym Ipv4Addr = u32
type_synonym Ipv6Addr = u128

datatype IpAddr = V4 Ipv4Addr | V6 Ipv6Addr

fun is_ipv4 :: "IpAddr \<Rightarrow> bool" where
  "is_ipv4 (V4 _) = True" | "is_ipv4 (V6 _) = False"

fun is_ipv6 :: "IpAddr \<Rightarrow> bool" where
  "is_ipv6 (V4 _) = False" | "is_ipv6 (V6 _) = True"

definition ipv4_new :: "u8 \<Rightarrow> u8 \<Rightarrow> u8 \<Rightarrow> u8 \<Rightarrow> Ipv4Addr" where
  "ipv4_new a b c d = from_be_bytes [a, b, c, d]"

text \<open>\<^verbatim>\<open>is_unspecified\<close>, \<^verbatim>\<open>is_multicast\<close> (224.0.0.0/4, ff00::/8), \<^verbatim>\<open>is_broadcast\<close>, \<^verbatim>\<open>is_loopback\<close> and
  \<^verbatim>\<open>to_ipv4_mapped\<close> (::ffff:0:0/96).\<close>

definition ipv4_unspecified :: "Ipv4Addr \<Rightarrow> bool" where "ipv4_unspecified a \<longleftrightarrow> a = 0"
definition ipv4_multicast :: "Ipv4Addr \<Rightarrow> bool" where "ipv4_multicast a \<longleftrightarrow> 224 \<le> drop_bit 24 a \<and> drop_bit 24 a \<le> 239"
definition ipv4_broadcast :: "Ipv4Addr \<Rightarrow> bool" where "ipv4_broadcast a \<longleftrightarrow> a = 0xFFFFFFFF"
definition ipv6_unspecified :: "Ipv6Addr \<Rightarrow> bool" where "ipv6_unspecified a \<longleftrightarrow> a = 0"
definition ipv6_loopback :: "Ipv6Addr \<Rightarrow> bool" where "ipv6_loopback a \<longleftrightarrow> a = 1"
definition ipv6_multicast :: "Ipv6Addr \<Rightarrow> bool" where "ipv6_multicast a \<longleftrightarrow> drop_bit 120 a = 255"
definition ipv6_v4_mapped :: "Ipv6Addr \<Rightarrow> bool" where "ipv6_v4_mapped a \<longleftrightarrow> drop_bit 32 a = 0xFFFF"

text \<open>The order \<^verbatim>\<open>derive(Ord)\<close> gives: IPv4 before IPv6, then by value.\<close>

instantiation IpAddr :: linorder
begin

fun less_eq_IpAddr :: "IpAddr \<Rightarrow> IpAddr \<Rightarrow> bool" where
  "less_eq_IpAddr (V4 a) (V4 b) = (a \<le> b)"
| "less_eq_IpAddr (V4 a) (V6 b) = True"
| "less_eq_IpAddr (V6 a) (V4 b) = False"
| "less_eq_IpAddr (V6 a) (V6 b) = (a \<le> b)"

definition less_IpAddr :: "IpAddr \<Rightarrow> IpAddr \<Rightarrow> bool" where
  "less_IpAddr a b \<longleftrightarrow> a \<le> b \<and> \<not> b \<le> (a :: IpAddr)"

instance
proof
  fix a b c :: IpAddr
  show "a < b \<longleftrightarrow> a \<le> b \<and> \<not> b \<le> a" by (simp add: less_IpAddr_def)
  show "a \<le> a" by (cases a) simp_all
  show "a \<le> b \<Longrightarrow> b \<le> c \<Longrightarrow> a \<le> c" by (cases a; cases b; cases c) auto
  show "a \<le> b \<Longrightarrow> b \<le> a \<Longrightarrow> a = b" by (cases a; cases b) auto
  show "a \<le> b \<or> b \<le> a" by (cases a; cases b) auto
qed

end

section \<open>Text\<close>

definition is_space :: "char \<Rightarrow> bool" where
  "is_space c = (let n = of_char c :: int in 9 \<le> n \<and> n \<le> 13 \<or> n = 32)"

definition trim :: "string \<Rightarrow> string" where
  "trim s = rev (dropWhile is_space (rev (dropWhile is_space s)))"

fun split_once :: "char \<Rightarrow> string \<Rightarrow> (string \<times> string) option" where
  "split_once c [] = None"
| "split_once c (x # xs) = (if x = c then Some ([], xs) else map_option (\<lambda>(a, b). (x # a, b)) (split_once c xs))"

text \<open>\<^verbatim>\<open>char::to_digit\<close>.\<close>

definition to_digit :: "int \<Rightarrow> char \<Rightarrow> int option" where
  "to_digit radix c =
     (let n = of_char c :: int;
          d = (if 48 \<le> n \<and> n \<le> 57 then n - 48 else if 97 \<le> n \<and> n \<le> 122 then n - 87 else if 65 \<le> n \<and> n \<le> 90 then n - 55 else 99)
      in if d < radix then Some d else None)"

definition digits_val :: "int \<Rightarrow> string \<Rightarrow> int" where
  "digits_val radix s = foldl (\<lambda>v c. v * radix + (case to_digit radix c of None \<Rightarrow> 0 | Some d \<Rightarrow> d)) 0 s"

definition leading_digits :: "int \<Rightarrow> string \<Rightarrow> string" where
  "leading_digits radix s = takeWhile (\<lambda>c. to_digit radix c \<noteq> None) s"

text \<open>\<^verbatim>\<open>u8::from_str\<close>: an optional plus sign and decimal digits, up to 255.\<close>

definition parse_u8 :: "string \<Rightarrow> u8 option" where
  "parse_u8 s =
     (let ds = (case s of CHR ''+'' # t \<Rightarrow> t | _ \<Rightarrow> s)
      in if ds = [] \<or> leading_digits 10 ds \<noteq> ds \<or> 255 < digits_val 10 ds then None else Some (of_int (digits_val 10 ds)))"

section \<open>The address parsers\<close>

text \<open>Each reader takes a prefix of the text and returns what is left.\<close>

definition read_number :: "int \<Rightarrow> nat \<Rightarrow> bool \<Rightarrow> int \<Rightarrow> string \<Rightarrow> ('a::len word \<times> string) option" where
  "read_number radix max_digits allow_zero_prefix max_value s =
     (let ds = leading_digits radix s
      in if ds = [] \<or> max_digits < length ds \<or> (\<not> allow_zero_prefix \<and> hd ds = CHR ''0'' \<and> 1 < length ds) \<or> max_value < digits_val radix ds
         then None else Some (of_int (digits_val radix ds), drop (length ds) s))"

definition read_separator :: "char \<Rightarrow> nat \<Rightarrow> (string \<Rightarrow> 'a option) \<Rightarrow> string \<Rightarrow> 'a option" where
  "read_separator sep i inner s =
     (if i = 0 then inner s else case s of [] \<Rightarrow> None | c # t \<Rightarrow> if c = sep then inner t else None)"

fun read_octets :: "nat \<Rightarrow> nat \<Rightarrow> string \<Rightarrow> (u8 list \<times> string) option" where
  "read_octets 0 i s = Some ([], s)"
| "read_octets (Suc r) i s =
     (case read_separator (CHR ''.'') i (read_number 10 3 False 255) s of
        None \<Rightarrow> None
      | Some (v, t) \<Rightarrow> map_option (\<lambda>(vs, u). (v # vs, u)) (read_octets r (Suc i) t))"

definition read_ipv4_addr :: "string \<Rightarrow> (Ipv4Addr \<times> string) option" where
  "read_ipv4_addr s = map_option (\<lambda>(vs, t). (from_be_bytes vs, t)) (read_octets 4 0 s)"

text \<open>Groups of an IPv6 address; an embedded IPv4 address fills the last two.\<close>

fun read_groups :: "nat \<Rightarrow> nat \<Rightarrow> string \<Rightarrow> u16 list \<times> bool \<times> string" where
  "read_groups 0 i s = ([], False, s)"
| "read_groups (Suc r) i s =
     (case (if 1 \<le> r then read_separator (CHR '':'') i read_ipv4_addr s else None) of
        Some (v4, t) \<Rightarrow> ([ucast (drop_bit 16 v4), ucast v4], True, t)
      | None \<Rightarrow>
          (case read_separator (CHR '':'') i (read_number 16 4 True 65535) s of
             Some (g, t) \<Rightarrow> (let (gs, v4, u) = read_groups r (Suc i) t in (g # gs, v4, u))
           | None \<Rightarrow> ([], False, s)))"

definition ipv6_from_groups :: "u16 list \<Rightarrow> Ipv6Addr" where
  "ipv6_from_groups gs = foldl (\<lambda>v g. push_bit 16 v OR ucast g) 0 gs"

definition read_ipv6_addr :: "string \<Rightarrow> (Ipv6Addr \<times> string) option" where
  "read_ipv6_addr s =
     (let (head, head_ipv4, t) = read_groups 8 0 s
      in if length head = 8 then Some (ipv6_from_groups head, t)
         else if head_ipv4 then None
         else case t of
                CHR '':'' # CHR '':'' # u \<Rightarrow>
                  (let (tail, _, v) = read_groups (8 - (length head + 1)) 0 u
                   in Some (ipv6_from_groups (head @ replicate (8 - length head - length tail) 0 @ tail), v))
              | _ \<Rightarrow> None)"

definition parse_with :: "(string \<Rightarrow> ('a \<times> string) option) \<Rightarrow> string \<Rightarrow> 'a option" where
  "parse_with p s = (case p s of Some (a, []) \<Rightarrow> Some a | _ \<Rightarrow> None)"

definition parse_ipv4_addr :: "string \<Rightarrow> Ipv4Addr option" where
  "parse_ipv4_addr s = (if 15 < length s then None else parse_with read_ipv4_addr s)"

definition parse_ipv6_addr :: "string \<Rightarrow> Ipv6Addr option" where
  "parse_ipv6_addr s = parse_with read_ipv6_addr s"

definition parse_ip_addr :: "string \<Rightarrow> IpAddr option" where
  "parse_ip_addr s =
     parse_with (\<lambda>s. case read_ipv4_addr s of Some (a, t) \<Rightarrow> Some (V4 a, t) | None \<Rightarrow> map_option (map_prod V6 id) (read_ipv6_addr s)) s"

section \<open>Prefixes\<close>

text \<open>\<^verbatim>\<open>MAX << (width - prefix)\<close>, and 0 for the empty prefix.\<close>

definition prefix_mask :: "nat \<Rightarrow> nat \<Rightarrow> 'a::len word" where
  "prefix_mask width prefix = (if prefix = 0 then 0 else push_bit (width - prefix) (- 1))"

lemma masked_eq_iff:
  fixes a x :: "'a::len word"
  assumes "p \<le> LENGTH('a)"
  shows "x AND prefix_mask LENGTH('a) p = a AND prefix_mask LENGTH('a) p \<longleftrightarrow> drop_bit (LENGTH('a) - p) x = drop_bit (LENGTH('a) - p) a"
proof (cases "p = 0")
  case True
  have "drop_bit LENGTH('a) w = 0" for w :: "'a word" by (rule bit_word_eqI) (auto simp: bit_simps dest: bit_imp_le_length)
  then show ?thesis using True by (simp add: prefix_mask_def)
next
  case False
  let ?k = "LENGTH('a) - p"
  have m: "w AND push_bit ?k (- 1) = push_bit ?k (drop_bit ?k w)" for w :: "'a word"
    by (rule bit_word_eqI) (auto simp: bit_simps)
  have "push_bit ?k (drop_bit ?k x) = push_bit ?k (drop_bit ?k a) \<longleftrightarrow> drop_bit ?k x = drop_bit ?k a"
  proof
    assume eq: "push_bit ?k (drop_bit ?k x) = push_bit ?k (drop_bit ?k a)"
    then have "drop_bit ?k (push_bit ?k (drop_bit ?k x)) = drop_bit ?k (push_bit ?k (drop_bit ?k a))" by simp
    moreover have "drop_bit ?k (push_bit ?k (drop_bit ?k w)) = drop_bit ?k w" for w :: "'a word"
      by (rule bit_word_eqI) (auto simp: bit_simps dest: bit_imp_le_length)
    ultimately show "drop_bit ?k x = drop_bit ?k a" by simp
  qed simp
  then show ?thesis using False by (simp only: prefix_mask_def m if_False)
qed

end
