(* ===== verification/Ip_Packet.thy ===== *)
theory Ip_Packet
  imports Ip_Addr
begin

text \<open>
  The bounded parser of inner datagrams, \<^verbatim>\<open>protocol/ip.rs\<close>: the checks on the IPv4 and IPv6 headers and the walk along
  the IPv6 extension headers.
\<close>

section \<open>Data\<close>

definition IPV4_MIN_HEADER :: nat where "IPV4_MIN_HEADER = 20"
definition IPV6_HEADER :: nat where "IPV6_HEADER = 40"
definition MAX_EXTENSION_HEADERS :: nat where "MAX_EXTENSION_HEADERS = 8"
definition MAX_EXTENSION_BYTES :: nat where "MAX_EXTENSION_BYTES = 256"

datatype IpVersion = Ver4 | Ver6

record FragmentInfo =
  fi_id :: u32
  fi_offset :: u16
  fi_more :: bool
  fi_protocol :: u8

definition is_fragmented :: "FragmentInfo \<Rightarrow> bool" where
  "is_fragmented f \<longleftrightarrow> fi_offset f \<noteq> 0 \<or> fi_more f"

record IpPacketMeta =
  version :: IpVersion
  source :: IpAddr
  destination :: IpAddr
  ip_protocol :: u8
  l4_offset :: "nat option"
  ip_fragment :: "FragmentInfo option"
  packet_len :: nat

datatype IpPacketError = EmptyPacket | UnsupportedVersion u8 | TruncatedHeader | InvalidIpv4HeaderLength | InvalidIpv4Fragment
  | LengthMismatch | Ipv6Jumbogram | TruncatedExtension | ExtensionLimit | DuplicateFragmentHeader | InvalidIpv6Fragment

text \<open>\<^verbatim>\<open>packet.get(a..b)\<close>, and the big-endian \<^verbatim>\<open>u16\<close> at an index.\<close>

definition get_range :: "nat \<Rightarrow> nat \<Rightarrow> bytes \<Rightarrow> bytes option" where
  "get_range a b p = (if a \<le> b \<and> b \<le> length p then Some (slice a b p) else None)"

definition be16_at :: "bytes \<Rightarrow> nat \<Rightarrow> u16" where
  "be16_at p i = from_be_bytes [p ! i, p ! (i + 1)]"

definition ports :: "IpPacketMeta \<Rightarrow> bytes \<Rightarrow> (u16 \<times> u16) option" where
  "ports m packet =
     (if ip_protocol m \<noteq> 6 \<and> ip_protocol m \<noteq> 17 then None
      else case l4_offset m of
             None \<Rightarrow> None
           | Some off \<Rightarrow> map_option (\<lambda>b. (be16_at b 0, be16_at b 2)) (get_range off (off + 4) packet))"

section \<open>IPv4\<close>

definition parse_ipv4 :: "bytes \<Rightarrow> (IpPacketError, IpPacketMeta) result" where
  "parse_ipv4 p =
     (if length p < IPV4_MIN_HEADER then Err TruncatedHeader
      else let ihl = unat (p ! 0 AND 0x0f) * 4 in
      if ihl < IPV4_MIN_HEADER \<or> length p < ihl then Err InvalidIpv4HeaderLength
      else let total_len = unat (be16_at p 2) in
      if total_len < ihl \<or> total_len \<noteq> length p then Err LengthMismatch
      else let flags_offset = be16_at p 6;
               payload_len = total_len - ihl;
               off = flags_offset AND 0x1fff;
               more = (flags_offset AND 0x2000 \<noteq> 0);
               fragmented = (off \<noteq> 0 \<or> more);
               fragment_end = unat off * 8 + payload_len
           in
      if flags_offset AND 0x8000 \<noteq> 0
         \<or> (flags_offset AND 0x4000 \<noteq> 0 \<and> fragmented)
         \<or> (fragmented \<and> payload_len = 0)
         \<or> (fragmented \<and> u16_max - IPV4_MIN_HEADER < fragment_end)
         \<or> (more \<and> payload_len mod 8 \<noteq> 0)
      then Err InvalidIpv4Fragment
      else let fragment = \<lparr>fi_id = ucast (be16_at p 4), fi_offset = off, fi_more = more, fi_protocol = p ! 9\<rparr> in
      Ok \<lparr>version = Ver4,
          source = V4 (ipv4_new (p ! 12) (p ! 13) (p ! 14) (p ! 15)),
          destination = V4 (ipv4_new (p ! 16) (p ! 17) (p ! 18) (p ! 19)),
          ip_protocol = p ! 9,
          l4_offset = (if \<not> fragmented \<or> fi_offset fragment = 0 then Some ihl else None),
          ip_fragment = (if fragmented then Some fragment else None),
          packet_len = total_len\<rparr>)"

section \<open>IPv6\<close>

text \<open>The length of the extension header \<open>next\<close>, and \<open>None\<close> where the chain ends.\<close>

definition extension_len :: "bytes \<Rightarrow> u8 \<Rightarrow> nat \<Rightarrow> bool \<Rightarrow> (IpPacketError, nat option) result" where
  "extension_len p nxt off has_fragment =
     (if nxt = 0 \<or> nxt = 43 \<or> nxt = 60 then
        (case get_range off (off + 2) p of
           None \<Rightarrow> Err TruncatedExtension
         | Some header \<Rightarrow>
             (case Option.bind (checked_add (unat (header ! 1)) 1) (\<lambda>units. checked_mul units 8) of
                None \<Rightarrow> Err ExtensionLimit | Some n \<Rightarrow> Ok (Some n)))
      else if nxt = 44 then (if has_fragment then Err DuplicateFragmentHeader else Ok (Some 8))
      else if nxt = 51 then
        (case get_range off (off + 2) p of
           None \<Rightarrow> Err TruncatedExtension
         | Some header \<Rightarrow>
             (case Option.bind (checked_add (unat (header ! 1)) 2) (\<lambda>units. checked_mul units 4) of
                None \<Rightarrow> Err ExtensionLimit | Some n \<Rightarrow> Ok (Some n)))
      else Ok None)"

text \<open>The Fragment Header at \<open>off\<close>.\<close>

definition fragment_header6 :: "nat \<Rightarrow> nat \<Rightarrow> bytes \<Rightarrow> (IpPacketError, FragmentInfo) result" where
  "fragment_header6 total_len off header =
     (let wire = be16_at header 2;
          fragment_payload_len = total_len - (off + 8);
          fragment_offset = drop_bit 3 wire;
          more = (wire AND 1 \<noteq> 0);
          fragment_end = unat fragment_offset * 8 + fragment_payload_len
      in if header ! 1 \<noteq> 0
            \<or> wire AND 6 \<noteq> 0
            \<or> (more \<and> fragment_payload_len mod 8 \<noteq> 0)
            \<or> ((fragment_offset \<noteq> 0 \<or> more) \<and> fragment_payload_len = 0)
            \<or> (case checked_add (off - IPV6_HEADER) fragment_end of None \<Rightarrow> True | Some n \<Rightarrow> u16_max < n)
         then Err InvalidIpv6Fragment
         else Ok \<lparr>fi_id = from_be_bytes (slice 4 8 header), fi_offset = fragment_offset, fi_more = more, fi_protocol = header ! 0\<rparr>)"

text \<open>The loop: the protocol after the chain, where it starts, and the Fragment Header if there was one.\<close>

function extension_loop :: "bytes \<Rightarrow> nat \<Rightarrow> u8 \<Rightarrow> nat \<Rightarrow> nat \<Rightarrow> nat \<Rightarrow> FragmentInfo option
    \<Rightarrow> (IpPacketError, u8 \<times> nat \<times> FragmentInfo option) result" where
  "extension_loop p total_len nxt off extension_count extension_bytes fragment =
     (case extension_len p nxt off (fragment \<noteq> None) of
        Inl e \<Rightarrow> Err e
      | Inr None \<Rightarrow> Ok (nxt, off, fragment)
      | Inr (Some n) \<Rightarrow>
          (case checked_add extension_bytes n of
             None \<Rightarrow> Err ExtensionLimit
           | Some extension_bytes' \<Rightarrow>
               if MAX_EXTENSION_HEADERS < extension_count + 1 \<or> MAX_EXTENSION_BYTES < extension_bytes' then Err ExtensionLimit
               else (case get_range off (off + n) p of
                       None \<Rightarrow> Err TruncatedExtension
                     | Some header \<Rightarrow>
                         if nxt = 44
                         then (case fragment_header6 total_len off header of
                                 Inl e \<Rightarrow> Err e
                               | Inr f \<Rightarrow>
                                   if fi_offset f \<noteq> 0 then Ok (header ! 0, off + n, Some f)
                                   else extension_loop p total_len (header ! 0) (off + n) (extension_count + 1) extension_bytes' (Some f))
                         else extension_loop p total_len (header ! 0) (off + n) (extension_count + 1) extension_bytes' fragment)))"
  by pat_completeness auto
termination
  by (relation "measure (\<lambda>(p, t, nxt, off, c, b, f). MAX_EXTENSION_HEADERS - c)") auto

declare extension_loop.simps [simp del]

definition parse_ipv6 :: "bytes \<Rightarrow> (IpPacketError, IpPacketMeta) result" where
  "parse_ipv6 p =
     (if length p < IPV6_HEADER then Err TruncatedHeader
      else let payload_len = unat (be16_at p 4) in
      if payload_len = 0 \<and> length p \<noteq> IPV6_HEADER then Err Ipv6Jumbogram
      else (case checked_add IPV6_HEADER payload_len of
              None \<Rightarrow> Err LengthMismatch
            | Some total_len \<Rightarrow>
                if total_len \<noteq> length p then Err LengthMismatch
                else (case extension_loop p total_len (p ! 6) IPV6_HEADER 0 0 None of
                        Inl e \<Rightarrow> Err e
                      | Inr (nxt, off, fragment) \<Rightarrow>
                          Ok \<lparr>version = Ver6,
                              source = V6 (from_be_bytes (slice 8 24 p)),
                              destination = V6 (from_be_bytes (slice 24 40 p)),
                              ip_protocol = nxt,
                              l4_offset = (if (case fragment of None \<Rightarrow> True | Some f \<Rightarrow> fi_offset f = 0) then Some off else None),
                              ip_fragment = fragment,
                              packet_len = total_len\<rparr>)))"

definition parse_ip_packet :: "bytes \<Rightarrow> (IpPacketError, IpPacketMeta) result" where
  "parse_ip_packet p =
     (case p of
        [] \<Rightarrow> Err EmptyPacket
      | first # _ \<Rightarrow>
          (let v = drop_bit 4 first
           in if v = 4 then parse_ipv4 p else if v = 6 then parse_ipv6 p else Err (UnsupportedVersion v)))"

section \<open>Bounds\<close>

lemma extension_len_pos: "extension_len p nxt off h = Ok (Some n) \<Longrightarrow> 8 \<le> n"
  by (auto simp: extension_len_def checked_add_def checked_mul_def split: if_splits option.splits bind_splits)

lemma extension_len_44: "extension_len p 44 off h = Ok (Some n) \<Longrightarrow> n = 8 \<and> \<not> h"
  by (auto simp: extension_len_def split: if_splits)

lemma get_range_Some: "get_range a b p = Some h \<longleftrightarrow> a \<le> b \<and> b \<le> length p \<and> h = slice a b p"
  by (auto simp: get_range_def)

lemma fragment_header6_end:
  assumes "fragment_header6 len off h = Ok f"
  shows "unat (fi_offset f) * 8 + (len - (off + 8)) \<le> 65535"
  using assms by (auto simp: fragment_header6_def Let_def u16_max_def checked_add_def split: if_splits)

definition fragment_fits :: "nat \<Rightarrow> nat \<Rightarrow> FragmentInfo option \<Rightarrow> bool" where
  "fragment_fits len off fr = (case fr of None \<Rightarrow> True | Some f \<Rightarrow> unat (fi_offset f) * 8 + (len - off) \<le> 65535)"

lemma fragment_fits_mono: "fragment_fits len off fr \<Longrightarrow> off \<le> off' \<Longrightarrow> fragment_fits len off' fr"
  by (auto simp: fragment_fits_def split: option.splits)

text \<open>One round of the loop, as a rule.\<close>

lemma extension_loop_cases:
  assumes "extension_loop p len nxt off c b fr = Ok (n, o', f)"
  obtains (chain_end) "n = nxt" "o' = off" "f = fr"
  | (later_fragment) f' k where "f = Some f'" "fi_offset f' \<noteq> 0" "extension_len p nxt off (fr \<noteq> None) = Ok (Some k)" "k = 8" "nxt = 44"
      "o' = off + k" "off + k \<le> length p" "b + k \<le> MAX_EXTENSION_BYTES" "fragment_header6 len off (slice off (off + k) p) = Ok f'"
  | (more) k fr' where "extension_len p nxt off (fr \<noteq> None) = Ok (Some k)" "c < MAX_EXTENSION_HEADERS" "b + k \<le> MAX_EXTENSION_BYTES"
      "off + k \<le> length p" "nxt \<noteq> 44 \<and> fr' = fr \<or>
        (\<exists>f'. nxt = 44 \<and> k = 8 \<and> fr' = Some f' \<and> fragment_header6 len off (slice off (off + k) p) = Ok f' \<and> fi_offset f' = 0)"
      "extension_loop p len (slice off (off + k) p ! 0) (off + k) (c + 1) (b + k) fr' = Ok (n, o', f)"
proof (cases "extension_len p nxt off (fr \<noteq> None)")
  case (Inl e)
  then show ?thesis using assms by (subst (asm) extension_loop.simps) simp
next
  case (Inr x)
  show ?thesis
  proof (cases x)
    case None
    then show ?thesis using assms Inr chain_end by (subst (asm) extension_loop.simps) simp
  next
    case (Some k)
    note eq = assms [unfolded extension_loop.simps [of p len nxt off c b fr] Inr Some, simplified]
    have lim: "c < MAX_EXTENSION_HEADERS" "b + k \<le> MAX_EXTENSION_BYTES" "off + k \<le> length p"
      using eq by (auto simp: checked_add_def get_range_def split: if_splits)
    then have "checked_add b k = Some (b + k)" "get_range off (off + k) p = Some (slice off (off + k) p)"
      by (simp_all add: checked_add_def usize_max_def MAX_EXTENSION_BYTES_def get_range_def)
    note eq' = eq [unfolded this, simplified]
    show ?thesis
    proof (cases "nxt = 44")
      case False
      then show ?thesis using more [of k fr] eq' lim Inr Some by simp
    next
      case True
      then have k: "k = 8" using extension_len_44 Inr Some by blast
      obtain f' where f': "fragment_header6 len off (slice off (off + k) p) = Ok f'"
        using eq' True lim by (auto split: sum.splits if_splits)
      show ?thesis
      proof (cases "fi_offset f' = 0")
        case True
        then show ?thesis using more [of k "Some f'"] eq' lim Inr Some f' k \<open>nxt = 44\<close> by simp
      next
        case False
        then show ?thesis using later_fragment [of f' k] eq' lim Inr Some f' k \<open>nxt = 44\<close> by simp
      qed
    qed
  qed
qed

lemma extension_loop_bounds:
  assumes "extension_loop p len nxt off c b fr = Ok (n, o', f)" and "len = length p" and "off = IPV6_HEADER + b"
    and "off \<le> length p" and "b \<le> MAX_EXTENSION_BYTES" and "fragment_fits len off fr"
  shows "off \<le> o' \<and> o' \<le> length p \<and> o' \<le> IPV6_HEADER + MAX_EXTENSION_BYTES \<and> fragment_fits len o' f"
  using assms
proof (induction "MAX_EXTENSION_HEADERS - c" arbitrary: nxt off c b fr rule: less_induct)
  case less
  from less.prems(1) show ?case
  proof (cases rule: extension_loop_cases)
    case chain_end
    then show ?thesis using less.prems by simp
  next
    case (later_fragment f' k)
    then show ?thesis using less.prems fragment_header6_end [OF later_fragment(9)] by (simp add: fragment_fits_def)
  next
    case (more k fr')
    have "fragment_fits len (off + k) fr'"
      using more(5)
    proof
      assume "nxt \<noteq> 44 \<and> fr' = fr"
      then show ?thesis using fragment_fits_mono [OF less.prems(6)] by simp
    next
      assume "\<exists>f'. nxt = 44 \<and> k = 8 \<and> fr' = Some f' \<and> fragment_header6 len off (slice off (off + k) p) = Ok f' \<and> fi_offset f' = 0"
      then show ?thesis using fragment_header6_end by (fastforce simp: fragment_fits_def)
    qed
    then have "off + k \<le> o' \<and> o' \<le> length p \<and> o' \<le> IPV6_HEADER + MAX_EXTENSION_BYTES \<and> fragment_fits len o' f"
      by (intro less.hyps [OF _ more(6)]) (use more less.prems in auto)
    then show ?thesis by simp
  qed
qed

lemma parse_ipv4_bounds:
  assumes "parse_ipv4 p = Ok m"
  shows "packet_len m = length p \<and> version m = Ver4 \<and> is_ipv4 (source m) \<and> is_ipv4 (destination m) \<and>
    (\<exists>o'. 20 \<le> o' \<and> o' \<le> 60 \<and> o' \<le> length p \<and> fragment_fits (length p) o' (ip_fragment m) \<and>
      l4_offset m = (case ip_fragment m of None \<Rightarrow> Some o' | Some f \<Rightarrow> if fi_offset f = 0 then Some o' else None))"
proof -
  let ?ihl = "unat (p ! 0 AND 0x0f) * 4"
  have "unat (p ! 0 AND 0x0f) \<le> 15" using word_and_le1 [of "p ! 0" 15] by (simp add: word_le_nat_alt)
  then show ?thesis using assms
    by (intro conjI exI [of _ ?ihl])
      (auto simp: parse_ipv4_def Let_def IPV4_MIN_HEADER_def u16_max_def fragment_fits_def split: if_splits)
qed

lemma parse_ipv6_bounds:
  assumes "parse_ipv6 p = Ok m"
  shows "packet_len m = length p \<and> version m = Ver6 \<and> is_ipv6 (source m) \<and> is_ipv6 (destination m) \<and>
    (\<exists>o'. 40 \<le> o' \<and> o' \<le> 296 \<and> o' \<le> length p \<and> fragment_fits (length p) o' (ip_fragment m) \<and>
      l4_offset m = (case ip_fragment m of None \<Rightarrow> Some o' | Some f \<Rightarrow> if fi_offset f = 0 then Some o' else None))"
proof -
  obtain nxt o' f where loop: "extension_loop p (length p) (p ! 6) IPV6_HEADER 0 0 None = Ok (nxt, o', f)" and len: "IPV6_HEADER \<le> length p"
    and m: "packet_len m = length p" "version m = Ver6" "is_ipv6 (source m)" "is_ipv6 (destination m)" "ip_fragment m = f"
      "l4_offset m = (if (case f of None \<Rightarrow> True | Some f \<Rightarrow> fi_offset f = 0) then Some o' else None)"
    using assms by (auto simp: parse_ipv6_def Let_def checked_add_def split: if_splits option.splits sum.splits)
  have "IPV6_HEADER \<le> o' \<and> o' \<le> length p \<and> o' \<le> IPV6_HEADER + MAX_EXTENSION_BYTES \<and> fragment_fits (length p) o' f"
    by (rule extension_loop_bounds [OF loop]) (use len in \<open>simp_all add: fragment_fits_def\<close>)
  then show ?thesis using m by (intro conjI exI [of _ o']) (auto simp: IPV6_HEADER_def MAX_EXTENSION_BYTES_def split: option.splits)
qed

section \<open>Properties\<close>

text \<open>C28. What the parser accepts stays inside the packet: the declared length is the packet's length, both addresses are of
  the packet's family, the transport header - reported for every packet but a later fragment - starts behind the base header,
  within the packet and within 296 bytes whatever the extension chain, and a fragment ends within 65535 bytes of its datagram.\<close>

theorem parsed_packet_in_bounds:
  assumes "parse_ip_packet p = Ok m"
  shows "packet_len m = length p \<and> (version m = Ver4 \<longleftrightarrow> is_ipv4 (source m)) \<and> (version m = Ver4 \<longleftrightarrow> is_ipv4 (destination m)) \<and>
    (\<exists>o'. 20 \<le> o' \<and> o' \<le> length p \<and> o' \<le> 296 \<and>
       l4_offset m = (case ip_fragment m of None \<Rightarrow> Some o' | Some f \<Rightarrow> if fi_offset f = 0 then Some o' else None) \<and>
       (case ip_fragment m of None \<Rightarrow> True | Some f \<Rightarrow> unat (fi_offset f) * 8 + (length p - o') \<le> 65535))"
proof -
  have fam: "is_ipv6 a \<longleftrightarrow> \<not> is_ipv4 a" for a by (cases a) simp_all
  from assms have "parse_ipv4 p = Ok m \<or> parse_ipv6 p = Ok m"
    by (auto simp: parse_ip_packet_def Let_def split: list.splits if_splits)
  then show ?thesis
  proof
    assume "parse_ipv4 p = Ok m"
    from parse_ipv4_bounds [OF this] show ?thesis unfolding fragment_fits_def by auto
  next
    assume "parse_ipv6 p = Ok m"
    from parse_ipv6_bounds [OF this] obtain o' where "40 \<le> o'" "o' \<le> 296" "o' \<le> length p" "fragment_fits (length p) o' (ip_fragment m)"
      "l4_offset m = (case ip_fragment m of None \<Rightarrow> Some o' | Some f \<Rightarrow> if fi_offset f = 0 then Some o' else None)" by blast
    then show ?thesis
      using parse_ipv6_bounds [OF \<open>parse_ipv6 p = Ok m\<close>] fam by (intro conjI exI [of _ o']) (simp_all add: fragment_fits_def)
  qed
qed

text \<open>An IPv6 packet with a hop-by-hop header and a Fragment Header, the second fragment of its datagram.\<close>

definition demo_fragment6 :: bytes where
  "demo_fragment6 = [0x60, 0, 0, 0, 0, 24, 0, 64] @ [0xfd, 0, 0, 0, 0, 0, 0, 0, 0, 0, 0, 0, 0, 0, 0, 1]
     @ [0xfd, 0, 0, 0, 0, 0, 0, 0, 0, 0, 0, 0, 0, 0, 0, 2] @ [44, 0, 1, 4, 0, 0, 0, 0] @ [17, 0, 0, 9, 0, 0, 0, 7] @ [1, 2, 3, 4, 5, 6, 7, 8]"

theorem parsed_packet_in_bounds_witness:
  "\<exists>m. parse_ip_packet demo_fragment6 = Ok m \<and> packet_len m = 64 \<and> \<not> is_ipv4 (source m) \<and> l4_offset m = None"
proof -
  let ?f = "\<lparr>fi_id = 7, fi_offset = 1, fi_more = True, fi_protocol = 17\<rparr>"
  have len: "length demo_fragment6 = 64" and v: "be16_at demo_fragment6 4 = 24" "demo_fragment6 ! 6 = 0" by (code_simp | simp add: demo_fragment6_def)+
  have h: "slice 40 42 demo_fragment6 = [44, 0]" "slice 40 48 demo_fragment6 = [44, 0, 1, 4, 0, 0, 0, 0]"
    "slice 48 56 demo_fragment6 = [17, 0, 0, 9, 0, 0, 0, 7]" by code_simp+
  have w: "be16_at [17, 0, 0, 9, 0, 0, 0, 7] 2 = 9" "slice 4 8 [17, 0, 0, 9, 0, 0, 0, 7 :: u8] = [0, 0, 0, 7]"
    "(from_be_bytes [0, 0, 0, 7] :: u32) = 7" "drop_bit 3 (9 :: u16) = 1" by code_simp+
  have f: "fragment_header6 64 48 [17, 0, 0, 9, 0, 0, 0, 7] = Ok ?f"
    by (simp add: fragment_header6_def Let_def w checked_add_def usize_max_def u16_max_def IPV6_HEADER_def)
  have "extension_loop demo_fragment6 64 44 48 1 8 None = Ok (17, 56, Some ?f)"
    by (subst extension_loop.simps) (simp add: extension_len_def get_range_def len h f checked_add_def usize_max_def
      MAX_EXTENSION_HEADERS_def MAX_EXTENSION_BYTES_def)
  then have "extension_loop demo_fragment6 64 0 40 0 0 None = Ok (17, 56, Some ?f)"
    by (subst extension_loop.simps) (simp add: extension_len_def get_range_def len h checked_add_def checked_mul_def usize_max_def
      MAX_EXTENSION_HEADERS_def MAX_EXTENSION_BYTES_def)
  then obtain m where m: "parse_ipv6 demo_fragment6 = Ok m" "version m = Ver6" "ip_fragment m = Some ?f"
    by (simp add: parse_ipv6_def len v Let_def IPV6_HEADER_def checked_add_def usize_max_def)
  have p: "parse_ip_packet demo_fragment6 = Ok m"
    using m(1) by (simp add: parse_ip_packet_def) (simp add: demo_fragment6_def Let_def)
  show ?thesis using parsed_packet_in_bounds [OF p] p m(2,3) len by auto
qed

end
