(* ===== verification/Icmp.thy ===== *)
theory Icmp
  imports Ip_Packet
begin

text \<open>
  The path-MTU signals of the downlink, \<^verbatim>\<open>protocol/icmp.rs\<close>: the internet checksum, the fragmentation of an IPv4 datagram, and the
  ICMP Fragmentation Needed and ICMPv6 Packet Too Big packets.
\<close>

section \<open>Constants\<close>

definition ICMP_DEST_UNREACH :: u8 where "ICMP_DEST_UNREACH = 3"
definition ICMP_FRAG_NEEDED :: u8 where "ICMP_FRAG_NEEDED = 4"
definition ICMP_ERR_TOS :: u8 where "ICMP_ERR_TOS = 0xC0"
definition IP_PROTO_ICMP :: u8 where "IP_PROTO_ICMP = 1"
definition IPV4_HDR_LEN :: nat where "IPV4_HDR_LEN = 20"
definition ICMP_HDR_LEN :: nat where "ICMP_HDR_LEN = 8"
definition QUOTED_PAYLOAD :: nat where "QUOTED_PAYLOAD = 8"
definition ICMP_ERROR_TYPES :: "u8 list" where "ICMP_ERROR_TYPES = [3, 4, 5, 11, 12]"

definition icmp_is_error :: "bytes \<Rightarrow> nat \<Rightarrow> bool" where
  "icmp_is_error pkt ihl = (if ihl < length pkt then pkt ! ihl \<in> set ICMP_ERROR_TYPES else True)"

section \<open>The internet checksum\<close>

fun sum_words :: "u32 \<Rightarrow> bytes \<Rightarrow> u32" where
  "sum_words s (a # b # rest) = sum_words (s + ucast (from_be_bytes [a, b] :: u16)) rest"
| "sum_words s [a] = s + ucast (from_be_bytes [a, 0] :: u16)"
| "sum_words s [] = s"

lemma unat_fold_carry:
  "unat (((s :: u32) AND 0xFFFF) + drop_bit 16 s) = unat s mod 65536 + unat s div 65536"
  "drop_bit 16 s = 0 \<longleftrightarrow> unat s < 65536"
proof -
  have m: "(0xFFFF :: u32) = mask 16" by (simp add: mask_eq_exp_minus_1)
  have lo: "unat (s AND 0xFFFF) = unat s mod 65536"
    unfolding m take_bit_eq_mask [symmetric] by (simp add: unsigned_take_bit_eq take_bit_nat_def)
  have hi: "unat (drop_bit 16 s) = unat s div 65536" by (simp add: unat_drop_bit_eq drop_bit_nat_def)
  have "unat s < 4294967296" by simp
  then have "unat s div 65536 < 65536" by linarith
  then show "unat ((s AND 0xFFFF) + drop_bit 16 s) = unat s mod 65536 + unat s div 65536"
    by (simp add: unat_word_ariths lo hi)
  show "drop_bit 16 s = 0 \<longleftrightarrow> unat s < 65536"
    using hi by (metis div_eq_0_iff unat_eq_zero zero_neq_numeral)
qed

function fold_carries :: "u32 \<Rightarrow> u32" where
  "fold_carries s = (if drop_bit 16 s \<noteq> 0 then fold_carries ((s AND 0xFFFF) + drop_bit 16 s) else s)"
  by pat_completeness auto
termination
proof (relation "measure unat")
  fix s :: u32
  assume "drop_bit 16 s \<noteq> 0"
  then have "65536 \<le> unat s" by (simp add: unat_fold_carry(2))
  then have "unat s mod 65536 + unat s div 65536 < unat s"
    using div_mult_mod_eq [of "unat s" 65536] div_greater_zero_iff [of "unat s" 65536] by linarith
  then show "((s AND 0xFFFF) + drop_bit 16 s, s) \<in> measure unat" by (simp add: unat_fold_carry(1))
qed simp

declare fold_carries.simps [simp del]

definition checksum :: "bytes \<Rightarrow> u16" where
  "checksum data = NOT (ucast (fold_carries (sum_words 0 data)))"

definition has_df :: "bytes \<Rightarrow> bool" where
  "has_df pkt \<longleftrightarrow> IPV4_HDR_LEN \<le> length pkt \<and> drop_bit 4 (pkt ! 0) = 4 \<and> pkt ! 6 AND 0x40 \<noteq> 0"

section \<open>Fragmentation\<close>

text \<open>The options with the copied flag, and \<open>None\<close> on a malformed list.\<close>

function copied_options :: "bytes \<Rightarrow> bytes option" where
  "copied_options [] = Some []"
| "copied_options (opt # rest) =
     (let kind = opt AND 0x1F; copied = (opt AND 0x80 \<noteq> 0) in
      if kind = 0 then Some []
      else if kind = 1 then map_option (\<lambda>out. (if copied then [opt] else []) @ out) (copied_options rest)
      else case rest of
             [] \<Rightarrow> None
           | n # _ \<Rightarrow>
               if unat n < 2 \<or> length (opt # rest) < unat n then None
               else map_option (\<lambda>out. (if copied then take (unat n) (opt # rest) else []) @ out) (copied_options (drop (unat n) (opt # rest))))"
  by pat_completeness auto
termination
  by (relation "measure length") auto

definition later_fragment_header :: "bytes \<Rightarrow> bytes option" where
  "later_fragment_header hdr =
     (if length hdr < IPV4_HDR_LEN then None
      else case copied_options (drop IPV4_HDR_LEN hdr) of
             None \<Rightarrow> None
           | Some opts \<Rightarrow>
               (let out = take IPV4_HDR_LEN hdr @ opts;
                    out = out @ replicate ((4 - length out mod 4) mod 4) 0
                in if 60 < length out then None
                   else Some (out[0 := (out ! 0 AND 0xF0) OR of_nat (length out div 4)])))"

text \<open>\<^verbatim>\<open>frag[i..i + n].copy_from_slice(v)\<close>.\<close>

definition copy_at :: "nat \<Rightarrow> bytes \<Rightarrow> bytes \<Rightarrow> bytes" where
  "copy_at i v xs = take i xs @ v @ drop (i + length v) xs"

text \<open>One fragment: the header with its length, offset, flags and checksum, then the piece.\<close>

definition fragment_packet :: "bytes \<Rightarrow> nat \<Rightarrow> bool \<Rightarrow> bytes \<Rightarrow> bytes" where
  "fragment_packet hdr offset_units mf piece =
     (let frag = copy_at 2 (to_be_bytes (of_nat (length hdr + length piece) :: u16)) hdr;
          ff = (of_nat offset_units :: u16) AND 0x1FFF;
          ff = (if mf then ff OR 0x2000 else ff);
          frag = copy_at 6 (to_be_bytes ff) frag;
          frag = frag[10 := 0, 11 := 0];
          ck = checksum frag
      in copy_at 10 (to_be_bytes ck) frag @ piece)"

function fragment_pieces :: "bytes \<Rightarrow> bytes \<Rightarrow> nat \<Rightarrow> nat \<Rightarrow> bool \<Rightarrow> bytes \<Rightarrow> nat \<Rightarrow> bytes list" where
  "fragment_pieces first_hdr later_hdr per_frag base_offset orig_mf payload sent =
     (if per_frag = 0 \<or> length payload \<le> sent then []
      else let n = min per_frag (length payload - sent);
               is_last = (sent + n = length payload)
           in fragment_packet (if sent = 0 then first_hdr else later_hdr) (base_offset + sent div 8) (\<not> is_last \<or> orig_mf)
                (slice sent (sent + n) payload)
              # fragment_pieces first_hdr later_hdr per_frag base_offset orig_mf payload (sent + n))"
  by pat_completeness auto
termination
  by (relation "measure (\<lambda>(f, l, n, b, m, payload, sent). length payload - sent)") auto

declare fragment_pieces.simps [simp del]

definition fragment_ipv4 :: "bytes \<Rightarrow> nat \<Rightarrow> bytes list option" where
  "fragment_ipv4 pkt mtu =
     (if length pkt < IPV4_HDR_LEN \<or> drop_bit 4 (pkt ! 0) \<noteq> 4 \<or> has_df pkt then None
      else let ihl = unat (pkt ! 0 AND 0x0F) * 4 in
      if ihl < IPV4_HDR_LEN \<or> length pkt < ihl then None
      else (case later_fragment_header (take ihl pkt) of
              None \<Rightarrow> None
            | Some later_hdr \<Rightarrow>
                (let later_ihl = length later_hdr; total_len = unat (be16_at pkt 2) in
                 if length pkt < total_len \<or> total_len < ihl then None
                 else let payload = slice ihl total_len pkt in
                 if length pkt \<le> mtu then None
                 else if payload = [] then None
                 else let hdr_budget = max ihl later_ihl;
                          per_frag = (mtu - hdr_budget) div 8 * 8 in
                 if per_frag = 0 then None
                 else let flags_frag = be16_at pkt 6;
                          base_offset = unat (flags_frag AND 0x1FFF);
                          orig_mf = (flags_frag AND 0x2000 \<noteq> 0);
                          last_offset_units = base_offset + (length payload - 1) div 8 in
                 if 0x1FFF < last_offset_units then None
                 else Some (fragment_pieces (take ihl pkt) later_hdr per_frag base_offset orig_mf payload 0))))"

section \<open>ICMP\<close>

definition frag_needed :: "bytes \<Rightarrow> Ipv4Addr \<Rightarrow> u16 \<Rightarrow> bytes option" where
  "frag_needed offender router_ip next_hop_mtu =
     (if length offender < IPV4_HDR_LEN \<or> drop_bit 4 (offender ! 0) \<noteq> 4 then None
      else let ihl = unat (offender ! 0 AND 0x0F) * 4 in
      if ihl < IPV4_HDR_LEN \<or> length offender < ihl then None
      else let quote_len = min (ihl + QUOTED_PAYLOAD) (length offender);
               dst = ipv4_new (offender ! 12) (offender ! 13) (offender ! 14) (offender ! 15) in
      if ipv4_unspecified dst \<or> ipv4_multicast dst \<or> ipv4_broadcast dst then None
      else if offender ! 9 = IP_PROTO_ICMP \<and> icmp_is_error offender ihl then None
      else let total_len = IPV4_HDR_LEN + ICMP_HDR_LEN + quote_len;
               out = replicate total_len 0;
               out = out[0 := 0x45, 1 := ICMP_ERR_TOS];
               out = copy_at 2 (to_be_bytes (of_nat total_len :: u16)) out;
               out = out[8 := 64, 9 := IP_PROTO_ICMP];
               out = copy_at 12 (to_be_bytes router_ip) out;
               out = copy_at 16 (to_be_bytes dst) out;
               out = copy_at 10 (to_be_bytes (checksum (take IPV4_HDR_LEN out))) out;
               icmp = IPV4_HDR_LEN;
               out = out[icmp := ICMP_DEST_UNREACH, icmp + 1 := ICMP_FRAG_NEEDED];
               out = copy_at (icmp + 6) (to_be_bytes next_hop_mtu) out;
               out = copy_at (icmp + ICMP_HDR_LEN) (take quote_len offender) out
           in Some (copy_at (icmp + 2) (to_be_bytes (checksum (drop icmp out))) out))"

definition IPPROTO_ICMPV6 :: u8 where "IPPROTO_ICMPV6 = 58"
definition ICMPV6_PACKET_TOO_BIG :: u8 where "ICMPV6_PACKET_TOO_BIG = 2"
definition ICMPV6_HEADER :: nat where "ICMPV6_HEADER = 8"
definition ICMP_IPV6_MIN_MTU :: nat where "ICMP_IPV6_MIN_MTU = 1280"

text \<open>The pseudo-header the checksum of an ICMPv6 message starts with.\<close>

definition icmp6_pseudo :: "Ipv6Addr \<Rightarrow> Ipv6Addr \<Rightarrow> nat \<Rightarrow> bytes" where
  "icmp6_pseudo src dst payload_len = to_be_bytes src @ to_be_bytes dst @ to_be_bytes (of_nat payload_len :: u32) @ [0, 0, 0, IPPROTO_ICMPV6]"

text \<open>An offender whose own ICMPv6 type forbids an answer; a message with no type is not answered either.\<close>

definition icmp6_refused :: "IpPacketMeta \<Rightarrow> bytes \<Rightarrow> bool" where
  "icmp6_refused m offender =
     (ip_protocol m = IPPROTO_ICMPV6 \<and>
      (case l4_offset m of None \<Rightarrow> True | Some off \<Rightarrow> if off < length offender then offender ! off < 128 else True))"

definition packet_too_big_v6 :: "bytes \<Rightarrow> Ipv6Addr \<Rightarrow> u32 \<Rightarrow> bytes option" where
  "packet_too_big_v6 offender router_ip mtu =
     (let next_hop_mtu = max mtu (of_nat ICMP_IPV6_MIN_MTU) in
      if ipv6_unspecified router_ip \<or> ipv6_multicast router_ip then None
      else case parse_ip_packet offender of
             Inl _ \<Rightarrow> None
           | Inr m \<Rightarrow>
               if version m \<noteq> Ver6 then None
               else case source m of
                      V4 _ \<Rightarrow> None
                    | V6 dst \<Rightarrow>
                        if ipv6_unspecified dst \<or> ipv6_multicast dst then None
                        else if icmp6_refused m offender then None
                        else let quote_len = min (length offender) (ICMP_IPV6_MIN_MTU - IPV6_HEADER - ICMPV6_HEADER);
                                 payload_len = ICMPV6_HEADER + quote_len;
                                 out = replicate (IPV6_HEADER + payload_len) 0;
                                 out = out[0 := 0x60];
                                 out = copy_at 4 (to_be_bytes (of_nat payload_len :: u16)) out;
                                 out = out[6 := IPPROTO_ICMPV6, 7 := 64];
                                 out = copy_at 8 (to_be_bytes router_ip) out;
                                 out = copy_at 24 (to_be_bytes dst) out;
                                 icmp = IPV6_HEADER;
                                 out = out[icmp := ICMPV6_PACKET_TOO_BIG, icmp + 1 := 0];
                                 out = copy_at (icmp + 4) (to_be_bytes next_hop_mtu) out;
                                 out = copy_at (icmp + ICMPV6_HEADER) (take quote_len offender) out;
                                 icmp_checksum = checksum (icmp6_pseudo router_ip dst payload_len @ drop icmp out)
                             in Some (copy_at (icmp + 2) (to_be_bytes icmp_checksum) out))"

section \<open>The checksum verifies\<close>

text \<open>The sum of the 16-bit words, as a number.\<close>

fun word_sum :: "bytes \<Rightarrow> nat" where
  "word_sum (a # b # rest) = unat (from_be_bytes [a, b] :: u16) + word_sum rest"
| "word_sum [a] = unat (from_be_bytes [a, 0] :: u16)"
| "word_sum [] = 0"

lemma unat_u16_u32: "unat (ucast (w :: u16) :: u32) = unat w"
  by (simp add: unsigned_ucast_eq take_bit_nat_eq_self_iff) (use unat_u16_le [of w] in linarith)

lemma unat_sum_words:
  "unat s + 65535 * length d < 2 ^ 32 \<Longrightarrow> unat (sum_words s d) = unat s + word_sum d"
proof (induction s d rule: sum_words.induct)
  case (1 s a b rest)
  let ?w = "from_be_bytes [a, b] :: u16"
  have w: "unat ?w \<le> 65535" by simp
  have m: "unat (s + ucast ?w) = (unat s + unat ?w) mod 2 ^ 32" by (simp add: unat_word_ariths unat_u16_u32)
  have len: "unat s + 65535 * length rest + 131070 < 2 ^ 32" using 1(2) by simp
  then have "unat s + unat ?w < 2 ^ 32" using w by linarith
  then have u: "unat (s + ucast ?w) = unat s + unat ?w" unfolding m by (rule mod_less)
  have "unat (sum_words (s + ucast ?w) rest) = unat (s + ucast ?w) + word_sum rest"
    by (rule 1(1)) (use len u w in linarith)
  then show ?case using u by simp
next
  case (2 s a)
  have "unat (from_be_bytes [a, 0] :: u16) \<le> 65535" by simp
  moreover have "unat s + 65535 < 2 ^ 32" using 2 by simp
  ultimately have "(unat s + unat (from_be_bytes [a, 0] :: u16)) mod 2 ^ 32 = unat s + unat (from_be_bytes [a, 0] :: u16)"
    by (intro mod_less) linarith
  then show ?case by (simp add: unat_word_ariths unat_u16_u32)
qed simp

lemma word_sum_append: "even (length d) \<Longrightarrow> word_sum (d @ e) = word_sum d + word_sum e"
  by (induction d rule: word_sum.induct) auto

lemma fold_carries_unat:
  "unat (fold_carries s) < 65536 \<and> unat (fold_carries s) mod 65535 = unat s mod 65535 \<and> (unat (fold_carries s) = 0 \<longleftrightarrow> unat s = 0)"
proof (induction s rule: fold_carries.induct)
  case (1 s)
  show ?case
  proof (cases "drop_bit 16 s = 0")
    case True
    then show ?thesis by (subst (1 2 3) fold_carries.simps) (simp add: unat_fold_carry)
  next
    case False
    let ?t = "(s AND 0xFFFF) + drop_bit 16 s"
    have big: "65536 \<le> unat s" using False by (simp add: unat_fold_carry)
    have t: "unat ?t = unat s mod 65536 + unat s div 65536" by (rule unat_fold_carry(1))
    have "unat s = unat ?t + 65535 * (unat s div 65536)" unfolding t using div_mult_mod_eq [of "unat s" 65536] by linarith
    then have "unat s mod 65535 = unat ?t mod 65535" by (metis mod_mult_self2)
    moreover have "unat ?t \<noteq> 0" "unat s \<noteq> 0" unfolding t using big by (auto simp: div_eq_0_iff)
    moreover have "fold_carries s = fold_carries ?t" using False by (subst fold_carries.simps) simp
    ultimately show ?thesis using 1 [OF False] by simp
  qed
qed

lemma unat_u16_complement: "unat (- w - 1 :: u16) = 65535 - unat w"
proof -
  have "- w - 1 = (- 1) - w" by (simp only: diff_conv_add_uminus add.commute)
  then have "unat (- w - 1) = unat ((- 1) - w)" by (rule arg_cong)
  also have "\<dots> = unat (- 1 :: u16) - unat w" by (rule unat_sub) simp
  also have "unat (- 1 :: u16) = 65535" by (simp add: unsigned_minus_1_eq_mask mask_eq_exp_minus_1)
  finally show ?thesis .
qed

lemma unat_checksum:
  assumes "length d \<le> 65536"
  obtains r where "unat (checksum d) = 65535 - r" "r \<le> 65535" "r mod 65535 = word_sum d mod 65535" "r = 0 \<longleftrightarrow> word_sum d = 0"
proof
  let ?f = "fold_carries (sum_words 0 d)"
  have "unat (sum_words 0 d) = word_sum d" using unat_sum_words [of 0 d] assms by simp
  then show "unat ?f \<le> 65535" "unat ?f mod 65535 = word_sum d mod 65535" "unat ?f = 0 \<longleftrightarrow> word_sum d = 0"
    using fold_carries_unat [of "sum_words 0 d"] by simp_all
  have "unat (ucast ?f :: u16) = unat ?f" using fold_carries_unat [of "sum_words 0 d"] by (simp add: unsigned_ucast_eq take_bit_nat_eq_self_iff)
  then show "unat (checksum d) = 65535 - unat ?f"
    unfolding checksum_def by (simp add: not_eq_complement unat_u16_complement)
qed

lemma checksum_zero_iff:
  assumes "length d \<le> 65536"
  shows "checksum d = 0 \<longleftrightarrow> word_sum d \<noteq> 0 \<and> word_sum d mod 65535 = 0"
proof -
  obtain r where r: "unat (checksum d) = 65535 - r" "r \<le> 65535" "r mod 65535 = word_sum d mod 65535" "r = 0 \<longleftrightarrow> word_sum d = 0"
    by (rule unat_checksum [OF assms])
  have "checksum d = 0 \<longleftrightarrow> r = 65535" using r(1,2) by (auto simp: unat_eq_zero [symmetric])
  also have "\<dots> \<longleftrightarrow> r \<noteq> 0 \<and> r mod 65535 = 0" using r(2) by (auto elim!: dvdE simp: mod_eq_0_iff_dvd)
  finally show ?thesis using r by simp
qed

text \<open>Filling in the checksum of a message whose checksum field is zero makes the whole message sum up.\<close>

lemma checksum_filled:
  assumes "even (length a)" and "length (a @ b) \<le> 65000"
  shows "checksum (a @ to_be_bytes (checksum (a @ [0, 0] @ b)) @ b) = 0"
proof -
  let ?d = "a @ [0, 0] @ b" and ?c = "checksum (a @ [0, 0] @ b)"
  obtain r where r: "unat ?c = 65535 - r" "r \<le> 65535" "r mod 65535 = word_sum ?d mod 65535" "r = 0 \<longleftrightarrow> word_sum ?d = 0"
    by (rule unat_checksum [of ?d]) (use assms in auto)
  obtain x y where xy: "to_be_bytes ?c = [x, y]" "(from_be_bytes [x, y] :: u16) = ?c" by (rule u16_be_bytes)
  have z: "(from_be_bytes [0, 0] :: u16) = 0" by code_simp
  have sum: "word_sum (a @ to_be_bytes ?c @ b) = word_sum ?d + (65535 - r)"
    using assms(1) xy z r(1) by (simp add: word_sum_append)
  have "(word_sum ?d + (65535 - r)) mod 65535 = (r + (65535 - r)) mod 65535" by (metis r(3) mod_add_left_eq)
  then have "word_sum (a @ to_be_bytes ?c @ b) mod 65535 = 0" using r(2) sum by simp
  moreover have "word_sum (a @ to_be_bytes ?c @ b) \<noteq> 0" using sum r(2,4) by auto
  ultimately show ?thesis using assms(2) by (subst checksum_zero_iff) auto
qed

section \<open>Fragments are datagrams\<close>

lemma length_copy_at [simp]: "i + length v \<le> length xs \<Longrightarrow> length (copy_at i v xs) = length xs"
  by (simp add: copy_at_def)

lemma nth_copy_at:
  "i + length v \<le> length xs \<Longrightarrow> j < length xs \<Longrightarrow>
    copy_at i v xs ! j = (if i \<le> j \<and> j < i + length v then v ! (j - i) else xs ! j)"
  by (auto simp: copy_at_def nth_append nth_drop)

lemma be16_at_to_be_bytes: "be16_at (to_be_bytes w) 0 = w"
proof -
  obtain a b where "to_be_bytes w = [a, b]" "(from_be_bytes [a, b] :: u16) = w" by (rule u16_be_bytes)
  then show ?thesis by (simp add: be16_at_def)
qed

lemma be16_at_copy_same: "i + 2 \<le> length xs \<Longrightarrow> be16_at (copy_at i (to_be_bytes (w :: u16)) xs) i = w"
  using be16_at_to_be_bytes [of w] by (simp add: be16_at_def nth_copy_at)

lemma be16_at_append: "i + 1 < length xs \<Longrightarrow> be16_at (xs @ ys) i = be16_at xs i"
  by (simp add: be16_at_def nth_append)

lemma checksum_at:
  assumes "xs ! i = 0" "xs ! (i + 1) = 0" "even i" "i + 2 \<le> length xs" "length xs \<le> 65000"
  shows "checksum (copy_at i (to_be_bytes (checksum xs)) xs) = 0"
proof -
  have split: "xs = take i xs @ [0, 0] @ drop (i + 2) xs"
    using assms(1,2,4) id_take_nth_drop [of i xs] Cons_nth_drop_Suc [of "Suc i" xs] by simp
  have "checksum (take i xs @ to_be_bytes (checksum (take i xs @ [0, 0] @ drop (i + 2) xs)) @ drop (i + 2) xs) = 0"
    by (rule checksum_filled) (use assms in auto)
  then show ?thesis using split by (simp add: copy_at_def)
qed

text \<open>The flags word of a fragment.\<close>

definition flags_word :: "nat \<Rightarrow> bool \<Rightarrow> u16" where
  "flags_word off mf = (if mf then (of_nat off AND 0x1FFF) OR 0x2000 else of_nat off AND 0x1FFF)"

lemma flags_word_parts:
  assumes "off \<le> 0x1FFF"
  shows "flags_word off mf AND 0x1FFF = of_nat off" "(flags_word off mf AND 0x2000 \<noteq> 0) = mf"
    "flags_word off mf AND 0x8000 = 0" "flags_word off mf AND 0x4000 = 0"
proof -
  have m: "(0x1FFF :: u16) = mask 13" by (simp add: mask_eq_exp_minus_1)
  have o13: "(of_nat off :: u16) AND 0x1FFF = of_nat off"
    unfolding m take_bit_eq_mask [symmetric]
    by (rule word_unat_eq_iff [THEN iffD2]) (use assms in \<open>simp add: unsigned_take_bit_eq take_bit_nat_def\<close>)
  have z: "(of_nat off :: u16) AND k = 0" if "0x1FFF AND k = 0" for k :: u16
    by (subst o13 [symmetric]) (simp only: and.assoc that and_zero_eq)
  show "flags_word off mf AND 0x1FFF = of_nat off" "(flags_word off mf AND 0x2000 \<noteq> 0) = mf"
    "flags_word off mf AND 0x8000 = 0" "flags_word off mf AND 0x4000 = 0"
    by (auto simp: flags_word_def bit.conj_disj_distrib2 o13 z)
qed

text \<open>A base header: version 4 and a length field that counts all of it.\<close>

definition ipv4_header :: "bytes \<Rightarrow> bool" where
  "ipv4_header h \<longleftrightarrow> IPV4_HDR_LEN \<le> length h \<and> drop_bit 4 (h ! 0) = 4 \<and> unat (h ! 0 AND 0x0F) * 4 = length h"

definition filled_header :: "bytes \<Rightarrow> nat \<Rightarrow> bool \<Rightarrow> nat \<Rightarrow> bytes" where
  "filled_header hdr off mf n =
     (let frag = (copy_at 6 (to_be_bytes (flags_word off mf)) (copy_at 2 (to_be_bytes (of_nat (length hdr + n) :: u16)) hdr))[10 := 0, 11 := 0]
      in copy_at 10 (to_be_bytes (checksum frag)) frag)"

lemma fragment_packet_conv: "fragment_packet hdr off mf piece = filled_header hdr off mf (length piece) @ piece"
  by (simp add: fragment_packet_def filled_header_def flags_word_def Let_def)

lemma length_filled_header: "20 \<le> length hdr \<Longrightarrow> length (filled_header hdr off mf n) = length hdr"
  by (simp add: filled_header_def Let_def)

lemma filled_header_nth:
  assumes "20 \<le> length hdr" and "j < length hdr" and "j \<notin> {2, 3, 6, 7, 10, 11}"
  shows "filled_header hdr off mf n ! j = hdr ! j"
proof -
  have "\<not> (2 \<le> j \<and> j < 4)" "\<not> (6 \<le> j \<and> j < 8)" "\<not> (10 \<le> j \<and> j < 12)" "j \<noteq> 10" "j \<noteq> 11" using assms(3) by auto
  moreover from this have "j < 10 \<or> 12 \<le> j" by linarith
  ultimately show ?thesis using assms(1,2) by (auto simp: filled_header_def Let_def nth_copy_at)
qed

lemma filled_header_be16:
  assumes "20 \<le> length hdr"
  shows "be16_at (filled_header hdr off mf n) 2 = of_nat (length hdr + n)"
    and "be16_at (filled_header hdr off mf n) 6 = flags_word off mf"
    and "be16_at (filled_header hdr off mf n) 4 = be16_at hdr 4"
proof -
  have stay: "be16_at (copy_at 10 v (xs[10 := 0, 11 := 0])) i = be16_at xs i" if "i + 1 < 10" "length v = 2" "12 \<le> length xs" for v xs i
    using that by (simp add: be16_at_def nth_copy_at)
  have other: "be16_at (copy_at 6 v xs) i = be16_at xs i" if "i = 2 \<or> i = 4" "length v = 2" "12 \<le> length xs" for v xs i
    using that by (auto simp: be16_at_def nth_copy_at)
  have four: "be16_at (copy_at 2 v xs) 4 = be16_at xs 4" if "length v = 2" "12 \<le> length xs" for v xs
    using that by (auto simp: be16_at_def nth_copy_at)
  show "be16_at (filled_header hdr off mf n) 2 = of_nat (length hdr + n)" "be16_at (filled_header hdr off mf n) 6 = flags_word off mf"
    "be16_at (filled_header hdr off mf n) 4 = be16_at hdr 4"
    using assms by (simp_all add: filled_header_def Let_def stay other four be16_at_copy_same)
qed

lemma filled_header_checksum:
  assumes "20 \<le> length hdr" and "length hdr \<le> 60"
  shows "checksum (filled_header hdr off mf n) = 0"
  unfolding filled_header_def Let_def by (rule checksum_at) (use assms in simp_all)

text \<open>What the parser reads from one fragment.\<close>

lemma parse_fragment_packet:
  assumes h: "ipv4_header h" and off: "off \<le> 0x1FFF" and piece: "piece \<noteq> []" and fits: "length h + length piece \<le> 65535"
    and fin: "off * 8 + length piece \<le> 65515" and mult: "mf \<Longrightarrow> length piece mod 8 = 0" and part: "off \<noteq> 0 \<or> mf"
  shows "parse_ip_packet (fragment_packet h off mf piece) =
    Ok \<lparr>version = Ver4, source = V4 (ipv4_new (h ! 12) (h ! 13) (h ! 14) (h ! 15)),
        destination = V4 (ipv4_new (h ! 16) (h ! 17) (h ! 18) (h ! 19)), ip_protocol = h ! 9,
        l4_offset = (if off = 0 then Some (length h) else None),
        ip_fragment = Some \<lparr>fi_id = ucast (be16_at h 4), fi_offset = of_nat off, fi_more = mf, fi_protocol = h ! 9\<rparr>,
        packet_len = length h + length piece\<rparr>"
proof -
  let ?f = "filled_header h off mf (length piece)" and ?p = "filled_header h off mf (length piece) @ piece"
  have len: "20 \<le> length h" and lf: "length ?f = length h" using h by (simp_all add: ipv4_header_def IPV4_HDR_LEN_def length_filled_header)
  have nth: "?p ! j = h ! j" if "j < 20" "j \<notin> {2, 3, 6, 7, 10, 11}" for j
    using filled_header_nth [OF len _ that(2)] that(1) len lf by (simp add: nth_append)
  have n: "?p ! 0 = h ! 0" "?p ! 9 = h ! 9" "?p ! 12 = h ! 12" "?p ! 13 = h ! 13" "?p ! 14 = h ! 14" "?p ! 15 = h ! 15"
    "?p ! 16 = h ! 16" "?p ! 17 = h ! 17" "?p ! 18 = h ! 18" "?p ! 19 = h ! 19" by (rule nth; simp)+
  have b: "be16_at ?p 2 = of_nat (length h + length piece)" "be16_at ?p 6 = flags_word off mf" "be16_at ?p 4 = be16_at h 4"
    using len lf by (simp_all add: be16_at_append filled_header_be16)
  have u: "unat (of_nat (length h + length piece) :: u16) = length h + length piece" "unat (of_nat off :: u16) = off"
    using fits off by (simp_all only: unat_of_nat_u16)
  have o0: "(of_nat off :: u16) = 0 \<longleftrightarrow> off = 0" using u(2) by (metis unat_eq_zero)
  have ihl: "unat (h ! 0 AND 0x0F) * 4 = length h" using h by (simp add: ipv4_header_def)
  have lp: "length ?p = length h + length piece" using lf by simp
  have "parse_ipv4 ?p = Ok \<lparr>version = Ver4, source = V4 (ipv4_new (h ! 12) (h ! 13) (h ! 14) (h ! 15)),
        destination = V4 (ipv4_new (h ! 16) (h ! 17) (h ! 18) (h ! 19)), ip_protocol = h ! 9,
        l4_offset = (if off = 0 then Some (length h) else None),
        ip_fragment = Some \<lparr>fi_id = ucast (be16_at h 4), fi_offset = of_nat off, fi_more = mf, fi_protocol = h ! 9\<rparr>,
        packet_len = length h + length piece\<rparr>"
    unfolding parse_ipv4_def n b lp Let_def u ihl flags_word_parts [OF off] o0
    using len piece fin mult part o0 by (simp add: IPV4_MIN_HEADER_def u16_max_def)
  moreover have "parse_ip_packet ?p = parse_ipv4 ?p"
  proof -
    have "?p \<noteq> []" using piece by simp
    then obtain x xs where "?p = x # xs" by (metis list.exhaust)
    moreover from this have "drop_bit 4 x = 4" using n(1) h by (simp add: ipv4_header_def)
    ultimately show ?thesis by (simp add: parse_ip_packet_def)
  qed
  ultimately show ?thesis by (simp add: fragment_packet_conv)
qed

lemma copied_options_length: "copied_options os = Some out \<Longrightarrow> length out \<le> length os"
proof (induction os arbitrary: out rule: copied_options.induct)
  case (2 opt rest)
  consider "opt AND 0x1F = 0" | "opt AND 0x1F = 1" | "opt AND 0x1F \<noteq> 0" "opt AND 0x1F \<noteq> 1" by blast
  then show ?case
  proof cases
    case 2
    then obtain o' where o': "copied_options rest = Some o'" "length out \<le> Suc (length o')"
      using "2.prems" by (auto simp: Let_def)
    have "length o' \<le> length rest" by (rule "2.IH"(1) [OF refl refl _ 2 o'(1)]) (simp add: 2)
    then show ?thesis using o'(2) by simp
  next
    case 3
    obtain n more_opts where rest: "rest = n # more_opts" using "2.prems" 3 by (cases rest) (simp_all add: Let_def)
    obtain o' where o': "copied_options (drop (unat n) (opt # rest)) = Some o'" "length out \<le> unat n + length o'" and
      n: "\<not> (unat n < 2 \<or> length (opt # rest) < unat n)"
      using "2.prems" 3 rest by (auto simp: Let_def split: if_splits)
    have "length o' \<le> length (drop (unat n) (opt # rest))"
      by (rule "2.IH"(2) [OF refl refl 3 rest n o'(1)])
    then show ?thesis using o'(2) n by (simp del: not_less) linarith
  qed (use "2.prems" in \<open>simp add: Let_def\<close>)
qed simp

lemma header_byte:
  assumes "drop_bit 4 x = (4 :: u8)" and "k \<le> 15"
  shows "drop_bit 4 ((x AND 0xF0) OR of_nat k) = 4" and "unat (((x AND 0xF0) OR of_nat k) AND 0x0F) = k"
proof -
  have u: "unat (of_nat k :: u8) = k" using assms(2) by (simp add: unat_of_nat)
  have m: "(0x0F :: u8) = mask 4" by (simp add: mask_eq_exp_minus_1)
  have low: "(of_nat k :: u8) AND 0x0F = of_nat k"
    unfolding m take_bit_eq_mask [symmetric]
    by (rule word_unat_eq_iff [THEN iffD2]) (use assms u in \<open>simp add: unsigned_take_bit_eq take_bit_nat_def\<close>)
  have hi: "drop_bit 4 (of_nat k :: u8) = 0"
    by (rule word_unat_eq_iff [THEN iffD2]) (use assms u in \<open>simp add: unat_drop_bit_eq drop_bit_nat_def\<close>)
  show "drop_bit 4 ((x AND 0xF0) OR of_nat k) = 4" by (simp add: drop_bit_or drop_bit_and assms hi)
  show "unat (((x AND 0xF0) OR of_nat k) AND 0x0F) = k" by (simp add: bit.conj_disj_distrib2 and.assoc low u)
qed

lemma pad_to_words:
  fixes n :: nat
  shows "(n + (4 - n mod 4) mod 4) mod 4 = 0" and "n \<le> k \<Longrightarrow> k mod 4 = 0 \<Longrightarrow> n + (4 - n mod 4) mod 4 \<le> k"
proof -
  have "n mod 4 < 4" by simp
  then consider "n mod 4 = 0" | "n mod 4 = 1" | "n mod 4 = 2" | "n mod 4 = 3" by linarith
  then have "(n + (4 - n mod 4) mod 4) mod 4 = 0 \<and> (n \<le> k \<longrightarrow> k mod 4 = 0 \<longrightarrow> n + (4 - n mod 4) mod 4 \<le> k)"
    by cases (simp_all, presburger+)
  then show "(n + (4 - n mod 4) mod 4) mod 4 = 0" and "n \<le> k \<Longrightarrow> k mod 4 = 0 \<Longrightarrow> n + (4 - n mod 4) mod 4 \<le> k"
    by (rule conjunct1, elim conjE impE)
qed

lemma later_fragment_header_ok:
  assumes "ipv4_header h" and "later_fragment_header h = Some l"
  shows "ipv4_header l" and "length l \<le> length h" and "length l \<le> 60" and "\<And>j. 0 < j \<Longrightarrow> j < 20 \<Longrightarrow> l ! j = h ! j"
proof -
  have h: "20 \<le> length h" "drop_bit 4 (h ! 0) = 4" "length h mod 4 = 0" using assms(1)
    by (auto simp: ipv4_header_def IPV4_HDR_LEN_def) (metis mod_mult_self2_is_0)
  obtain opts where opts: "copied_options (drop 20 h) = Some opts" using assms(2) h
    by (auto simp: later_fragment_header_def IPV4_HDR_LEN_def split: option.splits)
  define out where "out = take 20 h @ opts @ replicate ((4 - (20 + length opts) mod 4) mod 4) 0"
  have l: "l = out[0 := (out ! 0 AND 0xF0) OR of_nat (length out div 4)]" and le: "length out \<le> 60"
    using assms(2) h opts by (auto simp: later_fragment_header_def IPV4_HDR_LEN_def Let_def out_def split: if_splits)
  have len: "length out = 20 + length opts + (4 - (20 + length opts) mod 4) mod 4" using h by (simp add: out_def)
  have four: "length out mod 4 = 0" unfolding len by (rule pad_to_words(1))
  have o0: "out ! 0 = h ! 0" using h by (simp add: out_def nth_append)
  have k: "length out div 4 \<le> 15" using le by simp
  show "ipv4_header l"
    unfolding ipv4_header_def IPV4_HDR_LEN_def
  proof (intro conjI)
    have first: "l ! 0 = (h ! 0 AND 0xF0) OR of_nat (length out div 4)" using len by (simp add: l o0)
    show "drop_bit 4 (l ! 0) = 4" unfolding first by (rule header_byte(1) [OF h(2) k])
    show "unat (l ! 0 AND 0x0F) * 4 = length l" unfolding first header_byte(2) [OF h(2) k] using div_mult_mod_eq [of "length out" 4] four by (simp add: l)
    show "20 \<le> length l" using len by (simp add: l)
  qed
  show "length l \<le> 60" using l le by simp
  have "20 + length opts \<le> length h" using copied_options_length [OF opts] h(1) by simp
  from pad_to_words(2) [OF this h(3)] show "length l \<le> length h" using l len by simp
  show "l ! j = h ! j" if "0 < j" "j < 20" for j using that h l by (simp add: out_def nth_append)
qed

lemma fragment_pieces_conv:
  assumes n: "0 < n"
  shows "fragment_pieces f l n b mf payload (k * n) =
    map (\<lambda>i. fragment_packet (if i = 0 then f else l) (b + i * n div 8) (i + 1 < length (chunks n payload) \<or> mf) (chunks n payload ! i))
      [k..<length (chunks n payload)]"
proof (induction "length (chunks n payload) - k" arbitrary: k)
  case 0
  then have "length payload \<le> k * n"
    using less_div_ceil_iff [OF n, of k "length payload"] by (simp add: length_chunks [OF n])
  then show ?case using 0 by (subst fragment_pieces.simps) simp
next
  case (Suc d)
  let ?L = "length (chunks n payload)" and ?m = "min n (length payload - k * n)"
  have L: "i < ?L \<longleftrightarrow> i * n < length payload" for i
    using less_div_ceil_iff [OF n, of i "length payload"] by (simp add: length_chunks [OF n])
  have k: "k < ?L" using Suc by simp
  then have kn: "k * n < length payload" by (simp add: L)
  have piece: "slice (k * n) (k * n + ?m) payload = chunks n payload ! k"
    using nth_chunks [OF n, of k payload] k by (simp add: slice_def length_chunks [OF n] min_def)
  have last: "k * n + ?m = length payload \<longleftrightarrow> \<not> k + 1 < ?L" using kn L [of "k + 1"] by (auto simp: min_def)
  have rest: "fragment_pieces f l n b mf payload (k * n + ?m) = fragment_pieces f l n b mf payload (Suc k * n)"
  proof (cases "n \<le> length payload - k * n")
    case True
    then show ?thesis by (simp add: add.commute)
  next
    case False
    then show ?thesis using kn by (subst (1 2) fragment_pieces.simps) simp
  qed
  have "fragment_pieces f l n b mf payload (k * n) =
      fragment_packet (if k * n = 0 then f else l) (b + k * n div 8) (\<not> (k * n + ?m = length payload) \<or> mf) (slice (k * n) (k * n + ?m) payload)
        # fragment_pieces f l n b mf payload (k * n + ?m)"
    using n kn by (subst fragment_pieces.simps) (simp add: Let_def)
  also have "\<dots> = fragment_packet (if k = 0 then f else l) (b + k * n div 8) (k + 1 < ?L \<or> mf) (chunks n payload ! k)
        # fragment_pieces f l n b mf payload (Suc k * n)"
    unfolding rest piece last using n by simp
  also have "fragment_pieces f l n b mf payload (Suc k * n) =
    map (\<lambda>i. fragment_packet (if i = 0 then f else l) (b + i * n div 8) (i + 1 < ?L \<or> mf) (chunks n payload ! i)) [Suc k..<?L]"
    by (rule Suc(1)) (use Suc(2) in simp)
  finally show ?case using k by (simp add: upt_conv_Cons)
qed

text \<open>What follows the base header of an IPv4 packet.\<close>

definition ip_payload :: "bytes \<Rightarrow> bytes" where
  "ip_payload p = drop (unat (p ! 0 AND 0x0F) * 4) p"

lemma ip_payload_fragment: "ipv4_header h \<Longrightarrow> ip_payload (fragment_packet h off mf piece) = piece"
  using filled_header_nth [of h 0 off mf "length piece"] length_filled_header [of h off mf "length piece"]
  by (auto simp: ip_payload_def fragment_packet_conv ipv4_header_def IPV4_HDR_LEN_def nth_append)

lemma fragment_packet_checksum:
  assumes "ipv4_header h" and "length h \<le> 60"
  shows "checksum (take (unat (fragment_packet h off mf piece ! 0 AND 0x0F) * 4) (fragment_packet h off mf piece)) = 0"
proof -
  have h: "20 \<le> length h" "unat (h ! 0 AND 0x0F) * 4 = length h" using assms(1) by (simp_all add: ipv4_header_def IPV4_HDR_LEN_def)
  have "fragment_packet h off mf piece ! 0 = h ! 0"
    using filled_header_nth [of h 0 off mf "length piece"] length_filled_header [OF h(1), of off mf "length piece"] h(1)
    by (auto simp: fragment_packet_conv nth_append)
  then show ?thesis
    using filled_header_checksum [OF h(1) assms(2)] h length_filled_header [OF h(1)] by (simp add: fragment_packet_conv)
qed

text \<open>A datagram the parser accepts, taken apart.\<close>

lemma parsed_ipv4:
  assumes "parse_ip_packet p = Ok m" and "drop_bit 4 (p ! 0) = 4"
  defines "off \<equiv> be16_at p 6 AND 0x1FFF" and "mf \<equiv> be16_at p 6 AND 0x2000 \<noteq> 0" and "ihl \<equiv> unat (p ! 0 AND 0x0F) * 4"
  shows "ipv4_header (take ihl p)" "20 \<le> ihl" "ihl \<le> 60" "ihl \<le> length p" "unat (be16_at p 2) = length p" "length p \<le> 65535"
    "unat off * 8 + (length p - ihl) \<le> 65515" "mf \<Longrightarrow> (length p - ihl) mod 8 = 0"
    "source m = V4 (ipv4_new (p ! 12) (p ! 13) (p ! 14) (p ! 15))" "destination m = V4 (ipv4_new (p ! 16) (p ! 17) (p ! 18) (p ! 19))"
    "ip_protocol m = p ! 9" "ip_fragment m = (if off \<noteq> 0 \<or> mf then Some \<lparr>fi_id = ucast (be16_at p 4), fi_offset = off, fi_more = mf, fi_protocol = p ! 9\<rparr> else None)"
proof -
  have p4: "parse_ipv4 p = Ok m" using assms(1,2) by (auto simp: parse_ip_packet_def Let_def split: list.splits if_splits)
  show ihl: "20 \<le> ihl" "ihl \<le> length p" and tot: "unat (be16_at p 2) = length p"
    using p4 by (auto simp: parse_ipv4_def Let_def IPV4_MIN_HEADER_def ihl_def split: if_splits)
  show "length p \<le> 65535" using tot unat_u16_le [of "be16_at p 2"] by simp
  have "unat (p ! 0 AND 0x0F) \<le> 15" using word_and_le1 [of "p ! 0" 15] by (simp add: word_le_nat_alt)
  then show "ihl \<le> 60" by (simp add: ihl_def)
  show "ipv4_header (take ihl p)" using ihl assms(2) by (simp add: ipv4_header_def IPV4_HDR_LEN_def) (simp add: ihl_def)
  show "mf \<Longrightarrow> (length p - ihl) mod 8 = 0" "source m = V4 (ipv4_new (p ! 12) (p ! 13) (p ! 14) (p ! 15))"
    "destination m = V4 (ipv4_new (p ! 16) (p ! 17) (p ! 18) (p ! 19))" "ip_protocol m = p ! 9"
    using p4 tot by (auto simp: parse_ipv4_def Let_def IPV4_MIN_HEADER_def ihl_def mf_def split: if_splits)
  show "ip_fragment m = (if off \<noteq> 0 \<or> mf then Some \<lparr>fi_id = ucast (be16_at p 4), fi_offset = off, fi_more = mf, fi_protocol = p ! 9\<rparr> else None)"
    using p4 tot by (auto simp: parse_ipv4_def Let_def off_def mf_def split: if_splits)
  show "unat off * 8 + (length p - ihl) \<le> 65515"
  proof (cases "off \<noteq> 0 \<or> mf")
    case True
    then show ?thesis using p4 tot by (auto simp: parse_ipv4_def Let_def u16_max_def IPV4_MIN_HEADER_def ihl_def off_def mf_def split: if_splits)
  next
    case False
    then show ?thesis using \<open>length p \<le> 65535\<close> ihl by simp
  qed
qed

lemma concat_take_chunks: "0 < n \<Longrightarrow> concat (take i (chunks n xs)) = take (i * n) xs"
proof (induction i arbitrary: xs)
  case (Suc i)
  show ?case
  proof (cases "xs = []")
    case False
    then have "concat (take (Suc i) (chunks n xs)) = take n xs @ take (i * n) (drop n xs)"
      using Suc by (subst chunks.simps) simp
    then show ?thesis using take_add [of n "i * n" xs] by simp
  qed simp
qed simp

lemma fragment_ipv4_Some:
  assumes "parse_ip_packet pkt = Ok m" and "fragment_ipv4 pkt mtu = Some frags"
  defines "h \<equiv> take (unat (pkt ! 0 AND 0x0F) * 4) pkt"
  obtains l n where "drop_bit 4 (pkt ! 0) = 4" "later_fragment_header h = Some l" "n mod 8 = 0" "0 < n" "max (length h) (length l) + n \<le> mtu"
    "n < length (ip_payload pkt)"
    "frags = map (\<lambda>i. fragment_packet (if i = 0 then h else l) (unat (be16_at pkt 6 AND 0x1FFF) + i * n div 8)
        (i + 1 < length (chunks n (ip_payload pkt)) \<or> be16_at pkt 6 AND 0x2000 \<noteq> 0) (chunks n (ip_payload pkt) ! i))
      [0..<length (chunks n (ip_payload pkt))]"
proof -
  let ?ihl = "unat (pkt ! 0 AND 0x0F) * 4"
  have v: "drop_bit 4 (pkt ! 0) = 4" using assms(2) by (auto simp: fragment_ipv4_def split: if_splits)
  note facts = parsed_ipv4 [OF assms(1) v]
  have h: "length h = ?ihl" using facts(4) by (simp add: h_def)
  obtain l where l: "later_fragment_header h = Some l" using assms(2) by (auto simp: fragment_ipv4_def Let_def h_def split: if_splits option.splits)
  define n where "n = (mtu - max ?ihl (length l)) div 8 * 8"
  have pl: "slice ?ihl (length pkt) pkt = ip_payload pkt" by (simp add: slice_to_end ip_payload_def)
  have n: "0 < n" "mtu < length pkt" and frags: "frags = fragment_pieces h l n (unat (be16_at pkt 6 AND 0x1FFF)) (be16_at pkt 6 AND 0x2000 \<noteq> 0) (ip_payload pkt) 0"
    using assms(2) l facts(5) pl by (auto simp: fragment_ipv4_def Let_def h_def [symmetric] n_def split: if_splits)
  have le: "n \<le> mtu - max ?ihl (length l)" by (simp add: n_def)
  show ?thesis
  proof (rule that [OF v l _ n(1)])
    show "n mod 8 = 0" by (simp add: n_def)
    show "max (length h) (length l) + n \<le> mtu" using le n(1) h by simp
    show "n < length (ip_payload pkt)" using le n h facts(4) by (simp add: ip_payload_def)
    show "frags = map (\<lambda>i. fragment_packet (if i = 0 then h else l) (unat (be16_at pkt 6 AND 0x1FFF) + i * n div 8)
        (i + 1 < length (chunks n (ip_payload pkt)) \<or> be16_at pkt 6 AND 0x2000 \<noteq> 0) (chunks n (ip_payload pkt) ! i))
      [0..<length (chunks n (ip_payload pkt))]"
      unfolding frags using fragment_pieces_conv [OF n(1), of h l _ _ "ip_payload pkt" 0] by simp
  qed
qed

text \<open>The arithmetic of one piece: where it lies, how long it is and what its fragment carries.\<close>

lemma chunk_bounds:
  assumes n: "0 < n" "n mod 8 = 0" and i: "i < length (chunks n pl)"
  shows "chunks n pl ! i \<noteq> []" "length (chunks n pl ! i) \<le> n" "i * n + length (chunks n pl ! i) \<le> length pl"
    and "(i * n div 8) * 8 = i * n"
    and "i + 1 < length (chunks n pl) \<or> length pl mod 8 = 0 \<Longrightarrow> length (chunks n pl ! i) mod 8 = 0"
proof -
  have L: "j < length (chunks n pl) \<longleftrightarrow> j * n < length pl" for j
    using less_div_ceil_iff [OF n(1), of j "length pl"] by (simp add: length_chunks [OF n(1)])
  have c: "chunks n pl ! i = take n (drop (i * n) pl)" using nth_chunks [OF n(1)] i by (simp add: length_chunks [OF n(1)])
  show "chunks n pl ! i \<noteq> []" "length (chunks n pl ! i) \<le> n" "i * n + length (chunks n pl ! i) \<le> length pl" using i L n(1) c by auto
  show "(i * n div 8) * 8 = i * n" using n(2) by (simp add: mod_eq_0_iff_dvd)
  show "length (chunks n pl ! i) mod 8 = 0" if "i + 1 < length (chunks n pl) \<or> length pl mod 8 = 0"
  proof (cases "i + 1 < length (chunks n pl)")
    case True
    then have "length (chunks n pl ! i) = n" using L [of "i + 1"] c by simp
    then show ?thesis using n(2) by simp
  next
    case False
    then have "length (chunks n pl ! i) = length pl - i * n" using L [of "i + 1"] c by simp
    moreover have "length pl mod 8 = 0" "i * n mod 8 = 0" using that False n(2) by (simp_all add: mod_eq_0_iff_dvd)
    ultimately show ?thesis by (metis dvd_diff_nat mod_eq_0_iff_dvd)
  qed
qed

lemma fragment_facts:
  fixes i :: nat and pkt :: bytes
  defines "h \<equiv> take (unat (pkt ! 0 AND 0x0F) * 4) pkt" and "pl \<equiv> ip_payload pkt"
    and "base \<equiv> unat (be16_at pkt 6 AND 0x1FFF)" and "mf \<equiv> be16_at pkt 6 AND 0x2000 \<noteq> 0"
  assumes parsed: "parse_ip_packet pkt = Ok m" and v: "drop_bit 4 (pkt ! 0) = 4" and l: "later_fragment_header h = Some l"
    and n: "n mod 8 = 0" "0 < n" and two: "1 < length (chunks n pl)" and i: "i < length (chunks n pl)"
  defines "hi \<equiv> if i = 0 then h else l" and "rest \<equiv> i + 1 < length (chunks n pl) \<or> mf" and "c \<equiv> chunks n pl ! i"
  shows "parse_ip_packet (fragment_packet hi (base + i * n div 8) rest c) =
      Ok \<lparr>version = Ver4, source = source m, destination = destination m, ip_protocol = ip_protocol m,
          l4_offset = (if base + i * n div 8 = 0 then Some (length hi) else None),
          ip_fragment = Some \<lparr>fi_id = ucast (be16_at pkt 4), fi_offset = of_nat (base + i * n div 8), fi_more = rest, fi_protocol = ip_protocol m\<rparr>,
          packet_len = length hi + length c\<rparr>"
    and "length (fragment_packet hi (base + i * n div 8) rest c) \<le> max (length h) (length l) + n"
    and "checksum (take (unat (fragment_packet hi (base + i * n div 8) rest c ! 0 AND 0x0F) * 4) (fragment_packet hi (base + i * n div 8) rest c)) = 0"
    and "unat (of_nat (base + i * n div 8) :: u16) * 8 = base * 8 + i * n"
proof -
  note pkt = parsed_ipv4 [OF parsed v, folded h_def base_def mf_def]
  note later = later_fragment_header_ok [OF pkt(1) l]
  note b = chunk_bounds [OF n(2,1) i, folded c_def]
  have hdr: "ipv4_header hi" using pkt(1) later(1) by (simp add: hi_def)
  have pl: "length pl = length pkt - unat (pkt ! 0 AND 0x0F) * 4" by (simp add: pl_def ip_payload_def)
  have hl: "length hi \<le> unat (pkt ! 0 AND 0x0F) * 4" "20 \<le> length hi" "length hi \<le> 60" "length hi \<le> max (length h) (length l)"
    using pkt(2-4) later hdr by (auto simp: hi_def h_def ipv4_header_def IPV4_HDR_LEN_def)
  have fin: "(base + i * n div 8) * 8 + length c \<le> 65515" using pkt(7) b(3,4) pl by (simp add: add_mult_distrib)
  then have off: "base + i * n div 8 \<le> 0x1FFF" by simp
  have tot: "length hi + length c \<le> 65535" using hl(1) b(3) pkt(4,6) pl by simp
  have mult: "rest \<Longrightarrow> length c mod 8 = 0" using b(5) pkt(8) pl by (auto simp: rest_def)
  have part: "base + i * n div 8 \<noteq> 0 \<or> rest" using b(4) two n(2) by (cases "i = 0") (auto simp: rest_def)
  have nth: "hi ! j = pkt ! j" if "0 < j" "j < 20" for j using later(4) [OF that] that pkt(2) by (auto simp: hi_def h_def)
  show "parse_ip_packet (fragment_packet hi (base + i * n div 8) rest c) =
      Ok \<lparr>version = Ver4, source = source m, destination = destination m, ip_protocol = ip_protocol m,
          l4_offset = (if base + i * n div 8 = 0 then Some (length hi) else None),
          ip_fragment = Some \<lparr>fi_id = ucast (be16_at pkt 4), fi_offset = of_nat (base + i * n div 8), fi_more = rest, fi_protocol = ip_protocol m\<rparr>,
          packet_len = length hi + length c\<rparr>"
    using parse_fragment_packet [OF hdr off b(1) tot fin mult part] pkt(9-11) by (simp add: nth be16_at_def)
  show "length (fragment_packet hi (base + i * n div 8) rest c) \<le> max (length h) (length l) + n"
    using hl b(2) by (simp add: fragment_packet_conv length_filled_header)
  show "checksum (take (unat (fragment_packet hi (base + i * n div 8) rest c ! 0 AND 0x0F) * 4) (fragment_packet hi (base + i * n div 8) rest c)) = 0"
    by (rule fragment_packet_checksum [OF hdr hl(3)])
  show "unat (of_nat (base + i * n div 8) :: u16) * 8 = base * 8 + i * n"
    using off b(4) unat_of_nat_u16 [of "base + i * n div 8"] by (simp only: add_mult_distrib)
qed

section \<open>ICMP replies\<close>

lemma take_copy_at: "i + length v \<le> k \<Longrightarrow> k \<le> length xs \<Longrightarrow> take k (copy_at i v xs) = copy_at i v (take k xs)"
  by (cases "k = i") (auto simp: copy_at_def min_def drop_take)

lemma take_copy_at_before: "k \<le> i \<Longrightarrow> i \<le> length xs \<Longrightarrow> take k (copy_at i v xs) = take k xs"
  by (simp add: copy_at_def min_def)

lemma drop_copy_at: "k \<le> i \<Longrightarrow> i \<le> length xs \<Longrightarrow> drop k (copy_at i v xs) = copy_at (i - k) v (drop k xs)"
  by (simp add: copy_at_def drop_take add.commute)

lemma four_elements: "length xs = 4 \<Longrightarrow> \<exists>w x y z. xs = [w, x, y, z]"
  by (auto simp: numeral_eq_Suc length_Suc_conv)

lemma ipv4_new_octets: "ipv4_new (to_be_bytes a ! 0) (to_be_bytes a ! 1) (to_be_bytes a ! 2) (to_be_bytes a ! 3) = a"
proof -
  have "length (to_be_bytes a) = 4" by simp
  then obtain w x y z where "to_be_bytes a = [w, x, y, z]" using four_elements by blast
  then show ?thesis using from_to_be_bytes [of a] by (simp add: ipv4_new_def)
qed

text \<open>The header of the reply before its checksum, and the reply before the checksum of its message.\<close>

definition reply_header :: "nat \<Rightarrow> Ipv4Addr \<Rightarrow> Ipv4Addr \<Rightarrow> bytes" where
  "reply_header n router dst = copy_at 16 (to_be_bytes dst) (copy_at 12 (to_be_bytes router)
     ((copy_at 2 (to_be_bytes (of_nat n :: u16)) ((replicate n 0)[0 := 0x45, 1 := ICMP_ERR_TOS]))[8 := 64, 9 := IP_PROTO_ICMP]))"

definition reply_unsummed :: "nat \<Rightarrow> Ipv4Addr \<Rightarrow> Ipv4Addr \<Rightarrow> u16 \<Rightarrow> bytes \<Rightarrow> bytes" where
  "reply_unsummed n router dst mtu quote = copy_at 28 quote (copy_at 26 (to_be_bytes mtu)
     ((copy_at 10 (to_be_bytes (checksum (take 20 (reply_header n router dst)))) (reply_header n router dst))
        [20 := ICMP_DEST_UNREACH, 21 := ICMP_FRAG_NEEDED]))"

definition reply_packet :: "nat \<Rightarrow> Ipv4Addr \<Rightarrow> Ipv4Addr \<Rightarrow> u16 \<Rightarrow> bytes \<Rightarrow> bytes" where
  "reply_packet n router dst mtu quote =
     copy_at 22 (to_be_bytes (checksum (drop 20 (reply_unsummed n router dst mtu quote)))) (reply_unsummed n router dst mtu quote)"

lemma length_reply_header: "28 \<le> n \<Longrightarrow> length (reply_header n router dst) = n"
  by (simp add: reply_header_def)

lemma length_reply_unsummed: "n = 28 + length quote \<Longrightarrow> length (reply_unsummed n router dst mtu quote) = n"
  by (simp add: reply_unsummed_def length_reply_header)

lemma reply_packet_nth:
  assumes n: "n = 28 + length quote"
  shows "reply_packet n router dst mtu quote ! 0 = 0x45" "reply_packet n router dst mtu quote ! 9 = 1"
    "reply_packet n router dst mtu quote ! 6 = 0" "reply_packet n router dst mtu quote ! 7 = 0"
    "reply_packet n router dst mtu quote ! 20 = 3" "reply_packet n router dst mtu quote ! 21 = 4"
    and "j < 4 \<Longrightarrow> reply_packet n router dst mtu quote ! (12 + j) = to_be_bytes router ! j"
    and "j < 4 \<Longrightarrow> reply_packet n router dst mtu quote ! (16 + j) = to_be_bytes dst ! j"
    and "be16_at (reply_packet n router dst mtu quote) 2 = of_nat n" and "be16_at (reply_packet n router dst mtu quote) 26 = mtu"
    and "drop 28 (reply_packet n router dst mtu quote) = quote" and "length (reply_packet n router dst mtu quote) = n"
proof -
  have n28: "28 \<le> n" using n by simp
  have lu: "length (reply_unsummed n router dst mtu quote) = n" by (rule length_reply_unsummed [OF n])
  have lh: "length (reply_header n router dst) = n" by (rule length_reply_header [OF n28])
  have low: "reply_packet n router dst mtu quote ! j = reply_header n router dst ! j" if "j < 20" "j \<noteq> 10" "j \<noteq> 11" for j
    using that n28 lu lh n by (auto simp: reply_packet_def nth_copy_at reply_unsummed_def)
  have hdr: "reply_header n router dst ! j = (if j \<in> {2, 3} then to_be_bytes (of_nat n :: u16) ! (j - 2)
      else if 12 \<le> j \<and> j < 16 then to_be_bytes router ! (j - 12) else if 16 \<le> j \<and> j < 20 then to_be_bytes dst ! (j - 16)
      else if j = 0 then 0x45 else if j = 1 then ICMP_ERR_TOS else if j = 8 then 64 else if j = 9 then IP_PROTO_ICMP else 0)" if "j < n" for j
    using that n28 by (auto simp: reply_header_def nth_copy_at nth_list_update)
  show "reply_packet n router dst mtu quote ! 0 = 0x45" "reply_packet n router dst mtu quote ! 9 = 1"
    "reply_packet n router dst mtu quote ! 6 = 0" "reply_packet n router dst mtu quote ! 7 = 0"
    using n28 by (simp_all add: low hdr IP_PROTO_ICMP_def)
  show "j < 4 \<Longrightarrow> reply_packet n router dst mtu quote ! (12 + j) = to_be_bytes router ! j"
    "j < 4 \<Longrightarrow> reply_packet n router dst mtu quote ! (16 + j) = to_be_bytes dst ! j"
    using n28 by (simp_all add: low hdr)
  show "reply_packet n router dst mtu quote ! 20 = 3" "reply_packet n router dst mtu quote ! 21 = 4"
    using n28 lu lh n by (simp_all add: reply_packet_def nth_copy_at reply_unsummed_def ICMP_DEST_UNREACH_def ICMP_FRAG_NEEDED_def)
  show "be16_at (reply_packet n router dst mtu quote) 2 = of_nat n"
    using n28 be16_at_to_be_bytes [of "of_nat n"] by (simp add: be16_at_def low hdr)
  show "be16_at (reply_packet n router dst mtu quote) 26 = mtu"
    using n28 lu lh n be16_at_to_be_bytes [of mtu] by (simp add: be16_at_def reply_packet_def nth_copy_at reply_unsummed_def)
  show "length (reply_packet n router dst mtu quote) = n" using n28 lu by (simp add: reply_packet_def)
  show "drop 28 (reply_packet n router dst mtu quote) = quote"
    using n28 lu lh n by (simp add: reply_packet_def copy_at_def reply_unsummed_def)
qed

lemma reply_packet_checksums:
  assumes n: "n = 28 + length quote" and "length quote \<le> 60000"
  shows "checksum (take 20 (reply_packet n router dst mtu quote)) = 0" "checksum (drop 20 (reply_packet n router dst mtu quote)) = 0"
proof -
  let ?h = "reply_header n router dst" and ?u = "reply_unsummed n router dst mtu quote"
  have n28: "28 \<le> n" using n by simp
  have lu: "length ?u = n" by (rule length_reply_unsummed [OF n])
  have lh: "length ?h = n" by (rule length_reply_header [OF n28])
  have "take 20 (reply_packet n router dst mtu quote) = copy_at 10 (to_be_bytes (checksum (take 20 ?h))) (take 20 ?h)"
    using n28 lu lh n by (simp add: reply_packet_def reply_unsummed_def take_copy_at_before take_copy_at)
  moreover have "checksum (copy_at 10 (to_be_bytes (checksum (take 20 ?h))) (take 20 ?h)) = 0"
    by (rule checksum_at) (use n28 lh in \<open>simp_all add: reply_header_def nth_copy_at\<close>)
  ultimately show "checksum (take 20 (reply_packet n router dst mtu quote)) = 0" by simp
  have "drop 20 (reply_packet n router dst mtu quote) = copy_at 2 (to_be_bytes (checksum (drop 20 ?u))) (drop 20 ?u)"
    using n28 lu by (simp add: reply_packet_def drop_copy_at)
  moreover have "checksum (copy_at 2 (to_be_bytes (checksum (drop 20 ?u))) (drop 20 ?u)) = 0"
    by (rule checksum_at) (use n28 lu lh n assms(2) in \<open>simp_all add: reply_unsummed_def reply_header_def nth_copy_at\<close>)
  ultimately show "checksum (drop 20 (reply_packet n router dst mtu quote)) = 0" by simp
qed

lemma take_min_length: "take (min (length xs) k) xs = take k xs"
  by (simp add: min_def)

lemma frag_needed_Some:
  assumes "frag_needed offender router mtu = Some out"
  obtains q dst where "dst = ipv4_new (offender ! 12) (offender ! 13) (offender ! 14) (offender ! 15)"
    "out = reply_packet (28 + length q) router dst mtu q" "q = take (unat (offender ! 0 AND 0x0F) * 4 + 8) offender" "20 \<le> length q" "length q \<le> 68"
proof
  let ?ihl = "unat (offender ! 0 AND 0x0F) * 4"
  have "unat (offender ! 0 AND 0x0F) \<le> 15" using word_and_le1 [of "offender ! 0" 15] by (simp add: word_le_nat_alt)
  moreover have ihl: "20 \<le> ?ihl" "?ihl \<le> length offender" using assms by (auto simp: frag_needed_def Let_def IPV4_HDR_LEN_def split: if_splits)
  ultimately show "20 \<le> length (take (?ihl + 8) offender)" "length (take (?ihl + 8) offender) \<le> 68" by auto
  have q: "take (min (?ihl + QUOTED_PAYLOAD) (length offender)) offender = take (?ihl + 8) offender"
    "min (?ihl + QUOTED_PAYLOAD) (length offender) = length (take (?ihl + 8) offender)" by (simp_all add: QUOTED_PAYLOAD_def min_def)
  show "out = reply_packet (28 + length (take (?ihl + 8) offender)) router (ipv4_new (offender ! 12) (offender ! 13) (offender ! 14) (offender ! 15)) mtu (take (?ihl + 8) offender)"
  proof -
    let ?dst = "ipv4_new (offender ! 12) (offender ! 13) (offender ! 14) (offender ! 15)"
    have g: "\<not> (length offender < IPV4_HDR_LEN \<or> drop_bit 4 (offender ! 0) \<noteq> 4)" "\<not> (?ihl < IPV4_HDR_LEN \<or> length offender < ?ihl)"
      "\<not> (ipv4_unspecified ?dst \<or> ipv4_multicast ?dst \<or> ipv4_broadcast ?dst)" "\<not> (offender ! 9 = IP_PROTO_ICMP \<and> icmp_is_error offender ?ihl)"
      using assms unfolding frag_needed_def Let_def by (metis option.distinct(1))+
    show ?thesis
      using assms unfolding frag_needed_def Let_def if_not_P [OF g(1)] if_not_P [OF g(2)] if_not_P [OF g(3)] if_not_P [OF g(4)] q
      by (simp add: IPV4_HDR_LEN_def ICMP_HDR_LEN_def reply_packet_def reply_unsummed_def reply_header_def take_min_length)
  qed
qed simp_all

text \<open>The ICMPv6 message, spelled out.\<close>

definition too_big_message :: "u16 \<Rightarrow> u32 \<Rightarrow> bytes \<Rightarrow> bytes" where
  "too_big_message ck mtu quote = [2, 0] @ to_be_bytes ck @ to_be_bytes mtu @ quote"

definition too_big_packet :: "Ipv6Addr \<Rightarrow> Ipv6Addr \<Rightarrow> u32 \<Rightarrow> bytes \<Rightarrow> bytes" where
  "too_big_packet router dst mtu quote =
     [0x60, 0, 0, 0] @ to_be_bytes (of_nat (8 + length quote) :: u16) @ [58, 64] @ to_be_bytes router @ to_be_bytes dst
       @ too_big_message (checksum (icmp6_pseudo router dst (8 + length quote) @ too_big_message 0 mtu quote)) mtu quote"

lemma replicate_48: "replicate (48 + k) (0 :: u8) = [0, 0, 0, 0, 0, 0, 0, 0, 0, 0, 0, 0, 0, 0, 0, 0, 0, 0, 0, 0, 0, 0, 0, 0, 0, 0, 0, 0, 0, 0, 0, 0, 0, 0, 0, 0, 0, 0, 0, 0, 0, 0, 0, 0, 0, 0, 0, 0] @ replicate k 0"
  by (simp add: replicate_add numeral_eq_Suc)

lemma packet_too_big_v6_Some:
  assumes "packet_too_big_v6 offender router mtu = Some out"
  obtains m dst where "parse_ip_packet offender = Ok m" "source m = V6 dst"
    "out = too_big_packet router dst (max mtu 1280) (take 1232 offender)" "\<not> icmp6_refused m offender"
proof -
  obtain m dst where m: "parse_ip_packet offender = Ok m" "source m = V6 dst" "version m = Ver6" "\<not> icmp6_refused m offender"
    "\<not> (ipv6_unspecified dst \<or> ipv6_multicast dst)" "\<not> (ipv6_unspecified router \<or> ipv6_multicast router)"
    using assms by (auto simp: packet_too_big_v6_def Let_def split: if_splits sum.splits IpAddr.splits)
  have q: "min (length offender) (ICMP_IPV6_MIN_MTU - IPV6_HEADER - ICMPV6_HEADER) = length (take 1232 offender)"
    by (simp add: ICMP_IPV6_MIN_MTU_def IPV6_HEADER_def ICMPV6_HEADER_def)
  have z: "to_be_bytes (0 :: u16) = [0, 0]" by code_simp
  have "out = too_big_packet router dst (max mtu 1280) (take 1232 offender)"
    using assms m unfolding packet_too_big_v6_def Let_def q
    by (simp add: IPV6_HEADER_def ICMPV6_HEADER_def too_big_packet_def too_big_message_def copy_at_def replicate_48 IPPROTO_ICMPV6_def
      ICMPV6_PACKET_TOO_BIG_def ICMP_IPV6_MIN_MTU_def z take_min_length list_update_append)
  then show ?thesis using that m by blast
qed

lemma too_big_packet_parses:
  assumes q: "length quote \<le> 1232"
  shows "parse_ip_packet (too_big_packet router dst mtu quote) = Ok \<lparr>version = Ver6, source = V6 router, destination = V6 dst,
    ip_protocol = 58, l4_offset = Some 40, ip_fragment = None, packet_len = 48 + length quote\<rparr>"
proof -
  let ?p = "too_big_packet router dst mtu quote"
  have len: "length ?p = 48 + length quote" by (simp add: too_big_packet_def too_big_message_def)
  have u: "unat (of_nat (8 + length quote) :: u16) = 8 + length quote" using q by (intro unat_of_nat_u16) simp
  have b: "be16_at ?p 4 = of_nat (8 + length quote)"
    using be16_at_to_be_bytes [of "of_nat (8 + length quote)"] by (simp add: be16_at_def too_big_packet_def nth_append)
  have n6: "?p ! 6 = 58" by (simp add: too_big_packet_def nth_append)
  have s: "slice 8 24 ?p = to_be_bytes router" "slice 24 40 ?p = to_be_bytes dst" by (simp_all add: too_big_packet_def slice_def)
  have loop: "extension_loop ?p k 58 40 0 0 None = Ok (58, 40, None)" for k
    by (subst extension_loop.simps) (simp add: extension_len_def)
  have "parse_ipv6 ?p = Ok \<lparr>version = Ver6, source = V6 router, destination = V6 dst,
    ip_protocol = 58, l4_offset = Some 40, ip_fragment = None, packet_len = 48 + length quote\<rparr>"
    unfolding parse_ipv6_def Let_def len b u n6 s IPV6_HEADER_def
    using q by (simp add: checked_add_def usize_max_def loop from_to_be_bytes)
  moreover have "parse_ip_packet ?p = parse_ipv6 ?p" by (simp add: parse_ip_packet_def too_big_packet_def)
  ultimately show ?thesis by simp
qed

lemma too_big_packet_checksum:
  assumes q: "length quote \<le> 1232"
  shows "checksum (icmp6_pseudo router dst (8 + length quote) @ drop 40 (too_big_packet router dst mtu quote)) = 0"
proof -
  let ?ps = "icmp6_pseudo router dst (8 + length quote)"
  have z: "to_be_bytes (0 :: u16) = [0, 0]" by code_simp
  have lp: "length ?ps = 40" by (simp add: icmp6_pseudo_def)
  have "checksum ((?ps @ [2, 0]) @ to_be_bytes (checksum ((?ps @ [2, 0]) @ [0, 0] @ to_be_bytes mtu @ quote)) @ (to_be_bytes mtu @ quote)) = 0"
    by (rule checksum_filled) (use lp q in simp_all)
  then show ?thesis by (simp add: too_big_packet_def too_big_message_def z)
qed

section \<open>Properties\<close>

text \<open>C12. A fragmented datagram is the datagram: cutting a packet the parser accepts gives two fragments or more that each fit
  the MTU, carry a header whose checksum verifies and are accepted by the parser with the packet's addresses, protocol and
  identification; their payloads, in order, are its payload, each at the offset where it belongs, and More Fragments is
  cleared on the last one exactly when it was clear on the packet.\<close>

theorem fragments_rebuild_datagram:
  assumes parsed: "parse_ip_packet pkt = Ok m" and cut: "fragment_ipv4 pkt mtu = Some frags"
  shows "1 < length frags \<and> concat (map ip_payload frags) = ip_payload pkt \<and>
    (\<forall>i < length frags. length (frags ! i) \<le> mtu \<and> checksum (take (unat (frags ! i ! 0 AND 0x0F) * 4) (frags ! i)) = 0 \<and>
      (\<exists>mi f. parse_ip_packet (frags ! i) = Ok mi \<and> source mi = source m \<and> destination mi = destination m \<and>
         ip_protocol mi = ip_protocol m \<and> ip_fragment mi = Some f \<and> fi_id f = ucast (be16_at pkt 4) \<and>
         unat (fi_offset f) * 8 = unat (be16_at pkt 6 AND 0x1FFF) * 8 + length (concat (map ip_payload (take i frags))) \<and>
         (fi_more f \<longleftrightarrow> i + 1 < length frags \<or> be16_at pkt 6 AND 0x2000 \<noteq> 0)))"
proof -
  let ?h = "take (unat (pkt ! 0 AND 0x0F) * 4) pkt" and ?pl = "ip_payload pkt"
  let ?base = "unat (be16_at pkt 6 AND 0x1FFF)" and ?mf = "be16_at pkt 6 AND 0x2000 \<noteq> 0"
  obtain l n where v: "drop_bit 4 (pkt ! 0) = 4" and l: "later_fragment_header ?h = Some l" and n: "n mod 8 = 0" "0 < n"
    and room: "max (length ?h) (length l) + n \<le> mtu" and more: "n < length ?pl"
    and frags: "frags = map (\<lambda>i. fragment_packet (if i = 0 then ?h else l) (?base + i * n div 8)
        (i + 1 < length (chunks n ?pl) \<or> ?mf) (chunks n ?pl ! i)) [0..<length (chunks n ?pl)]"
    by (rule fragment_ipv4_Some [OF parsed cut])
  note pkt = parsed_ipv4 [OF parsed v]
  let ?L = "length (chunks n ?pl)"
  have L: "i < ?L \<longleftrightarrow> i * n < length ?pl" for i
    using less_div_ceil_iff [OF n(2), of i "length ?pl"] by (simp add: length_chunks [OF n(2)])
  have hdr: "ipv4_header (if i = 0 then ?h else l)" for i :: nat
    using pkt(1) later_fragment_header_ok(1) [OF pkt(1) l] by simp
  have payloads: "map ip_payload frags = chunks n ?pl"
    unfolding frags by (rule nth_equalityI) (simp_all add: ip_payload_fragment [OF hdr])
  have two: "1 < ?L" using L [of 1] more by simp
  have "length (frags ! i) \<le> mtu \<and> checksum (take (unat (frags ! i ! 0 AND 0x0F) * 4) (frags ! i)) = 0 \<and>
      (\<exists>mi f. parse_ip_packet (frags ! i) = Ok mi \<and> source mi = source m \<and> destination mi = destination m \<and>
         ip_protocol mi = ip_protocol m \<and> ip_fragment mi = Some f \<and> fi_id f = ucast (be16_at pkt 4) \<and>
         unat (fi_offset f) * 8 = ?base * 8 + length (concat (map ip_payload (take i frags))) \<and>
         (fi_more f \<longleftrightarrow> i + 1 < length frags \<or> ?mf))" if "i < length frags" for i
  proof -
    have i: "i < ?L" using that by (simp add: frags)
    note f = fragment_facts [OF parsed v l n two i]
    have sent: "length (concat (map ip_payload (take i frags))) = i * n"
      using i L [of i] by (simp add: take_map [symmetric] payloads concat_take_chunks [OF n(2)])
    have "frags ! i = fragment_packet (if i = 0 then ?h else l) (?base + i * n div 8) (i + 1 < ?L \<or> ?mf) (chunks n ?pl ! i)"
      and "length frags = ?L" using i by (simp_all add: frags)
    note eqs = this
    show ?thesis
      unfolding eqs sent using f room by (intro conjI exI) (assumption | simp)+
  qed
  then show ?thesis using two by (simp add: frags [symmetric] payloads concat_chunks [OF n(2)]) (simp add: frags)
qed

text \<open>C29. Fragmentation Needed is a well-formed answer and never an endless one: the reply is an unfragmented ICMP packet of at
  most 96 bytes that the parser accepts, from the router to the sender of the offending packet, with both checksums
  verifying, type 3, code 4 and the MTU announced, quoting the offender's header and eight bytes more; and to such a reply
  no reply is ever made.\<close>

theorem frag_needed_reply:
  assumes "frag_needed offender router mtu = Some out"
  shows "length out \<le> 96 \<and> (\<exists>m. parse_ip_packet out = Ok m \<and> source m = V4 router \<and>
      destination m = V4 (ipv4_new (offender ! 12) (offender ! 13) (offender ! 14) (offender ! 15)) \<and> ip_protocol m = 1 \<and>
      l4_offset m = Some 20 \<and> ip_fragment m = None) \<and>
    checksum (take 20 out) = 0 \<and> checksum (drop 20 out) = 0 \<and> out ! 20 = 3 \<and> out ! 21 = 4 \<and> be16_at out 26 = mtu \<and>
    drop 28 out = take (unat (offender ! 0 AND 0x0F) * 4 + 8) offender \<and> frag_needed out router' mtu' = None"
proof -
  obtain q dst where dst: "dst = ipv4_new (offender ! 12) (offender ! 13) (offender ! 14) (offender ! 15)"
    and out: "out = reply_packet (28 + length q) router dst mtu q" and q: "q = take (unat (offender ! 0 AND 0x0F) * 4 + 8) offender" "length q \<le> 68"
    by (rule frag_needed_Some [OF assms])
  note ns = reply_packet_nth [where quote = q and router = router and dst = dst and mtu = mtu, OF refl, folded out]
  have src: "ipv4_new (out ! 12) (out ! 13) (out ! 14) (out ! 15) = router" and to: "ipv4_new (out ! 16) (out ! 17) (out ! 18) (out ! 19) = dst"
    using ipv4_new_octets ns(7) [of 0] ns(7) [of 1] ns(7) [of 2] ns(7) [of 3] ns(8) [of 0] ns(8) [of 1] ns(8) [of 2] ns(8) [of 3] by simp_all
  have z: "be16_at out 6 = 0" by (simp add: be16_at_def ns) code_simp
  have len: "unat (of_nat (28 + length q) :: u16) = 28 + length q" using q(2) by (intro unat_of_nat_u16) simp
  have p: "parse_ip_packet out = parse_ipv4 out"
    using ns(1,12) by (cases out) (simp_all add: parse_ip_packet_def)
  have "parse_ipv4 out = Ok \<lparr>version = Ver4, source = V4 router, destination = V4 dst, ip_protocol = 1, l4_offset = Some 20,
      ip_fragment = None, packet_len = 28 + length q\<rparr>"
    unfolding parse_ipv4_def Let_def ns(9,12) len src to z by (simp add: ns IPV4_MIN_HEADER_def)
  moreover have "frag_needed out router' mtu' = None"
    by (simp add: frag_needed_def Let_def ns IP_PROTO_ICMP_def icmp_is_error_def ICMP_ERROR_TYPES_def)
  moreover have "checksum (take 20 out) = 0" "checksum (drop 20 out) = 0"
    using reply_packet_checksums [where quote = q and router = router and dst = dst and mtu = mtu, OF refl] q(2) by (simp_all add: out)
  ultimately show ?thesis using ns(5,6,10-12) q p by (simp add: dst)
qed

text \<open>C30. Packet Too Big is a well-formed answer and never an endless one: the reply is an unfragmented ICMPv6 packet of at most
  1280 bytes that the parser accepts, from the router to the sender of the offending packet, whose checksum over the
  pseudo-header verifies; it announces an MTU of 1280 at least and quotes the offender from its start; and to such a reply
  no reply is ever made.\<close>

theorem packet_too_big_reply:
  assumes "packet_too_big_v6 offender router mtu = Some out"
  shows "length out \<le> 1280 \<and> (\<exists>m m'. parse_ip_packet offender = Ok m \<and> parse_ip_packet out = Ok m' \<and> source m' = V6 router \<and>
      destination m' = source m \<and> ip_protocol m' = 58 \<and> l4_offset m' = Some 40 \<and> ip_fragment m' = None \<and>
      (\<forall>dst. source m = V6 dst \<longrightarrow> checksum (icmp6_pseudo router dst (length out - 40) @ drop 40 out) = 0)) \<and>
    out ! 40 = 2 \<and> (from_be_bytes (slice 44 48 out) :: u32) = max mtu 1280 \<and> drop 48 out = take 1232 offender \<and>
    packet_too_big_v6 out router' mtu' = None"
proof -
  obtain m dst where m: "parse_ip_packet offender = Ok m" "source m = V6 dst"
    and out: "out = too_big_packet router dst (max mtu 1280) (take 1232 offender)"
    by (rule packet_too_big_v6_Some [OF assms])
  have q: "length (take 1232 offender) \<le> 1232" by simp
  note p = too_big_packet_parses [OF q, of router dst "max mtu 1280", folded out]
  have len: "length out = 48 + length (take 1232 offender)" by (simp add: out too_big_packet_def too_big_message_def)
  have ck: "checksum (icmp6_pseudo router dst (length out - 40) @ drop 40 out) = 0"
    using too_big_packet_checksum [OF q, of router dst "max mtu 1280", folded out] by (simp add: len)
  have m40: "out ! 40 = 2" "drop 48 out = take 1232 offender" "slice 44 48 out = to_be_bytes (max mtu 1280)"
    by (simp_all add: out too_big_packet_def too_big_message_def nth_append slice_def)
  have "packet_too_big_v6 out router' mtu' = None"
    using p m40(1) len by (simp add: packet_too_big_v6_def Let_def icmp6_refused_def IPPROTO_ICMPV6_def)
  then show ?thesis using p m ck m40 len by (simp add: from_to_be_bytes)
qed

text \<open>C31. Fragmentation is refused only for a reason: at any MTU of 68 bytes or more an accepted IPv4 packet is cut into
  fragments unless it forbids it, fits already or carries a malformed option list.\<close>

theorem fragmentation_refused_iff:
  assumes "parse_ip_packet pkt = Ok m" and "version m = Ver4" and "68 \<le> mtu"
  shows "fragment_ipv4 pkt mtu = None \<longleftrightarrow>
    has_df pkt \<or> length pkt \<le> mtu \<or> copied_options (slice 20 (unat (pkt ! 0 AND 0x0F) * 4) pkt) = None"
proof -
  let ?ihl = "unat (pkt ! 0 AND 0x0F) * 4"
  have v: "drop_bit 4 (pkt ! 0) = 4"
    using assms(1,2) parse_ipv6_bounds [of pkt m] by (auto simp: parse_ip_packet_def Let_def split: list.splits if_splits)
  note f = parsed_ipv4 [OF assms(1) v]
  have opts: "drop 20 (take ?ihl pkt) = slice 20 ?ihl pkt" by (simp add: slice_def drop_take)
  have later: "later_fragment_header (take ?ihl pkt) = None \<longleftrightarrow> copied_options (slice 20 ?ihl pkt) = None"
  proof (cases "copied_options (slice 20 ?ihl pkt)")
    case (Some o')
    have four: "?ihl mod 4 = 0" by simp
    have "20 + length o' \<le> ?ihl" using copied_options_length [OF Some] f(2,4) by simp
    from pad_to_words(2) [OF this four] show ?thesis using Some f(2,3,4) opts
      by (simp add: later_fragment_header_def IPV4_HDR_LEN_def Let_def)
  qed (use f(2,4) opts in \<open>simp add: later_fragment_header_def IPV4_HDR_LEN_def\<close>)
  show ?thesis
  proof (cases "later_fragment_header (take ?ihl pkt)")
    case None
    then show ?thesis using later v f(2,4) by (simp add: fragment_ipv4_def Let_def IPV4_HDR_LEN_def)
  next
    case (Some l)
    have l: "length l \<le> 60" by (rule later_fragment_header_ok(3) [OF f(1) Some])
    have "0 < (mtu - max ?ihl (length l)) div 8 * 8" using l f(3) assms(3) by (simp add: div_greater_zero_iff)
    moreover have "unat (be16_at pkt 6 AND 0x1FFF) + (length pkt - ?ihl - 1) div 8 \<le> 0x1FFF"
      using f(7) by linarith
    ultimately show ?thesis
      using later Some v f(2,4,5) assms(3) f(3) by (auto simp: fragment_ipv4_def Let_def IPV4_HDR_LEN_def slice_to_end)
  qed
qed

section \<open>Examples\<close>

text \<open>A datagram of 100 bytes from 10.9.0.2 to 8.8.8.8, and an IPv6 one from fd00::1 to fd00::2.\<close>

definition demo_datagram :: bytes where
  "demo_datagram = [0x45, 0, 0, 100, 0, 7, 0, 0, 64, 17, 0, 0, 10, 9, 0, 2, 8, 8, 8, 8] @ replicate 80 1"

definition demo_datagram6 :: bytes where
  "demo_datagram6 = [0x60, 0, 0, 0, 0, 8, 17, 64] @ [0xfd, 0, 0, 0, 0, 0, 0, 0, 0, 0, 0, 0, 0, 0, 0, 1]
     @ [0xfd, 0, 0, 0, 0, 0, 0, 0, 0, 0, 0, 0, 0, 0, 0, 2] @ [1, 2, 3, 4, 5, 6, 7, 8]"

lemma demo_datagram_be16: "be16_at demo_datagram 2 = 100" "be16_at demo_datagram 6 = 0" "length demo_datagram = 100"
  by (simp_all add: demo_datagram_def be16_at_def) code_simp+

lemma demo_datagram_parses: "\<exists>m. parse_ip_packet demo_datagram = Ok m \<and> version m = Ver4"
proof -
  have "parse_ip_packet demo_datagram = parse_ipv4 demo_datagram" by (simp add: parse_ip_packet_def demo_datagram_def)
  moreover have "demo_datagram ! 0 = 0x45" by (simp add: demo_datagram_def)
  ultimately show ?thesis by (simp add: parse_ipv4_def Let_def demo_datagram_be16 IPV4_MIN_HEADER_def)
qed

theorem fragmentation_refused_iff_witness: "fragment_ipv4 demo_datagram 68 \<noteq> None"
proof -
  obtain m where m: "parse_ip_packet demo_datagram = Ok m" "version m = Ver4" using demo_datagram_parses by blast
  have "demo_datagram ! 0 = 0x45" "demo_datagram ! 6 = 0" by (simp_all add: demo_datagram_def)
  then show ?thesis using fragmentation_refused_iff [OF m, of 68] by (simp add: has_df_def demo_datagram_be16 slice_def)
qed

theorem fragments_rebuild_datagram_witness:
  "\<exists>frags. fragment_ipv4 demo_datagram 68 = Some frags \<and> 1 < length frags \<and> concat (map ip_payload frags) = replicate 80 1"
proof -
  obtain m where m: "parse_ip_packet demo_datagram = Ok m" "version m = Ver4" using demo_datagram_parses by blast
  have n: "demo_datagram ! 0 = 0x45" "demo_datagram ! 6 = 0" by (simp_all add: demo_datagram_def)
  have sl: "slice 20 100 demo_datagram = replicate 80 1" by (simp add: slice_def demo_datagram_def)
  have "\<exists>l. later_fragment_header (take 20 demo_datagram) = Some l \<and> length l = 20"
    by (simp add: later_fragment_header_def IPV4_HDR_LEN_def demo_datagram_be16 Let_def)
  then obtain frags where f: "fragment_ipv4 demo_datagram 68 = Some frags"
    using n by (auto simp: fragment_ipv4_def Let_def IPV4_HDR_LEN_def demo_datagram_be16 has_df_def sl)
  have "ip_payload demo_datagram = replicate 80 1" by (simp add: ip_payload_def n) (simp add: demo_datagram_def)
  with fragments_rebuild_datagram [OF m(1) f] f show ?thesis by auto
qed

theorem frag_needed_reply_witness:
  "\<exists>out. frag_needed demo_datagram 0x0A090001 1400 = Some out \<and> checksum (drop 20 out) = 0 \<and> drop 28 out = take 28 demo_datagram"
proof -
  have n: "demo_datagram ! 0 = 0x45" "demo_datagram ! 9 = 17" "demo_datagram ! 12 = 10" "demo_datagram ! 13 = 9" "demo_datagram ! 14 = 0" "demo_datagram ! 15 = 2"
    by (simp_all add: demo_datagram_def)
  have a: "\<not> (ipv4_unspecified (ipv4_new 10 9 0 2) \<or> ipv4_multicast (ipv4_new 10 9 0 2) \<or> ipv4_broadcast (ipv4_new 10 9 0 2))" by code_simp
  obtain out where out: "frag_needed demo_datagram 0x0A090001 1400 = Some out"
    using a by (simp add: frag_needed_def Let_def n demo_datagram_be16 IPV4_HDR_LEN_def IP_PROTO_ICMP_def)
  with frag_needed_reply [OF out] show ?thesis by (auto simp: n)
qed

theorem packet_too_big_reply_witness:
  "\<exists>out. packet_too_big_v6 demo_datagram6 0xfd000000000000000000000000000003 500 = Some out \<and> (from_be_bytes (slice 44 48 out) :: u32) = 1280"
proof -
  have b: "be16_at demo_datagram6 4 = 8" "length demo_datagram6 = 48" "demo_datagram6 ! 6 = 17"
    by (simp_all add: demo_datagram6_def be16_at_def) code_simp
  have loop: "extension_loop demo_datagram6 48 17 40 0 0 None = Ok (17, 40, None)" by (subst extension_loop.simps) (simp add: extension_len_def)
  have s: "slice 8 24 demo_datagram6 = [0xfd, 0, 0, 0, 0, 0, 0, 0, 0, 0, 0, 0, 0, 0, 0, 1]" by (simp add: slice_def demo_datagram6_def)
  have a: "\<not> (ipv6_unspecified (from_be_bytes [0xfd, 0, 0, 0, 0, 0, 0, 0, 0, 0, 0, 0, 0, 0, 0, 1]) \<or> ipv6_multicast (from_be_bytes [0xfd, 0, 0, 0, 0, 0, 0, 0, 0, 0, 0, 0, 0, 0, 0, 1]))"
    "\<not> (ipv6_unspecified 0xfd000000000000000000000000000003 \<or> ipv6_multicast 0xfd000000000000000000000000000003)" by code_simp+
  have "parse_ip_packet demo_datagram6 = parse_ipv6 demo_datagram6" by (simp add: parse_ip_packet_def demo_datagram6_def)
  then obtain out where out: "packet_too_big_v6 demo_datagram6 0xfd000000000000000000000000000003 500 = Some out"
    using a by (simp add: packet_too_big_v6_def Let_def parse_ipv6_def b s checked_add_def usize_max_def IPV6_HEADER_def loop icmp6_refused_def IPPROTO_ICMPV6_def)
  with packet_too_big_reply [OF out] show ?thesis by (auto simp: max_def)
qed

end
