(* ===== verification/Acl.thy ===== *)
theory Acl
  imports Ip_Packet
begin

text \<open>
  The per-user packet filters of \<^verbatim>\<open>server/acl.rs\<close>: networks in CIDR notation, the destination allow-list and the
  guard on source addresses.
\<close>

section \<open>Networks\<close>

definition packet_source :: "bytes \<Rightarrow> IpAddr option" where
  "packet_source pkt = (case parse_ip_packet pkt of Inl _ \<Rightarrow> None | Inr m \<Rightarrow> Some (source m))"

datatype Network = NetV4 u32 u32 | NetV6 u128 u128

text \<open>The derived order: by variant, then by network, then by mask.\<close>

instantiation Network :: linorder
begin

fun less_eq_Network :: "Network \<Rightarrow> Network \<Rightarrow> bool" where
  "less_eq_Network (NetV4 a m) (NetV4 b n) = (a < b \<or> a = b \<and> m \<le> n)"
| "less_eq_Network (NetV4 a m) (NetV6 b n) = True"
| "less_eq_Network (NetV6 a m) (NetV4 b n) = False"
| "less_eq_Network (NetV6 a m) (NetV6 b n) = (a < b \<or> a = b \<and> m \<le> n)"

definition less_Network :: "Network \<Rightarrow> Network \<Rightarrow> bool" where
  "less_Network a b \<longleftrightarrow> a \<le> b \<and> \<not> b \<le> (a :: Network)"

instance
proof
  fix a b c :: Network
  show "a < b \<longleftrightarrow> a \<le> b \<and> \<not> b \<le> a" by (simp add: less_Network_def)
  show "a \<le> a" by (cases a) simp_all
  show "a \<le> b \<Longrightarrow> b \<le> c \<Longrightarrow> a \<le> c" by (cases a; cases b; cases c) auto
  show "a \<le> b \<Longrightarrow> b \<le> a \<Longrightarrow> a = b" by (cases a; cases b) auto
  show "a \<le> b \<or> b \<le> a" by (cases a; cases b) auto
qed

end

definition Network_parse :: "string \<Rightarrow> Network option" where
  "Network_parse raw =
     (let v = trim raw;
          (address, prefix_text) = (case split_once (CHR ''/'') v of None \<Rightarrow> (v, None) | Some (a, p) \<Rightarrow> (trim a, Some (trim p)))
      in case parse_ip_addr address of
           None \<Rightarrow> None
         | Some (V4 a) \<Rightarrow>
             (case (case prefix_text of None \<Rightarrow> Some 32 | Some t \<Rightarrow> parse_u8 t) of
                None \<Rightarrow> None
              | Some p \<Rightarrow> if 32 < p then None
                          else let mask = prefix_mask 32 (unat p) in Some (NetV4 (a AND mask) mask))
         | Some (V6 a) \<Rightarrow>
             (case (case prefix_text of None \<Rightarrow> Some 128 | Some t \<Rightarrow> parse_u8 t) of
                None \<Rightarrow> None
              | Some p \<Rightarrow> if 128 < p then None
                          else let mask = prefix_mask 128 (unat p) in Some (NetV6 (a AND mask) mask)))"

fun contains :: "Network \<Rightarrow> IpAddr \<Rightarrow> bool" where
  "contains (NetV4 network msk) (V4 a) = (a AND msk = network)"
| "contains (NetV6 network msk) (V6 a) = (a AND msk = network)"
| "contains (NetV4 network msk) (V6 a) = False"
| "contains (NetV6 network msk) (V4 a) = False"

fun family_is_active :: "Network \<Rightarrow> bool \<Rightarrow> bool \<Rightarrow> bool" where
  "family_is_active (NetV4 _ _) has_ipv4 has_ipv6 = has_ipv4"
| "family_is_active (NetV6 _ _) has_ipv4 has_ipv6 = has_ipv6"

section \<open>Destinations\<close>

record DstAcl =
  acl_nets :: "Network list"
  restricted :: bool

fun compile_entries :: "string list \<Rightarrow> Network list \<times> bool" where
  "compile_entries [] = ([], False)"
| "compile_entries (raw # rest) =
     (let s = trim raw; (nets, restr) = compile_entries rest
      in if s = [] then (nets, restr)
         else case Network_parse s of None \<Rightarrow> (nets, True) | Some network \<Rightarrow> (network # nets, True))"

definition DstAcl_compile :: "string list \<Rightarrow> DstAcl" where
  "DstAcl_compile cidrs =
     (let (nets, restr) = compile_entries cidrs
      in \<lparr>acl_nets = remdups_adj (sort nets), restricted = restr\<rparr>)"

definition is_unrestricted :: "DstAcl \<Rightarrow> bool" where
  "is_unrestricted a \<longleftrightarrow> \<not> restricted a"

definition rule_count :: "DstAcl \<Rightarrow> nat" where
  "rule_count a = length (acl_nets a)"

definition dst_allows_packet :: "DstAcl \<Rightarrow> bytes \<Rightarrow> bool" where
  "dst_allows_packet a pkt =
     (if \<not> restricted a then True
      else case parse_ip_packet pkt of
             Inl _ \<Rightarrow> False
           | Inr m \<Rightarrow> list_ex (\<lambda>network. contains network (destination m)) (acl_nets a))"

text \<open>The fields of a user and of a group that decide the list.\<close>

record UserNetworks =
  allowed_networks :: "string list"
  user_group :: "string option"

definition effective_allowed_networks :: "UserNetworks \<Rightarrow> (string \<rightharpoonup> string list option) \<Rightarrow> string list" where
  "effective_allowed_networks user groups =
     (if allowed_networks user \<noteq> [] then allowed_networks user
      else case user_group user of
             None \<Rightarrow> []
           | Some g \<Rightarrow> (case groups g of
                          None \<Rightarrow> []
                        | Some None \<Rightarrow> []
                        | Some (Some nets) \<Rightarrow> nets))"

section \<open>Sources\<close>

record SrcGuard =
  assigned :: "IpAddr list"
  guard_nets :: "Network list"

definition SrcGuard_new :: "Ipv4Addr \<Rightarrow> string list \<Rightarrow> SrcGuard" where
  "SrcGuard_new client_ip subnets = \<lparr>assigned = [V4 client_ip], guard_nets = acl_nets (DstAcl_compile subnets)\<rparr>"

definition SrcGuard_new_dual :: "IpAddr list \<Rightarrow> string list \<Rightarrow> SrcGuard" where
  "SrcGuard_new_dual addrs subnets =
     (let compiled = acl_nets (DstAcl_compile subnets);
          has_ipv4 = list_ex is_ipv4 addrs;
          has_ipv6 = list_ex is_ipv6 addrs
      in \<lparr>assigned = remdups_adj (sort addrs), guard_nets = filter (\<lambda>n. family_is_active n has_ipv4 has_ipv6) compiled\<rparr>)"

definition src_allows_packet :: "SrcGuard \<Rightarrow> bytes \<Rightarrow> bool" where
  "src_allows_packet g pkt =
     (case parse_ip_packet pkt of
        Inl _ \<Rightarrow> False
      | Inr m \<Rightarrow> source m \<in> set (assigned g) \<or> list_ex (\<lambda>network. contains network (source m)) (guard_nets g))"

section \<open>Prefixes\<close>

text \<open>A network is the set of addresses that agree with it in the leading bits.\<close>

fun in_prefix :: "IpAddr \<Rightarrow> nat \<Rightarrow> IpAddr \<Rightarrow> bool" where
  "in_prefix (V4 a) p (V4 x) = (drop_bit (32 - p) x = drop_bit (32 - p) a)"
| "in_prefix (V6 a) p (V6 x) = (drop_bit (128 - p) x = drop_bit (128 - p) a)"
| "in_prefix (V4 a) p (V6 x) = False"
| "in_prefix (V6 a) p (V4 x) = False"

lemma Network_parse_Some:
  assumes "Network_parse raw = Some net"
  obtains a p where "p \<le> (case a of V4 _ \<Rightarrow> 32 | V6 _ \<Rightarrow> 128)"
    "parse_ip_addr (case split_once (CHR ''/'') (trim raw) of None \<Rightarrow> trim raw | Some (a, _) \<Rightarrow> trim a) = Some a"
    "\<And>x. contains net x \<longleftrightarrow> in_prefix a p x"
proof -
  let ?addr = "case split_once (CHR ''/'') (trim raw) of None \<Rightarrow> trim raw | Some (a, _) \<Rightarrow> trim a"
  obtain a where a: "parse_ip_addr ?addr = Some a"
    using assms by (auto simp: Network_parse_def Let_def split: option.splits prod.splits)
  show ?thesis
  proof (cases a)
    case (V4 w)
    have "\<exists>p \<le> 32. net = NetV4 (w AND prefix_mask 32 p) (prefix_mask 32 p)"
    proof (cases "split_once (CHR ''/'') (trim raw)")
      case None
      then show ?thesis using assms a V4 by (intro exI [of _ 32]) (simp add: Network_parse_def Let_def)
    next
      case (Some q)
      then obtain p :: u8 where "\<not> 32 < p" "net = NetV4 (w AND prefix_mask 32 (unat p)) (prefix_mask 32 (unat p))"
        using assms a V4 by (cases q) (simp add: Network_parse_def Let_def split: option.splits if_splits)
      then show ?thesis by (intro exI [of _ "unat p"]) (simp add: word_less_nat_alt)
    qed
    then obtain p where p: "p \<le> 32" "net = NetV4 (w AND prefix_mask 32 p) (prefix_mask 32 p)" by blast
    have "contains net x \<longleftrightarrow> in_prefix a p x" for x
      using masked_eq_iff [of p _ w] V4 p by (cases x) simp_all
    then show ?thesis using that [of p a] p V4 a by simp
  next
    case (V6 w)
    have "\<exists>p \<le> 128. net = NetV6 (w AND prefix_mask 128 p) (prefix_mask 128 p)"
    proof (cases "split_once (CHR ''/'') (trim raw)")
      case None
      then show ?thesis using assms a V6 by (intro exI [of _ 128]) (simp add: Network_parse_def Let_def)
    next
      case (Some q)
      then obtain p :: u8 where "\<not> 128 < p" "net = NetV6 (w AND prefix_mask 128 (unat p)) (prefix_mask 128 (unat p))"
        using assms a V6 by (cases q) (simp add: Network_parse_def Let_def split: option.splits if_splits)
      then show ?thesis by (intro exI [of _ "unat p"]) (simp add: word_less_nat_alt)
    qed
    then obtain p where p: "p \<le> 128" "net = NetV6 (w AND prefix_mask 128 p) (prefix_mask 128 p)" by blast
    have "contains net x \<longleftrightarrow> in_prefix a p x" for x
      using masked_eq_iff [of p _ w] V6 p by (cases x) simp_all
    then show ?thesis using that [of p a] p V6 a by simp
  qed
qed

section \<open>Lists of networks\<close>

lemma compile_entries_conv:
  "compile_entries cidrs = (List.map_filter (\<lambda>raw. if trim raw = [] then None else Network_parse (trim raw)) cidrs, list_ex (\<lambda>raw. trim raw \<noteq> []) cidrs)"
  by (induction cidrs) (auto simp: List.map_filter_def Let_def split: option.splits)

lemma set_compiled: "set (acl_nets (DstAcl_compile cidrs)) = {n. \<exists>raw \<in> set cidrs. trim raw \<noteq> [] \<and> Network_parse (trim raw) = Some n}"
  by (force simp: DstAcl_compile_def compile_entries_conv List.map_filter_def split: if_splits)

lemma sorted_distinct_dedup: "sorted xs \<Longrightarrow> distinct (remdups_adj xs)"
  by (induction xs rule: remdups_adj.induct) auto

lemma sorted_dedup_unique:
  assumes "set xs = set ys"
  shows "remdups_adj (sort xs) = remdups_adj (sort ys)"
proof (rule sorted_distinct_set_unique)
  show "distinct (remdups_adj (sort xs))" "distinct (remdups_adj (sort ys))" by (simp_all add: sorted_distinct_dedup)
qed (simp_all add: sorted_remdups_adj assms)

lemma restricted_compile: "restricted (DstAcl_compile cidrs) \<longleftrightarrow> list_ex (\<lambda>raw. trim raw \<noteq> []) cidrs"
  by (simp add: DstAcl_compile_def compile_entries_conv)

lemma contains_family: "contains n a \<Longrightarrow> family_is_active n v4 v6 \<longleftrightarrow> (if is_ipv4 a then v4 else v6)"
  by (cases n; cases a) auto

section \<open>Properties\<close>

text \<open>A network entry is a prefix: an entry that parses stands for the addresses of its address's family that agree with it in
  the leading bits its prefix length counts - 32 or 128 at most - and for no others; masks play no further part.\<close>

lemma network_is_prefix:
  assumes "Network_parse raw = Some net"
  shows "\<exists>a p. parse_ip_addr (case split_once (CHR ''/'') (trim raw) of None \<Rightarrow> trim raw | Some (a, _) \<Rightarrow> trim a) = Some a \<and>
    p \<le> (case a of V4 _ \<Rightarrow> 32 | V6 _ \<Rightarrow> 128) \<and> (\<forall>x. contains net x \<longleftrightarrow> in_prefix a p x)"
  by (rule Network_parse_Some [OF assms]) blast

lemma network_is_prefix_example:
  "\<exists>net. Network_parse ''10.9.0.0/16'' = Some net \<and> contains net (V4 0x0A09FFFF) \<and> \<not> contains net (V4 0x0A0A0000) \<and>
    (\<exists>a p. \<forall>x. contains net x \<longleftrightarrow> in_prefix a p x)"
proof -
  have "Network_parse ''10.9.0.0/16'' = Some (NetV4 0x0A090000 0xFFFF0000)" by code_simp
  from network_is_prefix [OF this] this show ?thesis by auto
qed

text \<open>C18. The destination list decides exactly as written: a list with no entry lets everything pass; otherwise a packet passes
  if the parser accepts it and its destination lies in a network some entry denotes - so malformed packets and lists of
  malformed entries are refused - and the compiled list, hence every comparison of two of them, does not depend on the
  order or the repetition of entries.\<close>

theorem destination_acl_exact:
  assumes "set cidrs' = set cidrs"
  shows "DstAcl_compile cidrs' = DstAcl_compile cidrs \<and>
    (dst_allows_packet (DstAcl_compile cidrs) pkt \<longleftrightarrow>
      \<not> list_ex (\<lambda>raw. trim raw \<noteq> []) cidrs \<or>
      (\<exists>m raw net. parse_ip_packet pkt = Ok m \<and> raw \<in> set cidrs \<and> trim raw \<noteq> [] \<and>
         Network_parse (trim raw) = Some net \<and> contains net (destination m)))"
proof
  have "set (fst (compile_entries cidrs')) = set (fst (compile_entries cidrs))" "snd (compile_entries cidrs') = snd (compile_entries cidrs)"
    using assms by (auto simp: compile_entries_conv List.map_filter_def list_ex_iff)
  then show "DstAcl_compile cidrs' = DstAcl_compile cidrs"
    using sorted_dedup_unique by (simp add: DstAcl_compile_def split_beta)
  have "list_ex (\<lambda>network. contains network a) (acl_nets (DstAcl_compile cidrs)) \<longleftrightarrow>
      (\<exists>raw net. raw \<in> set cidrs \<and> trim raw \<noteq> [] \<and> Network_parse (trim raw) = Some net \<and> contains net a)" for a
    unfolding list_ex_iff set_compiled by blast
  then show "dst_allows_packet (DstAcl_compile cidrs) pkt \<longleftrightarrow>
      \<not> list_ex (\<lambda>raw. trim raw \<noteq> []) cidrs \<or>
      (\<exists>m raw net. parse_ip_packet pkt = Ok m \<and> raw \<in> set cidrs \<and> trim raw \<noteq> [] \<and>
         Network_parse (trim raw) = Some net \<and> contains net (destination m))"
    by (auto simp: dst_allows_packet_def restricted_compile list_ex_iff split: sum.splits)
qed

theorem destination_acl_exact_witness:
  "DstAcl_compile [''10.0.0.0/8'', ''fd00::/8'', ''10.0.0.0/8''] = DstAcl_compile [''fd00::/8'', ''10.0.0.0/8''] \<and>
   \<not> dst_allows_packet (DstAcl_compile [''fd00::/8'', ''10.0.0.0/8'']) []"
proof -
  have "set [''10.0.0.0/8'', ''fd00::/8'', ''10.0.0.0/8''] = set [''fd00::/8'', ''10.0.0.0/8'']" by auto
  moreover have "list_ex (\<lambda>raw. trim raw \<noteq> []) [''fd00::/8'', ''10.0.0.0/8'']" by code_simp
  ultimately show ?thesis
    using destination_acl_exact [of "[''10.0.0.0/8'', ''fd00::/8'', ''10.0.0.0/8'']" "[''fd00::/8'', ''10.0.0.0/8'']" "[]"]
    by (simp add: parse_ip_packet_def)
qed

text \<open>C17. The source guard decides exactly as written: a packet may claim a source that is one of the session's addresses, or
  lies in a network of its subnet list of a family the session has an address of; everything else, malformed packets included,
  is refused. In particular a subnet list never opens an address family to a session.\<close>

theorem source_guard_exact:
  "src_allows_packet (SrcGuard_new_dual addrs subnets) pkt \<longleftrightarrow>
    (\<exists>m. parse_ip_packet pkt = Ok m \<and>
      (source m \<in> set addrs \<or>
       (\<exists>raw net. raw \<in> set subnets \<and> trim raw \<noteq> [] \<and> Network_parse (trim raw) = Some net \<and> contains net (source m)) \<and>
       list_ex (\<lambda>a. is_ipv4 a = is_ipv4 (source m)) addrs))"
proof -
  have v6: "is_ipv6 a \<longleftrightarrow> \<not> is_ipv4 a" for a by (cases a) simp_all
  have "list_ex (\<lambda>n. contains n s) (guard_nets (SrcGuard_new_dual addrs subnets)) \<longleftrightarrow>
      (\<exists>n. n \<in> set (acl_nets (DstAcl_compile subnets)) \<and> contains n s \<and> family_is_active n (list_ex is_ipv4 addrs) (list_ex is_ipv6 addrs))" for s
    by (auto simp: SrcGuard_new_dual_def Let_def list_ex_iff)
  moreover have "contains n s \<Longrightarrow> family_is_active n (list_ex is_ipv4 addrs) (list_ex is_ipv6 addrs) \<longleftrightarrow> list_ex (\<lambda>a. is_ipv4 a = is_ipv4 s) addrs" for n s
    by (auto simp: contains_family list_ex_iff v6)
  ultimately have "list_ex (\<lambda>n. contains n s) (guard_nets (SrcGuard_new_dual addrs subnets)) \<longleftrightarrow>
      (\<exists>raw net. raw \<in> set subnets \<and> trim raw \<noteq> [] \<and> Network_parse (trim raw) = Some net \<and> contains net s) \<and>
      list_ex (\<lambda>a. is_ipv4 a = is_ipv4 s) addrs" for s
    unfolding set_compiled by blast
  moreover have "set (assigned (SrcGuard_new_dual addrs subnets)) = set addrs" by (simp add: SrcGuard_new_dual_def Let_def)
  ultimately show ?thesis by (auto simp: src_allows_packet_def split: sum.splits)
qed

end
