(* ===== verification/Dhcp_Packet.thy ===== *)
theory Dhcp_Packet
  imports Ip_Addr
begin

text \<open>
  DHCP messages of \<^verbatim>\<open>server/dhcp.rs\<close>: the option walk with RFC 2132 overload, the validation of a request, the option lookup,
  the destinations of the answers and the two answers the server builds. A closure that keeps state while it visits the
  options is a function from state to state; an early error of it ends the visit.
\<close>

section \<open>Constants\<close>

definition DHCP_SERVER_PORT :: u16 where "DHCP_SERVER_PORT = 67"
definition DHCP_CLIENT_PORT :: u16 where "DHCP_CLIENT_PORT = 68"
definition BOOTP_REPLY :: u8 where "BOOTP_REPLY = 2"
definition DHCP_OPTION_MSG_TYPE :: u8 where "DHCP_OPTION_MSG_TYPE = 53"
definition DHCP_MSG_TYPE_OFFER :: u8 where "DHCP_MSG_TYPE_OFFER = 2"
definition DHCP_MSG_TYPE_DECLINE :: u8 where "DHCP_MSG_TYPE_DECLINE = 4"
definition DHCP_MSG_TYPE_ACK :: u8 where "DHCP_MSG_TYPE_ACK = 5"
definition DHCP_MSG_TYPE_NAK :: u8 where "DHCP_MSG_TYPE_NAK = 6"
definition DHCP_MSG_TYPE_RELEASE :: u8 where "DHCP_MSG_TYPE_RELEASE = 7"
definition DHCP_OPTION_END :: u8 where "DHCP_OPTION_END = 255"
definition DHCP_OPTION_SUBNET_MASK :: u8 where "DHCP_OPTION_SUBNET_MASK = 1"
definition DHCP_OPTION_ROUTER :: u8 where "DHCP_OPTION_ROUTER = 3"
definition DHCP_OPTION_DNS :: u8 where "DHCP_OPTION_DNS = 6"
definition DHCP_OPTION_LEASE_TIME :: u8 where "DHCP_OPTION_LEASE_TIME = 51"
definition DHCP_OPTION_REBINDING_TIME :: u8 where "DHCP_OPTION_REBINDING_TIME = 59"
definition DHCP_OPTION_RENEWAL_TIME :: u8 where "DHCP_OPTION_RENEWAL_TIME = 58"
definition DHCP_OPTION_SERVER_ID :: u8 where "DHCP_OPTION_SERVER_ID = 54"
definition DHCP_OPTION_DOMAIN_NAME :: u8 where "DHCP_OPTION_DOMAIN_NAME = 15"

lemmas dhcp_consts = DHCP_SERVER_PORT_def DHCP_CLIENT_PORT_def BOOTP_REPLY_def DHCP_OPTION_MSG_TYPE_def DHCP_MSG_TYPE_OFFER_def
  DHCP_MSG_TYPE_DECLINE_def DHCP_MSG_TYPE_ACK_def DHCP_MSG_TYPE_NAK_def DHCP_MSG_TYPE_RELEASE_def DHCP_OPTION_END_def
  DHCP_OPTION_SUBNET_MASK_def DHCP_OPTION_ROUTER_def DHCP_OPTION_DNS_def DHCP_OPTION_LEASE_TIME_def DHCP_OPTION_REBINDING_TIME_def
  DHCP_OPTION_RENEWAL_TIME_def DHCP_OPTION_SERVER_ID_def DHCP_OPTION_DOMAIN_NAME_def

datatype DhcpError = PacketTooShort | InvalidCookie | TruncatedLength | TruncatedValue | MissingEnd | InvalidOverload | DuplicateOverload
  | NestedOverload | NotEthernetRequest | InvalidMac | InvalidControlLength | DuplicateControl | MessageTypeMissing
  | UnsupportedMessageType | NoIpAvailable | TooManyDnsServers

section \<open>Options\<close>

text \<open>The options of one region, in wire order: padding is skipped, END stops, each complete option is visited.\<close>

function opt_walk :: "('s \<Rightarrow> bytes \<Rightarrow> (DhcpError, 's) result) \<Rightarrow> bytes \<Rightarrow> 's \<Rightarrow> (DhcpError, 's) result" where
  "opt_walk visitor [] st = Err MissingEnd"
| "opt_walk visitor (code # rest) st =
     (if code = 0 then opt_walk visitor rest st
      else if code = DHCP_OPTION_END then Ok st
      else case rest of
             [] \<Rightarrow> Err TruncatedLength
           | n # body \<Rightarrow>
               if length body < unat n then Err TruncatedValue
               else case visitor st (code # n # take (unat n) body) of
                      Inl e \<Rightarrow> Err e
                    | Inr st' \<Rightarrow> opt_walk visitor (drop (unat n) body) st')"
  by pat_completeness auto
termination by (relation "measure (\<lambda>(visitor, bs, st). length bs)") auto

definition overload_visitor :: "('s \<Rightarrow> bytes \<Rightarrow> (DhcpError, 's) result) \<Rightarrow> u8 option \<times> 's \<Rightarrow> bytes \<Rightarrow> (DhcpError, u8 option \<times> 's) result" where
  "overload_visitor visitor = (\<lambda>(overload, st) opt.
     let visit = (\<lambda>ov. case visitor st opt of Inl e \<Rightarrow> Err e | Inr st' \<Rightarrow> Ok (ov, st'))
     in if opt ! 0 = 52
        then if \<not> (length opt = 3 \<and> 1 \<le> opt ! 2 \<and> opt ! 2 \<le> 3) then Err InvalidOverload
             else if overload \<noteq> None then Err DuplicateOverload
             else visit (Some (opt ! 2))
        else visit overload)"

definition nested_visitor :: "('s \<Rightarrow> bytes \<Rightarrow> (DhcpError, 's) result) \<Rightarrow> 's \<Rightarrow> bytes \<Rightarrow> (DhcpError, 's) result" where
  "nested_visitor visitor st opt = (if opt ! 0 = 52 then Err NestedOverload else visitor st opt)"

definition visit_dhcp_options :: "bytes \<Rightarrow> ('s \<Rightarrow> bytes \<Rightarrow> (DhcpError, 's) result) \<Rightarrow> 's \<Rightarrow> (DhcpError, 's) result" where
  "visit_dhcp_options data visitor st =
     (if length data < 240 then Err PacketTooShort
      else if slice 236 240 data \<noteq> [99, 130, 83, 99] then Err InvalidCookie
      else case opt_walk (overload_visitor visitor) (drop 240 data) (None, st) of
             Inl e \<Rightarrow> Err e
           | Inr (ov, st1) \<Rightarrow>
               (let overload = (case ov of None \<Rightarrow> 0 | Some v \<Rightarrow> v)
                in case (if overload AND 1 \<noteq> 0 then opt_walk (nested_visitor visitor) (slice 108 236 data) st1 else Ok st1) of
                     Inl e \<Rightarrow> Err e
                   | Inr st2 \<Rightarrow> if overload AND 2 \<noteq> 0 then opt_walk (nested_visitor visitor) (slice 44 108 data) st2 else Ok st2))"

text \<open>The control options seen so far: message type, requested address, server identifier.\<close>

definition control_visitor :: "bool list \<Rightarrow> bytes \<Rightarrow> (DhcpError, bool list) result" where
  "control_visitor seen opt =
     (let check = (\<lambda>slot len. if opt ! 1 \<noteq> len then Err InvalidControlLength
                              else if seen ! slot then Err DuplicateControl
                              else Ok (seen[slot := True]))
      in if opt ! 0 = DHCP_OPTION_MSG_TYPE then check 0 1
         else if opt ! 0 = 50 then check 1 4
         else if opt ! 0 = DHCP_OPTION_SERVER_ID then check 2 4
         else Ok seen)"

definition validate_request :: "bytes \<Rightarrow> (DhcpError, unit) result" where
  "validate_request data =
     (if length data < 240 then Err PacketTooShort
      else if take 3 data \<noteq> [1, 1, 6] then Err NotEthernetRequest
      else let mac = slice 28 34 data
           in if \<not> (mac ! 0 AND 1 = 0 \<and> list_ex (\<lambda>b. b \<noteq> 0) mac) then Err InvalidMac
              else case visit_dhcp_options data control_visitor [False, False, False] of
                     Inl e \<Rightarrow> Err e
                   | Inr seen \<Rightarrow> if \<not> seen ! 0 then Err MessageTypeMissing else Ok ())"

definition find_visitor :: "u8 \<Rightarrow> bytes option \<Rightarrow> bytes \<Rightarrow> (DhcpError, bytes option) result" where
  "find_visitor option_code found opt = (if opt ! 0 = option_code \<and> found = None then Ok (Some opt) else Ok found)"

definition find_dhcp_option :: "bytes \<Rightarrow> u8 \<Rightarrow> bytes option" where
  "find_dhcp_option data option_code =
     (case visit_dhcp_options data (find_visitor option_code) None of Inl _ \<Rightarrow> None | Inr found \<Rightarrow> found)"

text \<open>\<^verbatim>\<open>opt.get(2..6)\<close> as an address.\<close>

definition option_addr :: "bytes \<Rightarrow> Ipv4Addr option" where
  "option_addr opt = (if 6 \<le> length opt then Some (ipv4_new (opt ! 2) (opt ! 3) (opt ! 4) (opt ! 5)) else None)"

definition client_mac_key :: "bytes \<Rightarrow> IpAddr option" where
  "client_mac_key data =
     (if length data < 34 then None
      else let mac = slice 28 34 data
           in if list_all (\<lambda>b. b = 0) mac then None else Some (V6 (from_be_bytes (replicate 10 0 @ mac))))"

section \<open>Destinations\<close>

definition is_private :: "Ipv4Addr \<Rightarrow> bool" where
  "is_private a \<longleftrightarrow> drop_bit 24 a = 10 \<or> drop_bit 20 a = 0xAC1 \<or> drop_bit 16 a = 0xC0A8"

definition is_link_local :: "Ipv4Addr \<Rightarrow> bool" where
  "is_link_local a \<longleftrightarrow> drop_bit 16 a = 0xA9FE"

definition is_loopback :: "Ipv4Addr \<Rightarrow> bool" where
  "is_loopback a \<longleftrightarrow> drop_bit 24 a = 127"

definition addr_at :: "nat \<Rightarrow> bytes \<Rightarrow> Ipv4Addr" where
  "addr_at i data = ipv4_new (data ! i) (data ! (i + 1)) (data ! (i + 2)) (data ! (i + 3))"

definition reply_destination :: "bytes \<Rightarrow> Ipv4Addr \<times> u16" where
  "reply_destination data =
     (let bcast = (- 1, DHCP_CLIENT_PORT) in
      if length data < 44 then bcast
      else let giaddr = addr_at 24 data in
           if \<not> ipv4_unspecified giaddr \<and> (is_private giaddr \<or> is_link_local giaddr \<or> is_loopback giaddr) then (giaddr, DHCP_SERVER_PORT)
           else let wants_broadcast = (data ! 10 AND 0x80 \<noteq> 0); ciaddr = addr_at 12 data
                in if \<not> wants_broadcast \<and> \<not> ipv4_unspecified ciaddr then (ciaddr, DHCP_CLIENT_PORT) else bcast)"

definition nak_destination :: "bytes \<Rightarrow> Ipv4Addr \<times> u16" where
  "nak_destination data =
     (let bcast = (- 1, DHCP_CLIENT_PORT) in
      if length data < 28 then bcast
      else let giaddr = addr_at 24 data in
           if \<not> ipv4_unspecified giaddr \<and> (is_private giaddr \<or> is_link_local giaddr \<or> is_loopback giaddr) then (giaddr, DHCP_SERVER_PORT)
           else bcast)"

definition addressed_to_other_server :: "bytes \<Rightarrow> Ipv4Addr \<Rightarrow> bool" where
  "addressed_to_other_server data me =
     (case Option.bind (find_dhcp_option data DHCP_OPTION_SERVER_ID) option_addr of Some a \<Rightarrow> a \<noteq> me | None \<Rightarrow> False)"

end
