(* ===== verification/Rate_Limiter.thy ===== *)
theory Rate_Limiter
  imports Ip_Addr "HOL-Library.AList"
begin

text \<open>
  The sliding-window limiter of \<^verbatim>\<open>server/mod.rs\<close>, keyed by address. A queue of timestamps has its front first; the two clock
  readings of one call are taken as one.
\<close>

definition MAX_TRACKED_IPS :: nat where
  "MAX_TRACKED_IPS = 100000"

record RateLimiter =
  attempts :: "(IpAddr \<times> instant list) list"
  max_attempts :: nat
  window :: duration
  last_cleanup :: instant
  cleanup_interval :: duration

definition RateLimiter_new :: "nat \<Rightarrow> nat \<Rightarrow> instant \<Rightarrow> RateLimiter" where
  "RateLimiter_new max_att window_secs now =
     \<lparr>attempts = [], max_attempts = max_att, window = duration_secs window_secs, last_cleanup = now, cleanup_interval = duration_secs 300\<rparr>"

definition cleanup :: "instant \<Rightarrow> RateLimiter \<Rightarrow> RateLimiter" where
  "cleanup now s =
     s\<lparr>attempts := filter (\<lambda>(_, ts). ts \<noteq> []) (map (\<lambda>(ip, ts). (ip, filter (\<lambda>t. now - t \<le> window s) ts)) (attempts s))\<rparr>"

definition rl_check_and_record :: "instant \<Rightarrow> IpAddr \<Rightarrow> RateLimiter \<Rightarrow> bool \<times> RateLimiter" where
  "rl_check_and_record now ip s =
     (let s1 = (if cleanup_interval s < now - last_cleanup s \<or> MAX_TRACKED_IPS < length (attempts s)
                then (let c = cleanup now s
                      in (if MAX_TRACKED_IPS < length (attempts c) then c\<lparr>attempts := []\<rparr> else c)\<lparr>last_cleanup := now\<rparr>)
                else s);
          entry = (case map_of (attempts s1) ip of None \<Rightarrow> [] | Some ts \<Rightarrow> ts);
          entry1 = dropWhile (\<lambda>t. window s < now - t) entry
      in if max_attempts s \<le> length entry1 then (False, s1\<lparr>attempts := AList.update ip entry1 (attempts s1)\<rparr>)
         else (True, s1\<lparr>attempts := AList.update ip (entry1 @ [now]) (attempts s1)\<rparr>))"

section \<open>Runs\<close>

text \<open>The call finds too many addresses even after a cleanup, and drops the whole table.\<close>

definition forgets :: "instant \<Rightarrow> RateLimiter \<Rightarrow> bool" where
  "forgets now s \<longleftrightarrow> MAX_TRACKED_IPS < length (attempts (cleanup now s))"

text \<open>
  Any run of calls at times that do not decrease. The log has the calls oldest first: time, address, answer, and whether the
  call dropped the table.
\<close>

type_synonym limiter_log = "(instant \<times> IpAddr \<times> bool \<times> bool) list"

inductive limiter_run :: "nat \<Rightarrow> nat \<Rightarrow> RateLimiter \<Rightarrow> limiter_log \<Rightarrow> instant \<Rightarrow> bool" where
  run_new: "limiter_run m w (RateLimiter_new m w now) [] now"
| run_call: "limiter_run m w s log last_now \<Longrightarrow> last_now \<le> now \<Longrightarrow>
    rl_check_and_record now ip s = (ok, s') \<Longrightarrow> limiter_run m w s' (log @ [(now, ip, ok, forgets now s)]) now"

definition granted :: "IpAddr \<Rightarrow> limiter_log \<Rightarrow> instant list" where
  "granted ip log = map fst (filter (\<lambda>(t, i, ok, _). i = ip \<and> ok) log)"

text \<open>The grants of a window of time that ends at \<open>T\<close>, and how often the table was dropped in it.\<close>

definition in_window :: "duration \<Rightarrow> instant \<Rightarrow> instant list \<Rightarrow> nat" where
  "in_window w T ts = length (filter (\<lambda>t. T \<le> t + w \<and> t \<le> T) ts)"

definition drops :: "limiter_log \<Rightarrow> instant list" where
  "drops log = map fst (filter (\<lambda>(_, _, _, f). f) log)"

text \<open>The addresses that were granted an attempt in the last window.\<close>

definition busy :: "duration \<Rightarrow> instant \<Rightarrow> limiter_log \<Rightarrow> IpAddr set" where
  "busy w now log = {ip. \<exists>t. t \<in> set (granted ip log) \<and> now \<le> t + w}"

text \<open>The calls since the table was last dropped.\<close>

fun since_rev :: "limiter_log \<Rightarrow> limiter_log" where
  "since_rev [] = []"
| "since_rev (x # xs) = (case x of (_, _, _, f) \<Rightarrow> if f then [x] else since_rev xs @ [x])"

definition since :: "limiter_log \<Rightarrow> limiter_log" where
  "since log = since_rev (rev log)"

lemma since_simps: "since [] = []" "since (log @ [(t, i, ok, f)]) = (if f then [] else since log) @ [(t, i, ok, f)]"
  by (simp_all add: since_def)

lemma set_since: "set (since log) \<subseteq> set log"
proof (induction log rule: rev_induct)
  case (snoc x log)
  then show ?case by (cases x) (auto simp: since_simps)
qed (simp add: since_simps)

lemma granted_since: "t \<in> set (granted ip (since log)) \<Longrightarrow> t \<in> set (granted ip log)"
  using set_since [of log] by (auto simp: granted_def)

text \<open>The queue of an address is what was granted to it, but for stale grants.\<close>

definition queue_of :: "IpAddr \<Rightarrow> RateLimiter \<Rightarrow> instant list" where
  "queue_of ip s = (case map_of (attempts s) ip of None \<Rightarrow> [] | Some ts \<Rightarrow> ts)"

definition tracks :: "duration \<Rightarrow> instant \<Rightarrow> instant list \<Rightarrow> instant list \<Rightarrow> bool" where
  "tracks w now gs q \<longleftrightarrow> (\<exists>old. gs = old @ q \<and> (\<forall>t. t \<in> set old \<longrightarrow> t + w < now))"

lemma tracks_later: "tracks w now gs q \<Longrightarrow> now \<le> now' \<Longrightarrow> tracks w now' gs q"
  by (fastforce simp: tracks_def)

lemma stale_iff: "w < now - t \<longleftrightarrow> t + w < (now :: nat)"
  by auto

lemma tracks_dropWhile: "tracks w now gs q \<Longrightarrow> tracks w now gs (dropWhile (\<lambda>t. w < now - t) q)"
proof -
  assume "tracks w now gs q"
  then obtain old where "gs = old @ q" "\<And>t. t \<in> set old \<Longrightarrow> t + w < now" by (auto simp: tracks_def)
  moreover have "q = takeWhile (\<lambda>t. w < now - t) q @ dropWhile (\<lambda>t. w < now - t) q" by simp
  moreover have "t + w < now" if "t \<in> set (takeWhile (\<lambda>t. w < now - t) q)" for t using set_takeWhileD [OF that] by auto
  ultimately show ?thesis unfolding tracks_def
    by (intro exI [of _ "old @ takeWhile (\<lambda>t. w < now - t) q"]) auto
qed

lemma sorted_filter_recent: "sorted q \<Longrightarrow> filter (\<lambda>t. now - t \<le> w) q = dropWhile (\<lambda>t. w < now - t) (q :: nat list)"
proof (induction q)
  case (Cons t q)
  have "filter (\<lambda>t. now - t \<le> w) q = q" if "now - t \<le> w"
    using Cons.prems that by (intro filter_True) (auto intro: order_trans diff_le_mono2)
  then show ?case using Cons by auto
qed simp

text \<open>What a call does to the queue of each address.\<close>

lemma map_of_compact:
  fixes f :: "instant list \<Rightarrow> instant list"
  assumes "distinct (map fst es)"
  shows "map_of (filter (\<lambda>(_, ts). ts \<noteq> []) (map (\<lambda>(ip, ts). (ip, f ts)) es)) ip =
      (case map_of es ip of None \<Rightarrow> None | Some ts \<Rightarrow> if f ts = [] then None else Some (f ts))"
  using assms
proof (induction es)
  case (Cons e es)
  obtain k ts where e: "e = (k, ts)" by (cases e)
  have "map_of es k = None" using Cons.prems e by (simp add: map_of_eq_None_iff)
  then show ?case using Cons e by auto
qed simp

lemma attempts_cleanup:
  "attempts (cleanup now s) = filter (\<lambda>(_, ts). ts \<noteq> []) (map (\<lambda>(ip, ts). (ip, filter (\<lambda>t. now - t \<le> window s) ts)) (attempts s))"
  by (simp add: cleanup_def)

lemma queue_cleanup:
  assumes "distinct (map fst (attempts s))"
  shows "queue_of ip (cleanup now s) = filter (\<lambda>t. now - t \<le> window s) (queue_of ip s)"
  unfolding queue_of_def attempts_cleanup map_of_compact [OF assms] by (simp split: option.split)

lemma cleanup_distinct:
  assumes "distinct (map fst (attempts s))"
  shows "distinct (map fst (attempts (cleanup now s)))"
proof -
  have "map fst (map (\<lambda>(ip, ts). (ip, f ts)) es) = map fst es" for es :: "(IpAddr \<times> instant list) list" and f :: "instant list \<Rightarrow> instant list" by (induction es) auto
  then show ?thesis unfolding attempts_cleanup using assms by (intro distinct_map_filter) (simp only:)
qed

lemma cleanup_length: "length (attempts (cleanup now s)) \<le> length (attempts s)"
  unfolding attempts_cleanup by (rule order_trans [OF length_filter_le]) simp

lemma queue_update: "queue_of ip (s\<lparr>attempts := AList.update k q (attempts s)\<rparr>) = (if ip = k then q else queue_of ip s)"
  by (simp add: queue_of_def update_conv')

section \<open>The invariant of a run\<close>

definition limiter_inv :: "nat \<Rightarrow> duration \<Rightarrow> RateLimiter \<Rightarrow> limiter_log \<Rightarrow> instant \<Rightarrow> bool" where
  "limiter_inv m w s log now \<longleftrightarrow> distinct (map fst (attempts s)) \<and> max_attempts s = m \<and> window s = w \<and>
     (\<forall>ip. tracks w now (granted ip log) (queue_of ip s) \<and> sorted (granted ip log) \<and> (\<forall>t. t \<in> set (granted ip log) \<longrightarrow> t \<le> now))"

text \<open>The table a call works on: the one it found, what a cleanup left of it, or an empty one.\<close>

definition swept :: "instant \<Rightarrow> RateLimiter \<Rightarrow> RateLimiter" where
  "swept now s = (if cleanup_interval s < now - last_cleanup s \<or> MAX_TRACKED_IPS < length (attempts s)
                then (let c = cleanup now s
                      in (if MAX_TRACKED_IPS < length (attempts c) then c\<lparr>attempts := []\<rparr> else c)\<lparr>last_cleanup := now\<rparr>)
                else s)"

lemma check_swept:
  "rl_check_and_record now ip s =
    (let e = dropWhile (\<lambda>t. window s < now - t) (queue_of ip (swept now s))
     in if max_attempts s \<le> length e then (False, (swept now s)\<lparr>attempts := AList.update ip e (attempts (swept now s))\<rparr>)
        else (True, (swept now s)\<lparr>attempts := AList.update ip (e @ [now]) (attempts (swept now s))\<rparr>))"
  unfolding rl_check_and_record_def Let_def swept_def queue_of_def by (rule refl)

lemma swept_queue:
  assumes "distinct (map fst (attempts s))" "sorted (queue_of ip s)"
  shows "queue_of ip (swept now s) =
      (if forgets now s then [] else queue_of ip s) \<or>
    queue_of ip (swept now s) = dropWhile (\<lambda>t. window s < now - t) (if forgets now s then [] else queue_of ip s)"
proof -
  have "forgets now s \<Longrightarrow> MAX_TRACKED_IPS < length (attempts s)"
    using cleanup_length [of now s] by (simp add: forgets_def)
  moreover have "queue_of ip (s'\<lparr>last_cleanup := now\<rparr>) = queue_of ip s'" "queue_of ip (s'\<lparr>attempts := []\<rparr>) = []" for s'
    by (simp_all add: queue_of_def)
  ultimately show ?thesis
    using sorted_filter_recent [OF assms(2)] queue_cleanup [OF assms(1)] by (auto simp: swept_def forgets_def Let_def)
qed

lemma swept_frame:
  assumes "distinct (map fst (attempts s))"
  shows "distinct (map fst (attempts (swept now s)))" "max_attempts (swept now s) = max_attempts s" "window (swept now s) = window s"
    "length (attempts (swept now s)) \<le> MAX_TRACKED_IPS"
  using assms cleanup_distinct [OF assms] by (auto simp: swept_def Let_def cleanup_def)

lemma limiter_swept:
  assumes "limiter_inv m w s log before_now" and "before_now \<le> now"
  shows "limiter_inv m w (swept now s) (if forgets now s then [] else log) now"
proof -
  have d: "distinct (map fst (attempts s))" "max_attempts s = m" "window s = w" using assms(1) by (simp_all add: limiter_inv_def)
  have tr: "tracks w now (granted ip log) (queue_of ip s)" for ip
    using assms(1) tracks_later [OF _ assms(2)] by (simp add: limiter_inv_def)
  have "sorted (queue_of ip s)" for ip
    using assms(1) by (auto simp: limiter_inv_def tracks_def dest!: spec [of _ ip] simp: sorted_append)
  note q = swept_queue [OF d(1) this, unfolded d(3), of _ now]
  have "tracks w now (granted ip (if forgets now s then [] else log)) (if forgets now s then [] else queue_of ip s)" for ip
    using tr by (simp add: granted_def tracks_def)
  then have "tracks w now (granted ip (if forgets now s then [] else log)) (queue_of ip (swept now s))" for ip
    using q [of ip] tracks_dropWhile by metis
  moreover have "t \<le> now" if "t \<in> set (granted ip log)" for t ip
    using assms(1,2) that unfolding limiter_inv_def by (meson order_trans)
  ultimately show ?thesis using assms(1) swept_frame [OF d(1), of now] d by (simp add: limiter_inv_def) (simp add: granted_def)
qed

lemma granted_snoc: "granted ip (log @ [(now, i, ok, f)]) = granted ip log @ (if i = ip \<and> ok then [now] else [])"
  by (simp add: granted_def)

lemma tracks_snoc: "tracks w now gs q \<Longrightarrow> tracks w now (gs @ [now]) (q @ [now])"
  by (auto simp: tracks_def)

text \<open>A call that grants found fewer than the maximum granted in the last window, as far as the table remembers.\<close>

lemma limiter_step:
  fixes now s seg
  defines "kept \<equiv> (if forgets now s then [] else seg)"
  assumes inv: "limiter_inv m w s seg last_now" and le: "last_now \<le> now" and call: "rl_check_and_record now ip s = (ok, s')"
  shows "limiter_inv m w s' (kept @ [(now, ip, ok, f)]) now \<and> (ok \<longrightarrow> length (filter (\<lambda>t. now \<le> t + w) (granted ip kept)) < m)"
proof -
  have mw: "max_attempts s = m" "window s = w" using inv by (simp_all add: limiter_inv_def)
  let ?s = "swept now s"
  have inv1: "limiter_inv m w ?s kept now" unfolding kept_def by (rule limiter_swept [OF inv le])
  define e where "e = dropWhile (\<lambda>t. w < now - t) (queue_of ip ?s)"
  have tr: "tracks w now (granted ip kept) e" using inv1 tracks_dropWhile [of w now "granted ip kept" "queue_of ip ?s"] by (simp add: limiter_inv_def e_def)
  have d: "distinct (map fst (attempts ?s))" and srt: "sorted (granted i kept)" "\<And>t. t \<in> set (granted i kept) \<Longrightarrow> t \<le> now"
    and tri: "tracks w now (granted i kept) (queue_of i ?s)" for i
    using inv1 by (auto simp: limiter_inv_def)
  obtain old where old: "granted ip kept = old @ e" "\<And>t. t \<in> set old \<Longrightarrow> t + w < now" using tr by (auto simp: tracks_def)
  have "filter (\<lambda>t. now \<le> t + w) old = []" using old(2) by (auto simp: filter_empty_conv dest!: old(2))
  then have recent: "length (filter (\<lambda>t. now \<le> t + w) (granted ip kept)) \<le> length e" unfolding old(1) by simp
  note step = check_swept [of now ip s, unfolded mw, folded e_def]
  show ?thesis
  proof (cases "m \<le> length e")
    case True
    then have eq: "ok = False" "s' = ?s\<lparr>attempts := AList.update ip e (attempts ?s)\<rparr>" using step call by (simp_all add: Let_def)
    then show ?thesis using inv1 tr d srt tri by (simp add: limiter_inv_def queue_update granted_snoc distinct_update)
  next
    case False
    then have eq: "ok = True" "s' = ?s\<lparr>attempts := AList.update ip (e @ [now]) (attempts ?s)\<rparr>" using step call by (simp_all add: Let_def)
    then show ?thesis using inv1 tracks_snoc [OF tr] d srt tri recent False
      by (auto simp: limiter_inv_def queue_update granted_snoc distinct_update sorted_append)
  qed
qed

lemma run_inv: "limiter_run m w s log now \<Longrightarrow> limiter_inv m (duration_secs w) s (since log) now"
proof (induction rule: limiter_run.induct)
  case (run_new m w now)
  then show ?case by (simp add: limiter_inv_def RateLimiter_new_def granted_def tracks_def queue_of_def since_simps)
next
  case (run_call m w s log last_now now ip ok s')
  then show ?case unfolding since_simps(2) using limiter_step [OF run_call.IH run_call.hyps(2,3)] by blast
qed

lemma run_times: "limiter_run m w s log now \<Longrightarrow> t \<in> set (granted ip log) \<Longrightarrow> t \<le> now"
  by (induction rule: limiter_run.induct) (auto simp: granted_snoc granted_def dest: order_trans split: if_splits)

lemma in_window_snoc: "in_window w T (ts @ [t]) = in_window w T ts + (if T \<le> t + w \<and> t \<le> T then 1 else 0)"
  by (simp add: in_window_def)

lemma window_count_step:
  assumes "\<And>t. t \<in> set gs \<Longrightarrow> t \<le> now" and "length (filter (\<lambda>t. now \<le> t + w) gs) < m" and "in_window w T gs \<le> m"
  shows "in_window w T (gs @ [now]) \<le> m"
proof (cases "T \<le> now + w \<and> now \<le> T")
  case True
  have "filter (\<lambda>t. T \<le> t + w \<and> t \<le> T) gs = filter (\<lambda>t. T \<le> t + w) (filter (\<lambda>t. now \<le> t + w) gs)"
    using True assms(1) by (auto simp: filter_filter intro!: filter_cong dest!: assms(1))
  then have "in_window w T gs \<le> length (filter (\<lambda>t. now \<le> t + w) gs)" unfolding in_window_def by (simp only: length_filter_le)
  then show ?thesis using assms(2) by (simp add: in_window_snoc)
next
  case False
  then show ?thesis using assms(3) by (auto simp: in_window_snoc)
qed

text \<open>Between two drops of the table the limit is the maximum.\<close>

lemma segment_count:
  assumes "limiter_run m w s log now"
  shows "in_window (duration_secs w) T (granted ip (since log)) \<le> m"
  using assms
proof (induction rule: limiter_run.induct)
  case (run_call m w s log last_now now i ok s')
  let ?kept = "if forgets now s then [] else since log"
  have "t \<le> now" if "t \<in> set (granted ip ?kept)" for t
    using that run_times [OF run_call.hyps(1) granted_since] run_call.hyps(2) by (fastforce simp: granted_def split: if_splits)
  moreover have "in_window (duration_secs w) T (granted ip ?kept) \<le> m" using run_call.IH by (simp add: granted_def in_window_def)
  ultimately show ?case
    using limiter_step [OF run_inv [OF run_call.hyps(1)] run_call.hyps(2,3), of undefined]
      window_count_step [of "granted ip ?kept" now "duration_secs w" m T]
    unfolding since_simps(2) granted_snoc by auto
qed (simp add: granted_def in_window_def since_simps)


lemma drops_snoc: "drops (log @ [(t, i, ok, f)]) = drops log @ (if f then [t] else [])"
  by (simp add: drops_def)

lemma in_window_past: "(\<And>t. t \<in> set ts \<Longrightarrow> t + w < T) \<Longrightarrow> in_window w T ts = 0"
  by (fastforce simp: in_window_def filter_empty_conv)

text \<open>Every drop of the table in the window allows the maximum once more.\<close>

lemma window_count:
  assumes "limiter_run m w s log now"
  shows "in_window (duration_secs w) T (granted ip log) \<le> m * Suc (in_window (duration_secs w) T (drops log)) \<and>
    (now \<le> T \<longrightarrow> in_window (duration_secs w) T (granted ip log)
       \<le> m * in_window (duration_secs w) T (drops log) + in_window (duration_secs w) T (granted ip (since log)))"
  using assms
proof (induction rule: limiter_run.induct)
  case (run_call m w s log last_now now i ok s')
  let ?W = "duration_secs w" and ?f = "forgets now s" and ?log' = "log @ [(now, i, ok, forgets now s)]"
  let ?N = "\<lambda>l. in_window ?W T (granted ip l)" and ?R = "\<lambda>l. in_window ?W T (drops l)"
  have run': "limiter_run m w s' ?log' now" using run_call.hyps by (rule limiter_run.run_call)
  have seg: "?N (since log) \<le> m" "?N (since ?log') \<le> m" using segment_count run_call.hyps(1) run' by blast+
  show ?case
  proof (cases "now \<le> T")
    case False
    then have "?N ?log' = ?N log" "?R ?log' = ?R log" by (simp_all add: granted_snoc drops_snoc in_window_snoc)
    then show ?thesis using run_call.IH False by simp
  next
    case True
    have IH: "?N log \<le> m * ?R log + ?N (since log)" using run_call.IH run_call.hyps(2) True by simp
    have "?N ?log' \<le> m * ?R ?log' + ?N (since ?log')"
    proof (cases "now + ?W < T")
      case True
      then have "t + ?W < T" if "t \<in> set (granted ip ?log')" for t using run_times [OF run' that] by simp
      then show ?thesis by (simp add: in_window_past)
    next
      case False
      show ?thesis
      proof (cases ?f)
        case True
        then have "?R ?log' = Suc (?R log)" "?N ?log' = ?N log + ?N (since ?log')"
          using \<open>now \<le> T\<close> False by (simp_all add: since_simps granted_snoc drops_snoc in_window_snoc) (simp add: granted_def in_window_def)
        then show ?thesis using IH seg(1) by simp
      next
        case False
        then show ?thesis using IH by (simp add: since_simps granted_snoc drops_snoc in_window_snoc)
      qed
    qed
    then show ?thesis using seg(2) by simp
  qed
qed (simp add: granted_def in_window_def)

text \<open>The table is dropped only in a flood of addresses.\<close>

lemma finite_busy: "finite (busy w now log)"
proof (rule finite_subset)
  show "busy w now log \<subseteq> (\<lambda>(_, ip, _). ip) ` set log" by (force simp: busy_def granted_def)
qed simp

lemma forgets_busy:
  assumes "limiter_inv m w s log before_now" "forgets now s"
  shows "MAX_TRACKED_IPS < card (busy w now log)"
proof -
  have d: "distinct (map fst (attempts s))" "window s = w" using assms(1) by (simp_all add: limiter_inv_def)
  have "ip \<in> busy w now log" if ip: "ip \<in> set (map fst (attempts (cleanup now s)))" for ip
  proof -
    obtain ts where ts: "(ip, ts) \<in> set (attempts (cleanup now s))" using ip by auto
    then have ne: "ts \<noteq> []" by (auto simp: attempts_cleanup)
    from ts have "queue_of ip (cleanup now s) = ts"
      using cleanup_distinct [OF d(1), of now] by (simp add: queue_of_def)
    then obtain t where "t \<in> set (queue_of ip s)" "now \<le> t + w"
      using ne queue_cleanup [OF d(1), of ip now] d(2) by (fastforce simp: filter_eq_Cons_iff neq_Nil_conv)
    moreover have "set (queue_of ip s) \<subseteq> set (granted ip log)"
      using assms(1) by (auto simp: limiter_inv_def tracks_def dest!: spec [of _ ip])
    ultimately show ?thesis by (auto simp: busy_def)
  qed
  then have "card (set (map fst (attempts (cleanup now s)))) \<le> card (busy w now log)"
    by (intro card_mono finite_busy subsetI)
  then show ?thesis using assms(2) distinct_card [OF cleanup_distinct [OF d(1), of now]] by (simp add: forgets_def)
qed

lemma drops_in_flood:
  assumes "limiter_run m w s log now"
  shows "k < length log \<Longrightarrow> log ! k = (t, i, ok, True) \<Longrightarrow> MAX_TRACKED_IPS < card (busy (duration_secs w) t (take k log))"
  using assms
proof (induction arbitrary: k rule: limiter_run.induct)
  case (run_call m w s log last_now now ip ok' s')
  show ?case
  proof (cases "k < length log")
    case True
    then show ?thesis using run_call by (simp add: nth_append)
  next
    case False
    then have "k = length log" "t = now" "forgets now s" using run_call.prems by (auto simp: nth_append less_Suc_eq)
    moreover have "busy v now (since log) \<subseteq> busy v now log" for v using granted_since by (auto simp: busy_def)
    then have "card (busy v now (since log)) \<le> card (busy v now log)" for v by (intro card_mono finite_busy)
    ultimately show ?thesis using forgets_busy [OF run_inv [OF run_call.hyps(1)], of now]
      by (simp add: less_le_trans)
  qed
qed simp

lemma table_bounded: "limiter_run m w s log now \<Longrightarrow> length (attempts s) \<le> Suc MAX_TRACKED_IPS"
proof (induction rule: limiter_run.induct)
  case (run_call m w s log last_now now ip ok s')
  have "distinct (map fst (attempts s))" using run_inv [OF run_call.hyps(1)] by (simp add: limiter_inv_def)
  note sw = swept_frame(4) [OF this, of now]
  have "length (AList.update ip q xs) \<le> Suc (length xs)" for q and xs :: "(IpAddr \<times> instant list) list"
    by (induction xs) auto
  then have "length (attempts s') \<le> Suc (length (attempts (swept now s)))"
    using run_call.hyps(3) unfolding check_swept by (auto simp: Let_def split: if_splits)
  with sw show ?case by simp
qed (simp add: RateLimiter_new_def)

text \<open>
  C15. The limiter over any run of calls, whatever the addresses and the spacing. In any window of time, wherever it starts, an
  address is granted at most the maximum number of attempts, and the maximum once more for each time the table was dropped
  within the window; so the plain limit holds wherever the table was not dropped. The table is dropped only in a flood: when
  more than 100000 different addresses had been granted an attempt within one window before. It never holds more than
  100001 addresses.
\<close>

theorem rate_limit_holds:
  assumes "limiter_run m w s log now"
  shows "in_window (duration_secs w) T (granted ip log) \<le> m * (1 + in_window (duration_secs w) T (drops log))
    \<and> (\<forall>k t i ok. k < length log \<and> log ! k = (t, i, ok, True) \<longrightarrow> MAX_TRACKED_IPS < card (busy (duration_secs w) t (take k log)))
    \<and> length (attempts s) \<le> MAX_TRACKED_IPS + 1"
  using window_count [OF assms, of T ip] drops_in_flood [OF assms] table_bounded [OF assms] by simp

theorem rate_limit_holds_witness:
  "\<exists>s. limiter_run 1 10 s [(7, V4 1, True, False), (8, V4 1, False, False)] 8 \<and>
    in_window (duration_secs 10) 8 (granted (V4 1) [(7, V4 1, True, False), (8, V4 1, False, False)]) \<le> 1"
proof -
  define s0 where "s0 = RateLimiter_new 1 10 7"
  let ?s1 = "s0\<lparr>attempts := [(V4 1, [7])]\<rparr>"
  have 1: "rl_check_and_record 7 (V4 1) s0 = (True, ?s1)"
    by (simp add: s0_def RateLimiter_new_def rl_check_and_record_def Let_def)
  have 2: "rl_check_and_record 8 (V4 1) ?s1 = (False, ?s1)"
    by (simp add: s0_def RateLimiter_new_def rl_check_and_record_def Let_def MAX_TRACKED_IPS_def)
  have f: "forgets 7 s0 = False" "forgets 8 ?s1 = False"
    by (simp_all add: s0_def RateLimiter_new_def forgets_def cleanup_def MAX_TRACKED_IPS_def)
  have r0: "limiter_run 1 10 s0 [] 7" unfolding s0_def by (rule run_new)
  note r1 = run_call [OF r0 order_refl 1, unfolded f]
  have r2: "limiter_run 1 10 ?s1 (([] @ [(7, V4 1, True, False)]) @ [(8, V4 1, False, False)]) 8"
    using run_call [OF r1 _ 2] f by simp
  show ?thesis using r2 rate_limit_holds [OF r2, of 8 "V4 1"] by (intro exI conjI) (simp_all add: drops_def in_window_def)
qed

end
