(* ===== verification/Pool_Config.thy ===== *)
theory Pool_Config
  imports Ip_Addr
begin

text \<open>
  The address plan of a profile, from \<^verbatim>\<open>config/server.rs\<close>: the IPv4 and IPv6 pool subnets, the classes of IPv6 addresses
  a tunnel may use, and the DHCP window. The text of an error is its constructor.
\<close>

section \<open>Configuration\<close>

datatype IpMode = Ipv4 | Dual | Ipv6

record Ipv6PoolConfig =
  cidr6 :: string
  exclude6 :: "string list"
  static_reservations6 :: "(string \<times> string) list"

record PoolConfig =
  cidr :: string
  exclude :: "string list"
  static_reservations :: "(string \<times> string) list"
  pool_ipv6 :: Ipv6PoolConfig

datatype SubnetError = ExpectedCidr | ExpectedOneSlash | InvalidAddress | InvalidPrefix | PrefixOutOfRange
  | AddrUnspecified | AddrLoopback | AddrMulticast | AddrLinkLocal | AddrIpv4Mapped
  | PoolTooSmall | TunOutside | InvalidPoolStart | InvalidPoolEnd | EndBelowStart | PoolStartOutside | PoolEndOutside | RangeContainsTun

section \<open>IPv4\<close>

record PoolSubnet =
  ps_network :: Ipv4Addr
  ps_prefix :: u8
  netmask :: Ipv4Addr
  broadcast :: Ipv4Addr

text \<open>The two sides of the one slash, and the prefix length.\<close>

definition split_cidr :: "string \<Rightarrow> (SubnetError, string \<times> string) result" where
  "split_cidr c =
     (case split_once (CHR ''/'') (trim c) of
        None \<Rightarrow> Err ExpectedCidr
      | Some (address, prefix) \<Rightarrow> if CHR ''/'' \<in> set prefix then Err ExpectedOneSlash else Ok (address, prefix))"

definition pool_subnet :: "string \<Rightarrow> (SubnetError, PoolSubnet) result" where
  "pool_subnet c =
     (case split_cidr c of
        Inl e \<Rightarrow> Err e
      | Inr (address, prefix) \<Rightarrow>
          (case parse_ipv4_addr (trim address) of
             None \<Rightarrow> Err InvalidAddress
           | Some a \<Rightarrow>
               (case parse_u8 (trim prefix) of
                  None \<Rightarrow> Err InvalidPrefix
                | Some p \<Rightarrow>
                    if 32 < p then Err PrefixOutOfRange
                    else let mask = prefix_mask 32 (unat p);
                             network = a AND mask
                         in Ok \<lparr>ps_network = network, ps_prefix = p, netmask = mask, broadcast = network OR NOT mask\<rparr>)))"

definition contains_usable_host :: "PoolSubnet \<Rightarrow> Ipv4Addr \<Rightarrow> bool" where
  "contains_usable_host s a \<longleftrightarrow> ps_network s < a \<and> a < broadcast s"

section \<open>IPv6\<close>

record Ipv6PoolSubnet =
  ps6_network :: Ipv6Addr
  ps6_prefix :: u8

definition contains6 :: "Ipv6PoolSubnet \<Rightarrow> Ipv6Addr \<Rightarrow> bool" where
  "contains6 s a \<longleftrightarrow> a AND prefix_mask 128 (unat (ps6_prefix s)) = ps6_network s"

definition contains_assignable :: "Ipv6PoolSubnet \<Rightarrow> Ipv6Addr \<Rightarrow> bool" where
  "contains_assignable s a \<longleftrightarrow> contains6 s a \<and> a \<noteq> ps6_network s"

definition validate_tunnel_ipv6_address :: "Ipv6Addr \<Rightarrow> (SubnetError, unit) result" where
  "validate_tunnel_ipv6_address a =
     (let link_local = (drop_bit 112 a AND 0xffc0 = 0xfe80) in
      if ipv6_unspecified a then Err AddrUnspecified
      else if ipv6_loopback a then Err AddrLoopback
      else if ipv6_multicast a then Err AddrMulticast
      else if link_local then Err AddrLinkLocal
      else if ipv6_v4_mapped a then Err AddrIpv4Mapped
      else Ok ())"

definition ipv6_pool_subnet :: "string \<Rightarrow> (SubnetError, Ipv6PoolSubnet) result" where
  "ipv6_pool_subnet c =
     (case split_cidr c of
        Inl e \<Rightarrow> Err e
      | Inr (address, prefix) \<Rightarrow>
          (case parse_ipv6_addr (trim address) of
             None \<Rightarrow> Err InvalidAddress
           | Some a \<Rightarrow>
               (case parse_u8 (trim prefix) of
                  None \<Rightarrow> Err InvalidPrefix
                | Some p \<Rightarrow>
                    if \<not> (1 \<le> p \<and> p \<le> 126) then Err PrefixOutOfRange
                    else let network = a AND prefix_mask 128 (unat p)
                         in case validate_tunnel_ipv6_address network of
                              Inl e \<Rightarrow> Err e
                            | Inr _ \<Rightarrow> Ok \<lparr>ps6_network = network, ps6_prefix = p\<rparr>)))"

section \<open>The DHCP window\<close>

definition dhcp_parse :: "SubnetError \<Rightarrow> string option \<Rightarrow> (SubnetError, Ipv4Addr option) result" where
  "dhcp_parse e val =
     (case val of
        None \<Rightarrow> Ok None
      | Some v \<Rightarrow> if trim v = [] then Ok None
                  else case parse_ipv4_addr (trim v) of None \<Rightarrow> Err e | Some a \<Rightarrow> Ok (Some a))"

text \<open>The bounds used where the configuration names none.\<close>

definition dhcp_default_bounds :: "u32 \<Rightarrow> u32 \<Rightarrow> u32 \<Rightarrow> Ipv4Addr option \<Rightarrow> Ipv4Addr option \<Rightarrow> u32 \<times> u32" where
  "dhcp_default_bounds lo hi tun cs ce =
     (case (cs, ce) of
        (None, None) \<Rightarrow>
          (let below = (if lo \<le> tun then tun - lo else 0); above = (if tun \<le> hi then hi - tun else 0)
           in if below \<le> above \<and> tun < hi then (tun + 1, hi) else (lo, tun - 1))
      | (Some s, None) \<Rightarrow> if s < tun then (lo, tun - 1) else (lo, hi)
      | (None, Some e) \<Rightarrow> if tun < e then (tun + 1, hi) else (lo, hi)
      | (Some _, Some _) \<Rightarrow> (lo, hi))"

definition dhcp_pool_bounds :: "string option \<Rightarrow> string option \<Rightarrow> string \<Rightarrow> Ipv4Addr \<Rightarrow> (SubnetError, Ipv4Addr \<times> Ipv4Addr) result" where
  "dhcp_pool_bounds pool_start pool_end pool_cidr tun =
     (case pool_subnet pool_cidr of
        Inl e \<Rightarrow> Err e
      | Inr subnet \<Rightarrow>
          (let network = ps_network subnet; bcast = broadcast subnet in
           if (if network \<le> bcast then bcast - network else 0) < 3 then Err PoolTooSmall
           else let lo = network + 1; hi = bcast - 1 in
           if tun < lo \<or> hi < tun then Err TunOutside
           else case dhcp_parse InvalidPoolStart pool_start of
                  Inl e \<Rightarrow> Err e
                | Inr cs \<Rightarrow>
                    (case dhcp_parse InvalidPoolEnd pool_end of
                       Inl e \<Rightarrow> Err e
                     | Inr ce \<Rightarrow>
                         (let (ds, de) = dhcp_default_bounds lo hi tun cs ce;
                              start = (case cs of None \<Rightarrow> ds | Some s \<Rightarrow> s);
                              end_ip = (case ce of None \<Rightarrow> de | Some e \<Rightarrow> e)
                          in if end_ip < start then Err EndBelowStart
                             else if start < lo \<or> hi < start then Err PoolStartOutside
                             else if end_ip < lo \<or> hi < end_ip then Err PoolEndOutside
                             else if start \<le> tun \<and> tun \<le> end_ip then Err RangeContainsTun
                             else Ok (start, end_ip)))))"

end
