(* ===== verification/Pool.thy ===== *)
theory Pool
  imports Pool_Config "HOL-Library.AList"
begin

text \<open>
  The address allocators of \<^verbatim>\<open>server/pool.rs\<close>. The IPv4 and the IPv6 pool keep the same books - leases, reservations, the
  stack of released addresses - and walk different ranges: the books are the record \<open>Leases\<close> both pools extend, and the
  operations the two implementations share are defined on it once. A stack has its top first.
\<close>

section \<open>Books\<close>

record 'a Leases =
  excluded :: "'a set"
  static_res :: "(string \<times> 'a) list"
  reserved :: "'a set"
  allocated :: "'a set"
  user_allocations :: "(string \<times> 'a) list"
  freed :: "'a list"
  freed_set :: "'a set"

record Ipv6Pool = "u128 Leases" +
  network6 :: u128
  prefix6 :: u8
  end6 :: u128
  cursor6 :: "u128 option"

record IpPool = "u32 Leases" +
  start_ip :: u32
  end_ip :: u32
  cursor :: u64
  ipv6 :: "Ipv6Pool option"

record AssignedAddresses =
  aa_ipv4 :: "Ipv4Addr option"
  aa_ipv6 :: "Ipv6Addr option"

datatype AddressAllocationError = Ipv4Exhausted | InvalidFixedIpv4 Ipv4Addr | Ipv6Unavailable | Ipv6Exhausted | InvalidFixedIpv6 Ipv6Addr

definition get_ip_by_username :: "string \<Rightarrow> ('a, 'z) Leases_scheme \<Rightarrow> 'a option" where
  "get_ip_by_username key s = map_of (user_allocations s) key"

definition remember_freed :: "'a \<Rightarrow> ('a, 'z) Leases_scheme \<Rightarrow> ('a, 'z) Leases_scheme" where
  "remember_freed v s =
     (if v \<notin> reserved s \<and> v \<notin> freed_set s then s\<lparr>freed_set := insert v (freed_set s), freed := v # freed s\<rparr> else s)"

definition release_lease :: "string \<Rightarrow> ('a, 'z) Leases_scheme \<Rightarrow> ('a, 'z) Leases_scheme" where
  "release_lease key s =
     (case map_of (user_allocations s) key of
        None \<Rightarrow> s
      | Some v \<Rightarrow> remember_freed v (s\<lparr>user_allocations := AList.delete key (user_allocations s), allocated := allocated s - {v}\<rparr>))"

definition assign_lease :: "string \<Rightarrow> 'a \<Rightarrow> ('a, 'z) Leases_scheme \<Rightarrow> ('a, 'z) Leases_scheme" where
  "assign_lease key v s = s\<lparr>allocated := insert v (allocated s), user_allocations := AList.update key v (user_allocations s)\<rparr>"

text \<open>A fixed address known to be usable: this key's previous lease is given up, any other holder loses the address.\<close>

definition take_fixed :: "string \<Rightarrow> 'a \<Rightarrow> ('a, 'z) Leases_scheme \<Rightarrow> ('a, 'z) Leases_scheme" where
  "take_fixed key v s =
     (if map_of (user_allocations s) key = Some v then s
      else let s1 = (case map_of (user_allocations s) key of
                       None \<Rightarrow> s
                     | Some prev \<Rightarrow> remember_freed prev (s\<lparr>allocated := allocated s - {prev}\<rparr>));
               s2 = s1\<lparr>user_allocations := filter (\<lambda>(holder, held). \<not> (held = v \<and> holder \<noteq> key)) (user_allocations s1)\<rparr>
           in assign_lease key v s2)"

definition not_taken :: "('a, 'z) Leases_scheme \<Rightarrow> 'a \<Rightarrow> bool" where
  "not_taken s v \<longleftrightarrow> v \<notin> excluded s \<and> v \<notin> reserved s \<and> v \<notin> allocated s"

text \<open>The released addresses, most recent first, until one passes \<open>ok\<close>.\<close>

fun pop_freed_list :: "('a \<Rightarrow> bool) \<Rightarrow> 'a list \<Rightarrow> 'a set \<Rightarrow> 'a option \<times> 'a list \<times> 'a set" where
  "pop_freed_list ok [] F = (None, [], F)"
| "pop_freed_list ok (v # vs) F = (if ok v then (Some v, vs, F - {v}) else pop_freed_list ok vs (F - {v}))"

definition pop_freed :: "('a \<Rightarrow> bool) \<Rightarrow> string \<Rightarrow> ('a, 'z) Leases_scheme \<Rightarrow> 'a option \<times> ('a, 'z) Leases_scheme" where
  "pop_freed ok key s =
     (case pop_freed_list ok (freed s) (freed_set s) of
        (None, vs, F) \<Rightarrow> (None, s\<lparr>freed := vs, freed_set := F\<rparr>)
      | (Some v, vs, F) \<Rightarrow> (Some v, assign_lease key v (s\<lparr>freed := vs, freed_set := F\<rparr>)))"

section \<open>The IPv6 pool\<close>

definition usable6 :: "Ipv6Pool \<Rightarrow> u128 \<Rightarrow> bool" where
  "usable6 s v \<longleftrightarrow> \<not> (v \<le> network6 s \<or> end6 s < v \<or> v \<in> excluded s)"

definition assignable6 :: "Ipv6Pool \<Rightarrow> u128 \<Rightarrow> bool" where
  "assignable6 s v \<longleftrightarrow> \<not> (v \<le> network6 s \<or> end6 s < v \<or> v \<in> excluded s \<or> v \<in> reserved s \<or> v \<in> allocated s)"

definition allocate_fixed6 :: "string \<Rightarrow> Ipv6Addr \<Rightarrow> Ipv6Pool \<Rightarrow> Ipv6Addr option \<times> Ipv6Pool" where
  "allocate_fixed6 key v s = (if \<not> usable6 s v then (None, s) else (Some v, take_fixed key v s))"

function walk6 :: "string \<Rightarrow> Ipv6Pool \<Rightarrow> Ipv6Addr option \<times> Ipv6Pool" where
  "walk6 key s =
     (case cursor6 s of
        None \<Rightarrow> (None, s)
      | Some v \<Rightarrow>
          (let s1 = s\<lparr>cursor6 := (if v = end6 s \<or> v = - 1 then None else Some (v + 1))\<rparr>
           in if assignable6 s1 v then (Some v, assign_lease key v s1) else walk6 key s1))"
  by pat_completeness auto
termination
proof (relation "measure (\<lambda>(key, s). case cursor6 s of None \<Rightarrow> 0 | Some v \<Rightarrow> Suc (2 ^ LENGTH(128) - unat v))")
  fix key s v s1
  assume c: "cursor6 s = Some v" and s1: "s1 = s\<lparr>cursor6 := (if v = end6 s \<or> v = - 1 then None else Some (v + 1))\<rparr>"
  have "2 ^ LENGTH(128) - unat (v + 1) < 2 ^ LENGTH(128) - unat v" if "v \<noteq> - 1" using unat_inc [OF that] by simp
  then show "((key, s1), key, s) \<in> measure (\<lambda>(key, s). case cursor6 s of None \<Rightarrow> 0 | Some v \<Rightarrow> Suc (2 ^ LENGTH(128) - unat v))"
    using c s1 by simp
qed simp

declare walk6.simps [simp del]

definition allocate6 :: "string \<Rightarrow> Ipv6Pool \<Rightarrow> Ipv6Addr option \<times> Ipv6Pool" where
  "allocate6 key s =
     (case map_of (user_allocations s) key of
        Some v \<Rightarrow> (Some v, s)
      | None \<Rightarrow>
          (case find (\<lambda>(username, _). username = key) (static_res s) of
             Some (_, a) \<Rightarrow> allocate_fixed6 key a s
           | None \<Rightarrow>
               (case pop_freed (assignable6 s) key s of
                  (Some v, s1) \<Rightarrow> (Some v, s1)
                | (None, s1) \<Rightarrow> walk6 key s1)))"

section \<open>The IPv4 pool\<close>

definition usable4 :: "IpPool \<Rightarrow> u32 \<Rightarrow> bool" where
  "usable4 s v \<longleftrightarrow> \<not> ((ucast v :: u64) < ucast (start_ip s) \<or> (ucast (end_ip s) :: u64) < ucast v \<or> v \<in> excluded s)"

definition allocate_fixed :: "string \<Rightarrow> Ipv4Addr \<Rightarrow> IpPool \<Rightarrow> Ipv4Addr option \<times> IpPool" where
  "allocate_fixed key v s = (if \<not> usable4 s v then (None, s) else (Some v, take_fixed key v s))"

lemma unat_u32_u64: "unat (ucast (w :: u32) :: u64) = unat w"
  by (simp add: unsigned_ucast_eq take_bit_nat_eq_self_iff) (use unat_u32_less [of w] in linarith)

lemma cursor_not_max: "(c :: u64) \<le> ucast (w :: u32) \<Longrightarrow> c \<noteq> - 1"
proof
  assume "c \<le> ucast w" "c = - 1"
  then have "unat (- 1 :: u64) \<le> unat w" using unat_u32_u64 [of w] by (metis word_le_nat_alt)
  moreover have "unat w < 4294967296" by simp
  ultimately show False by (simp add: unsigned_minus_1_eq_mask mask_eq_exp_minus_1)
qed

function walk4 :: "string \<Rightarrow> IpPool \<Rightarrow> Ipv4Addr option \<times> IpPool" where
  "walk4 key s =
     (if cursor s \<le> ucast (end_ip s)
      then (let v = ucast (cursor s); s1 = s\<lparr>cursor := cursor s + 1\<rparr>
            in if not_taken s1 v then (Some v, assign_lease key v s1) else walk4 key s1)
      else (None, s))"
  by pat_completeness auto
termination
proof (relation "measure (\<lambda>(key, s). 2 ^ LENGTH(64) - unat (cursor s))")
  fix key s v s1
  assume c: "cursor s \<le> ucast (end_ip s)" and s1: "s1 = s\<lparr>cursor := cursor s + 1\<rparr>"
  have "2 ^ LENGTH(64) - unat (cursor s + 1) < 2 ^ LENGTH(64) - unat (cursor s)"
    using unat_inc [OF cursor_not_max [OF c]] by simp
  then show "((key, s1), key, s) \<in> measure (\<lambda>(key, s). 2 ^ LENGTH(64) - unat (cursor s))" using s1 by simp
qed simp

declare walk4.simps [simp del]

definition allocate :: "string \<Rightarrow> IpPool \<Rightarrow> Ipv4Addr option \<times> IpPool" where
  "allocate username s =
     (case map_of (user_allocations s) username of
        Some v \<Rightarrow> (Some v, s)
      | None \<Rightarrow>
          (case find (\<lambda>(uname, _). uname = username) (static_res s) of
             Some (_, a) \<Rightarrow> allocate_fixed username a s
           | None \<Rightarrow>
               (case pop_freed (not_taken s) username s of
                  (Some v, s1) \<Rightarrow> (Some v, s1)
                | (None, s1) \<Rightarrow> walk4 username s1)))"

text \<open>The scan of a window; it stops rather than wrap.\<close>

function scan_range :: "u32 set \<Rightarrow> IpPool \<Rightarrow> u32 \<Rightarrow> u32 \<Rightarrow> u32 option" where
  "scan_range tmp s v hi =
     (if v \<le> hi then (if not_taken s v \<and> v \<notin> tmp then Some v else if v = - 1 then None else scan_range tmp s (v + 1) hi) else None)"
  by pat_completeness auto
termination
proof (relation "measure (\<lambda>(tmp, s, v, hi). 2 ^ LENGTH(32) - unat v)")
  fix tmp s and v hi :: u32
  assume "v \<noteq> - 1"
  then show "((tmp, s, v + 1, hi), tmp, s, v, hi) \<in> measure (\<lambda>(tmp, s, v, hi). 2 ^ LENGTH(32) - unat v)"
    using unat_inc [of v] by simp
qed simp

declare scan_range.simps [simp del]

definition allocate_in_range_excluding :: "string \<Rightarrow> u32 \<Rightarrow> u32 \<Rightarrow> u32 set \<Rightarrow> IpPool \<Rightarrow> Ipv4Addr option \<times> IpPool" where
  "allocate_in_range_excluding key lo hi tmp s =
     (let held = map_of (user_allocations s) key in
      case held of
        Some cur \<Rightarrow>
          if lo \<le> cur \<and> cur \<le> hi \<and> cur \<notin> tmp then (Some cur, s)
          else (let s1 = (remember_freed cur (s\<lparr>allocated := allocated s - {cur}\<rparr>));
                    s2 = s1\<lparr>user_allocations := AList.delete key (user_allocations s1)\<rparr>
                in case scan_range tmp s2 (max lo (start_ip s2)) (min hi (end_ip s2)) of
                     None \<Rightarrow> (None, s2) | Some v \<Rightarrow> (Some v, assign_lease key v s2))
      | None \<Rightarrow>
          (case scan_range tmp s (max lo (start_ip s)) (min hi (end_ip s)) of
             None \<Rightarrow> (None, s) | Some v \<Rightarrow> (Some v, assign_lease key v s)))"

definition allocate_in_range :: "string \<Rightarrow> u32 \<Rightarrow> u32 \<Rightarrow> IpPool \<Rightarrow> Ipv4Addr option \<times> IpPool" where
  "allocate_in_range key lo hi s = allocate_in_range_excluding key lo hi {} s"

definition allocate_fixed_unclaimed :: "string \<Rightarrow> Ipv4Addr \<Rightarrow> IpPool \<Rightarrow> Ipv4Addr option \<times> IpPool" where
  "allocate_fixed_unclaimed key v s =
     (case find (\<lambda>(_, held). held = v) (user_allocations s) of
        Some (holder, _) \<Rightarrow> (if holder = key then Some v else None, s)
      | None \<Rightarrow> if v \<in> reserved s then (None, s) else allocate_fixed key v s)"

definition release_ipv4 :: "string \<Rightarrow> IpPool \<Rightarrow> IpPool" where
  "release_ipv4 key s = release_lease key s"

definition release :: "string \<Rightarrow> IpPool \<Rightarrow> IpPool" where
  "release key s = (release_ipv4 key s)\<lparr>ipv6 := map_option (release_lease key) (ipv6 s)\<rparr>"

section \<open>Both families\<close>

definition ipv6_prefix :: "IpPool \<Rightarrow> u8 option" where
  "ipv6_prefix s = map_option prefix6 (ipv6 s)"

definition allocate_ipv6 :: "string \<Rightarrow> IpPool \<Rightarrow> Ipv6Addr option \<times> IpPool" where
  "allocate_ipv6 key s = (case ipv6 s of None \<Rightarrow> (None, s) | Some p \<Rightarrow> (let (a, p') = allocate6 key p in (a, s\<lparr>ipv6 := Some p'\<rparr>)))"

definition allocate_fixed_ipv6 :: "string \<Rightarrow> Ipv6Addr \<Rightarrow> IpPool \<Rightarrow> Ipv6Addr option \<times> IpPool" where
  "allocate_fixed_ipv6 key v s =
     (case ipv6 s of None \<Rightarrow> (None, s) | Some p \<Rightarrow> (let (a, p') = allocate_fixed6 key v p in (a, s\<lparr>ipv6 := Some p'\<rparr>)))"

definition get_ipv6_by_username :: "string \<Rightarrow> IpPool \<Rightarrow> Ipv6Addr option" where
  "get_ipv6_by_username key s = Option.bind (ipv6 s) (get_ip_by_username key)"

definition retain_mode_leases :: "string \<Rightarrow> IpMode \<Rightarrow> IpPool \<Rightarrow> IpPool" where
  "retain_mode_leases key mode s =
     (let s1 = (if mode = Ipv6 then release_ipv4 key s else s)
      in if mode = Ipv4 then s1\<lparr>ipv6 := map_option (release_lease key) (ipv6 s1)\<rparr> else s1)"

text \<open>The IPv4 part of \<^verbatim>\<open>allocate_for_mode_inner\<close>, then the whole.\<close>

definition allocate_ipv4_for :: "string \<Rightarrow> IpMode \<Rightarrow> Ipv4Addr option \<Rightarrow> IpPool \<Rightarrow> (AddressAllocationError, Ipv4Addr option) result \<times> IpPool" where
  "allocate_ipv4_for key mode fixed s =
     (if mode = Ipv4 \<or> mode = Dual
      then (case fixed of
              Some a \<Rightarrow> (case allocate_fixed key a s of (None, s1) \<Rightarrow> (Err (InvalidFixedIpv4 a), s1) | (Some v, s1) \<Rightarrow> (Ok (Some v), s1))
            | None \<Rightarrow> (case allocate key s of (None, s1) \<Rightarrow> (Err Ipv4Exhausted, s1) | (Some v, s1) \<Rightarrow> (Ok (Some v), s1)))
      else (Ok None, s))"

definition allocate_ipv6_for :: "string \<Rightarrow> IpMode \<Rightarrow> Ipv6Addr option \<Rightarrow> IpPool \<Rightarrow> (AddressAllocationError, Ipv6Addr option) result \<times> IpPool" where
  "allocate_ipv6_for key mode fixed s =
     (if mode = Ipv6 \<or> mode = Dual
      then (case ipv6 s of
              None \<Rightarrow> (Err Ipv6Unavailable, s)
            | Some p \<Rightarrow>
                (case fixed of
                   Some a \<Rightarrow> (case allocate_fixed6 key a p of
                                (None, p1) \<Rightarrow> (Err (InvalidFixedIpv6 a), s\<lparr>ipv6 := Some p1\<rparr>)
                              | (Some v, p1) \<Rightarrow> (Ok (Some v), s\<lparr>ipv6 := Some p1\<rparr>))
                 | None \<Rightarrow> (case allocate6 key p of
                              (None, p1) \<Rightarrow> (Err Ipv6Exhausted, s\<lparr>ipv6 := Some p1\<rparr>)
                            | (Some v, p1) \<Rightarrow> (Ok (Some v), s\<lparr>ipv6 := Some p1\<rparr>))))
      else (Ok None, s))"

definition allocate_for_mode_inner :: "string \<Rightarrow> IpMode \<Rightarrow> Ipv4Addr option \<Rightarrow> Ipv6Addr option \<Rightarrow> IpPool
    \<Rightarrow> (AddressAllocationError, AssignedAddresses) result \<times> IpPool" where
  "allocate_for_mode_inner key mode fixed4 fixed6 s =
     (case allocate_ipv4_for key mode fixed4 (retain_mode_leases key mode s) of
        (Inl e, s1) \<Rightarrow> (Err e, s1)
      | (Inr a4, s1) \<Rightarrow>
          (case allocate_ipv6_for key mode fixed6 s1 of
             (Inl e, s2) \<Rightarrow> (Err e, s2)
           | (Inr a6, s2) \<Rightarrow> (Ok \<lparr>aa_ipv4 = a4, aa_ipv6 = a6\<rparr>, s2)))"

definition allocate_for_mode :: "string \<Rightarrow> IpMode \<Rightarrow> Ipv4Addr option \<Rightarrow> Ipv6Addr option \<Rightarrow> IpPool
    \<Rightarrow> (AddressAllocationError, AssignedAddresses) result \<times> IpPool" where
  "allocate_for_mode key mode fixed4 fixed6 s =
     (case allocate_for_mode_inner key mode fixed4 fixed6 s of
        (Inr a, s1) \<Rightarrow> (Ok a, s1)
      | (Inl e, _) \<Rightarrow> (Err e, s))"

section \<open>Construction\<close>

datatype PoolError = Subnet SubnetError | TunNotAssignable | InvalidExclude | ExcludeOutside | InvalidReservation
  | ReservationNotAssignable | DuplicateReservation | SubnetTooSmall | InvalidSubnetMask

fun add_exclusions6 :: "u128 \<Rightarrow> u128 \<Rightarrow> string list \<Rightarrow> u128 set \<Rightarrow> (PoolError, u128 set) result" where
  "add_exclusions6 network last_ip [] ex = Ok ex"
| "add_exclusions6 network last_ip (value # rest) ex =
     (case parse_ipv6_addr value of
        None \<Rightarrow> Err InvalidExclude
      | Some raw \<Rightarrow> if raw < network \<or> last_ip < raw then Err ExcludeOutside else add_exclusions6 network last_ip rest (insert raw ex))"

fun add_reservations6 :: "u128 \<Rightarrow> u128 \<Rightarrow> u128 set \<Rightarrow> (string \<times> string) list \<Rightarrow> u128 set \<times> (string \<times> u128) list
    \<Rightarrow> (PoolError, u128 set \<times> (string \<times> u128) list) result" where
  "add_reservations6 network last_ip ex [] (res, sr) = Ok (res, sr)"
| "add_reservations6 network last_ip ex ((username, value) # rest) (res, sr) =
     (case parse_ipv6_addr value of
        None \<Rightarrow> Err InvalidReservation
      | Some raw \<Rightarrow>
          if raw \<le> network \<or> last_ip < raw \<or> raw \<in> ex then Err ReservationNotAssignable
          else if raw \<in> res then Err DuplicateReservation
          else add_reservations6 network last_ip ex rest (insert raw res, sr @ [(username, raw)]))"

definition Ipv6Pool_new :: "Ipv6PoolConfig \<Rightarrow> Ipv6Addr \<Rightarrow> (PoolError, Ipv6Pool) result" where
  "Ipv6Pool_new config tun =
     (case ipv6_pool_subnet (cidr6 config) of
        Inl e \<Rightarrow> Err (Subnet e)
      | Inr subnet \<Rightarrow>
          (let network = ps6_network subnet;
               host_mask = (if ps6_prefix subnet = 0 then - 1 else drop_bit (unat (ps6_prefix subnet)) (- 1));
               last_ip = network OR host_mask
           in if \<not> contains_assignable subnet tun then Err TunNotAssignable
              else case add_exclusions6 network last_ip (exclude6 config) {network, tun} of
                     Inl e \<Rightarrow> Err e
                   | Inr ex \<Rightarrow>
                       (case add_reservations6 network last_ip ex (static_reservations6 config) ({}, []) of
                          Inl e \<Rightarrow> Err e
                        | Inr (res, sr) \<Rightarrow>
                            Ok \<lparr>excluded = ex, static_res = sr, reserved = res, allocated = {}, user_allocations = [], freed = [], freed_set = {},
                                network6 = network, prefix6 = ps6_prefix subnet, end6 = last_ip,
                                cursor6 = (if network = - 1 then None else Some (network + 1))\<rparr>)))"

fun add_reservations :: "u32 \<Rightarrow> u32 \<Rightarrow> u32 set \<Rightarrow> (string \<times> string) list \<Rightarrow> u32 set \<times> (string \<times> u32) list
    \<Rightarrow> (PoolError, u32 set \<times> (string \<times> u32) list) result" where
  "add_reservations first_ip last_ip ex [] (res, sr) = Ok (res, sr)"
| "add_reservations first_ip last_ip ex ((username, raw) # rest) (res, sr) =
     (case parse_ipv4_addr raw of
        None \<Rightarrow> Err InvalidReservation
      | Some v \<Rightarrow>
          if v < first_ip \<or> last_ip < v \<or> v \<in> ex then Err ReservationNotAssignable
          else if v \<in> res then Err DuplicateReservation
          else add_reservations first_ip last_ip ex rest (insert v res, sr @ [(username, v)]))"

definition parse_cidr :: "string \<Rightarrow> (PoolError, u32 \<times> u8) result" where
  "parse_cidr c = (case pool_subnet c of Inl e \<Rightarrow> Err (Subnet e) | Inr s \<Rightarrow> Ok (ps_network s, ps_prefix s))"

text \<open>\<^verbatim>\<open>1u32.checked_shl(32 - mask)\<close> fails for the empty mask only.\<close>

definition IpPool_new_with_tun :: "PoolConfig \<Rightarrow> Ipv4Addr \<Rightarrow> (PoolError, IpPool) result" where
  "IpPool_new_with_tun config tun =
     (case parse_cidr (cidr config) of
        Inl e \<Rightarrow> Err e
      | Inr (network, subnet_mask) \<Rightarrow>
          if 30 < subnet_mask then Err SubnetTooSmall
          else if subnet_mask = 0 then Err InvalidSubnetMask
          else (let total_ips = push_bit (32 - unat subnet_mask) (1 :: u32);
                    first_ip = network OR 1;
                    last_ip = network OR (if 2 \<le> total_ips then total_ips - 2 else 0)
                in if tun < first_ip \<or> last_ip < tun then Err TunNotAssignable
                   else let ex = {network, network OR (total_ips - 1)}
                               \<union> set (List.map_filter parse_ipv4_addr (exclude config)) \<union> {tun}
                        in case add_reservations first_ip last_ip ex (Pool_Config.static_reservations config) ({}, []) of
                             Inl e \<Rightarrow> Err e
                           | Inr (res, sr) \<Rightarrow>
                               Ok \<lparr>excluded = ex, static_res = sr, reserved = res, allocated = {}, user_allocations = [], freed = [], freed_set = {},
                                   start_ip = first_ip, end_ip = last_ip, cursor = ucast first_ip, ipv6 = None\<rparr>))"

definition IpPool_new_ipv6_only :: "Ipv6PoolConfig \<Rightarrow> Ipv6Addr \<Rightarrow> (PoolError, IpPool) result" where
  "IpPool_new_ipv6_only config tun =
     (case Ipv6Pool_new config tun of
        Inl e \<Rightarrow> Err e
      | Inr p \<Rightarrow>
          Ok \<lparr>excluded = {}, static_res = [], reserved = {}, allocated = {}, user_allocations = [], freed = [], freed_set = {},
              start_ip = 0, end_ip = 0, cursor = 0, ipv6 = Some p\<rparr>)"

definition IpPool_enable_ipv6 :: "Ipv6PoolConfig \<Rightarrow> Ipv6Addr \<Rightarrow> IpPool \<Rightarrow> (PoolError, unit) result \<times> IpPool" where
  "IpPool_enable_ipv6 config tun s =
     (case Ipv6Pool_new config tun of Inl e \<Rightarrow> (Err e, s) | Inr p \<Rightarrow> (Ok (), s\<lparr>ipv6 := Some p\<rparr>))"

definition u32_from_ip :: "Ipv4Addr \<Rightarrow> u32" where
  "u32_from_ip ip =
     (let octets = to_be_bytes ip
      in push_bit 24 (ucast (octets ! 0)) OR push_bit 16 (ucast (octets ! 1)) OR push_bit 8 (ucast (octets ! 2)) OR ucast (octets ! 3))"

definition ip_from_u32 :: "u32 \<Rightarrow> Ipv4Addr" where
  "ip_from_u32 v = ipv4_new (ucast (drop_bit 24 v)) (ucast (drop_bit 16 v)) (ucast (drop_bit 8 v)) (ucast v)"

end
