(* ===== verification/Pool_Leases.thy ===== *)
theory Pool_Leases
  imports Pool
begin

text \<open>
  What the allocators promise. The leases of a pool are a partial map from keys to addresses; the books agree with it, it is
  injective, and every address the walk has passed is leased, released or withheld. The interface both pools offer is the
  locale \<open>address_pool\<close>.
\<close>

section \<open>The map of leases\<close>

definition lease_map :: "('a, 'z) Leases_scheme \<Rightarrow> (string \<rightharpoonup> 'a)" where
  "lease_map s = map_of (user_allocations s)"

definition spec_take :: "string \<Rightarrow> 'a \<Rightarrow> (string \<rightharpoonup> 'a) \<Rightarrow> (string \<rightharpoonup> 'a)" where
  "spec_take key v m = (\<lambda>k. if k = key then Some v else if m k = Some v then None else m k)"

definition unique_leases :: "(string \<rightharpoonup> 'a) \<Rightarrow> bool" where
  "unique_leases m \<longleftrightarrow> (\<forall>k k' v. m k = Some v \<longrightarrow> m k' = Some v \<longrightarrow> k = k')"

lemma spec_take_unique: "unique_leases m \<Longrightarrow> unique_leases (spec_take key v m)"
  by (auto simp: unique_leases_def spec_take_def split: if_splits)

lemma spec_take_free: "v \<notin> ran m \<Longrightarrow> spec_take key v m = m(key \<mapsto> v)"
  by (auto simp: spec_take_def ran_def)

text \<open>What the others hold.\<close>

lemma ran_others:
  assumes "unique_leases m"
  shows "(\<exists>k. k \<noteq> key \<and> m k = Some x) \<longleftrightarrow> x \<in> ran m \<and> m key \<noteq> Some x"
proof
  assume "\<exists>k. k \<noteq> key \<and> m k = Some x"
  then obtain k where k: "k \<noteq> key" "m k = Some x" by blast
  then have "m key \<noteq> Some x" using assms unfolding unique_leases_def by metis
  then show "x \<in> ran m \<and> m key \<noteq> Some x" using k by (simp add: ranI)
next
  assume x: "x \<in> ran m \<and> m key \<noteq> Some x"
  then obtain k where "m k = Some x" by (auto simp: ran_def)
  with x show "\<exists>k. k \<noteq> key \<and> m k = Some x" by (intro exI [of _ k]) auto
qed

lemma ran_spec_take:
  assumes "unique_leases m"
  shows "ran (spec_take key v m) = insert v (case m key of None \<Rightarrow> ran m | Some w \<Rightarrow> ran m - {w})"
proof -
  have "x \<in> ran (spec_take key v m) \<longleftrightarrow> x = v \<or> (\<exists>k. k \<noteq> key \<and> m k = Some x)" for x
  proof
    assume "x \<in> ran (spec_take key v m)"
    then show "x = v \<or> (\<exists>k. k \<noteq> key \<and> m k = Some x)" by (auto simp: ran_def spec_take_def split: if_splits)
  next
    assume x: "x = v \<or> (\<exists>k. k \<noteq> key \<and> m k = Some x)"
    show "x \<in> ran (spec_take key v m)"
    proof (cases "x = v")
      case True
      then show ?thesis by (intro ranI [of _ key]) (simp add: spec_take_def)
    next
      case False
      with x obtain k where "k \<noteq> key" "m k = Some x" by blast
      then show ?thesis using False by (intro ranI [of _ k]) (simp add: spec_take_def)
    qed
  qed
  then show ?thesis unfolding ran_others [OF assms] by (cases "m key") (auto simp only: insert_iff option.case option.inject set_eq_iff Diff_iff singleton_iff option.distinct)
qed

lemma unique_release: "unique_leases m \<Longrightarrow> unique_leases (m(key := None))"
  by (auto simp: unique_leases_def)

lemma ran_release:
  assumes "unique_leases m"
  shows "ran (m(key := None)) = (case m key of None \<Rightarrow> ran m | Some w \<Rightarrow> ran m - {w})"
proof -
  have "x \<in> ran (m(key := None)) \<longleftrightarrow> (\<exists>k. k \<noteq> key \<and> m k = Some x)" for x by (simp add: ran_def) metis
  then show ?thesis unfolding ran_others [OF assms]
    by (cases "m key") (auto simp only: option.case option.inject set_eq_iff Diff_iff singleton_iff option.distinct)
qed

section \<open>The books\<close>

text \<open>\<open>U\<close> holds of the addresses the pool may lease, \<open>W\<close> of those the walk has passed.\<close>

definition lease_inv :: "('a \<Rightarrow> bool) \<Rightarrow> ('a, 'z) Leases_scheme \<Rightarrow> bool" where
  "lease_inv U s \<longleftrightarrow> distinct (map fst (user_allocations s)) \<and> unique_leases (lease_map s) \<and> allocated s = ran (lease_map s) \<and>
     (\<forall>v. v \<in> allocated s \<longrightarrow> U v) \<and> freed_set s = set (freed s) \<and> distinct (freed s) \<and>
     (\<forall>v. v \<in> set (freed s) \<longrightarrow> U v \<and> v \<notin> reserved s) \<and> (\<forall>k v. (k, v) \<in> set (static_res s) \<longrightarrow> U v \<and> v \<in> reserved s)"

definition lease_cover :: "('a \<Rightarrow> bool) \<Rightarrow> ('a \<Rightarrow> bool) \<Rightarrow> ('a, 'z) Leases_scheme \<Rightarrow> bool" where
  "lease_cover U W s \<longleftrightarrow> (\<forall>v. U v \<longrightarrow> W v \<longrightarrow> v \<notin> reserved s \<longrightarrow> v \<in> allocated s \<or> v \<in> set (freed s))"

text \<open>What no operation changes.\<close>

definition same_plan :: "('a, 'z) Leases_scheme \<Rightarrow> ('a, 'z) Leases_scheme \<Rightarrow> bool" where
  "same_plan s s' \<longleftrightarrow> excluded s' = excluded s \<and> reserved s' = reserved s \<and> static_res s' = static_res s"

lemma remember_freed_simps [simp]:
  "user_allocations (remember_freed v s) = user_allocations s" "allocated (remember_freed v s) = allocated s"
  "excluded (remember_freed v s) = excluded s" "reserved (remember_freed v s) = reserved s" "static_res (remember_freed v s) = static_res s"
  "lease_map (remember_freed v s) = lease_map s" "Leases.more (remember_freed v s) = Leases.more s"
  by (simp_all add: remember_freed_def lease_map_def)

lemma assign_lease_simps [simp]:
  "allocated (assign_lease key v s) = insert v (allocated s)" "lease_map (assign_lease key v s) = (lease_map s)(key \<mapsto> v)"
  "excluded (assign_lease key v s) = excluded s" "reserved (assign_lease key v s) = reserved s" "static_res (assign_lease key v s) = static_res s"
  "freed (assign_lease key v s) = freed s" "freed_set (assign_lease key v s) = freed_set s"
  "Leases.more (assign_lease key v s) = Leases.more s"
  by (simp_all add: assign_lease_def lease_map_def update_conv')

lemma remember_freed_books:
  assumes "freed_set s = set (freed s)" "distinct (freed s)"
  shows "freed_set (remember_freed v s) = set (freed (remember_freed v s))" "distinct (freed (remember_freed v s))"
    "set (freed (remember_freed v s)) = set (freed s) \<union> ({v} - reserved s)"
  using assms by (auto simp: remember_freed_def)

lemma map_of_filter_holder:
  "distinct (map fst es) \<Longrightarrow> map_of (filter (\<lambda>(holder, held). \<not> (held = v \<and> holder \<noteq> key)) es) =
    (\<lambda>k. if map_of es k = Some v \<and> k \<noteq> key then None else map_of es k)"
proof (induction es)
  case (Cons e es)
  obtain k0 v0 where e: "e = (k0, v0)" by (cases e)
  have "map_of es k0 = None" using Cons.prems e by (simp add: map_of_eq_None_iff)
  moreover have "map_of (filter (\<lambda>(holder, held). \<not> (held = v \<and> holder \<noteq> key)) es) =
      (\<lambda>k. if map_of es k = Some v \<and> k \<noteq> key then None else map_of es k)" using Cons by simp
  ultimately show ?case by (simp add: e fun_eq_iff)
qed simp

lemma take_fixed_map:
  assumes "distinct (map fst (user_allocations s))" and "unique_leases (lease_map s)"
  shows "lease_map (take_fixed key v s) = spec_take key v (lease_map s)"
proof (cases "map_of (user_allocations s) key = Some v")
  case True
  then have "spec_take key v (lease_map s) = lease_map s"
    using assms(2) unfolding spec_take_def unique_leases_def lease_map_def by (intro ext) auto
  then show ?thesis using True by (simp add: take_fixed_def)
next
  case False
  have "map_of (filter (\<lambda>(holder, held). \<not> (held = v \<and> holder \<noteq> key)) (user_allocations s)) =
      (\<lambda>k. if lease_map s k = Some v \<and> k \<noteq> key then None else lease_map s k)"
    unfolding lease_map_def by (rule map_of_filter_holder [OF assms(1)])
  then show ?thesis using False
    by (auto simp: take_fixed_def Let_def lease_map_def assign_lease_def update_conv' spec_take_def split: option.splits)
qed

lemma take_fixed_spec: "lease_inv U s \<Longrightarrow> lease_map (take_fixed key v s) = spec_take key v (lease_map s)"
  by (rule take_fixed_map) (simp_all add: lease_inv_def)

lemma distinct_filter_fst: "distinct (map fst es) \<Longrightarrow> distinct (map fst (filter P es))"
  by (simp add: distinct_map_filter)

lemma take_fixed_inv:
  assumes inv: "lease_inv U s" and v: "U v"
  shows "lease_inv U (take_fixed key v s)"
proof (cases "map_of (user_allocations s) key = Some v")
  case True
  then show ?thesis using inv by (simp add: take_fixed_def)
next
  case False
  have d: "distinct (map fst (user_allocations s))" and u: "unique_leases (lease_map s)" and al: "allocated s = ran (lease_map s)"
    using inv by (simp_all add: lease_inv_def)
  note map = take_fixed_map [OF d u, of key v]
  have alloc: "allocated (take_fixed key v s) = ran (lease_map (take_fixed key v s))"
    unfolding map ran_spec_take [OF u] using False al
    by (auto simp: take_fixed_def Let_def lease_map_def split: option.splits)
  have "distinct (map fst (user_allocations (take_fixed key v s)))"
    using d False by (auto simp: take_fixed_def Let_def assign_lease_def distinct_update distinct_filter_fst split: option.splits)
  moreover have "freed_set (take_fixed key v s) = set (freed (take_fixed key v s)) \<and> distinct (freed (take_fixed key v s)) \<and>
      (\<forall>w. w \<in> set (freed (take_fixed key v s)) \<longrightarrow> U w \<and> w \<notin> reserved (take_fixed key v s))"
  proof (cases "map_of (user_allocations s) key")
    case None
    then show ?thesis using inv by (simp add: take_fixed_def Let_def lease_inv_def)
  next
    case (Some w)
    then have "w \<in> allocated s" using al by (simp add: lease_map_def ranI)
    then have "U w" using inv by (simp add: lease_inv_def)
    then show ?thesis using Some False inv remember_freed_books [of "s\<lparr>allocated := allocated s - {w}\<rparr>" w]
      by (auto simp: take_fixed_def Let_def lease_inv_def)
  qed
  moreover have "(\<forall>k w. (k, w) \<in> set (static_res (take_fixed key v s)) \<longrightarrow> U w \<and> w \<in> reserved (take_fixed key v s))"
    using inv False by (auto simp: take_fixed_def Let_def lease_inv_def split: option.splits)
  moreover have "w \<in> allocated (take_fixed key v s) \<Longrightarrow> U w" for w
    using inv v False by (auto simp: take_fixed_def Let_def lease_inv_def split: option.splits)
  ultimately show ?thesis using alloc map spec_take_unique [OF u] unfolding lease_inv_def by auto
qed

section \<open>What the operations keep\<close>

text \<open>The plan stays, and no address that was leased or on the stack is lost.\<close>

definition keeps :: "('a, 'z) Leases_scheme \<Rightarrow> ('a, 'z) Leases_scheme \<Rightarrow> bool" where
  "keeps s s' \<longleftrightarrow> same_plan s s' \<and> (\<forall>v. v \<notin> reserved s \<longrightarrow> v \<in> allocated s \<or> v \<in> set (freed s) \<longrightarrow> v \<in> allocated s' \<or> v \<in> set (freed s'))"

lemma keeps_cover: "keeps s s' \<Longrightarrow> lease_cover U W s \<Longrightarrow> lease_cover U W s'"
  by (auto simp: keeps_def lease_cover_def same_plan_def)

lemma take_fixed_keeps:
  assumes "lease_inv U s"
  shows "keeps s (take_fixed key v s) \<and> Leases.more (take_fixed key v s) = Leases.more s"
proof (cases "map_of (user_allocations s) key")
  case None
  then show ?thesis by (simp add: take_fixed_def keeps_def same_plan_def Let_def)
next
  case (Some w)
  have "set (freed (remember_freed w (s\<lparr>allocated := allocated s - {w}\<rparr>))) = set (freed s) \<union> ({w} - reserved s)"
    using remember_freed_books(3) [of "s\<lparr>allocated := allocated s - {w}\<rparr>" w] assms by (simp add: lease_inv_def)
  then show ?thesis using Some by (auto simp: take_fixed_def keeps_def same_plan_def Let_def)
qed

lemma release_map: "lease_map (release_lease key s) = (lease_map s)(key := None)"
  by (auto simp: release_lease_def lease_map_def AList.delete_conv' split: option.splits)

lemma release_keeps:
  assumes "lease_inv U s"
  shows "keeps s (release_lease key s) \<and> Leases.more (release_lease key s) = Leases.more s"
proof (cases "map_of (user_allocations s) key")
  case None
  then show ?thesis by (simp add: release_lease_def keeps_def same_plan_def)
next
  case (Some w)
  let ?s = "s\<lparr>user_allocations := AList.delete key (user_allocations s), allocated := allocated s - {w}\<rparr>"
  have "set (freed (remember_freed w ?s)) = set (freed s) \<union> ({w} - reserved s)"
    using remember_freed_books(3) [of ?s w] assms by (simp add: lease_inv_def)
  then show ?thesis using Some by (auto simp: release_lease_def keeps_def same_plan_def)
qed

lemma release_inv:
  assumes inv: "lease_inv U s"
  shows "lease_inv U (release_lease key s)"
proof (cases "map_of (user_allocations s) key")
  case None
  then show ?thesis using inv by (simp add: release_lease_def)
next
  case (Some w)
  let ?s = "s\<lparr>user_allocations := AList.delete key (user_allocations s), allocated := allocated s - {w}\<rparr>"
  have u: "unique_leases (lease_map s)" and al: "allocated s = ran (lease_map s)" using inv by (simp_all add: lease_inv_def)
  have "w \<in> allocated s" using al Some by (simp add: lease_map_def ranI)
  then have w: "U w" using inv by (simp add: lease_inv_def)
  note books = remember_freed_books [of ?s w]
  have s': "release_lease key s = remember_freed w ?s" using Some by (simp add: release_lease_def)
  have m: "lease_map (remember_freed w ?s) = (lease_map s)(key := None)" using release_map [of key s] s' by simp
  have "allocated (remember_freed w ?s) = ran (lease_map (remember_freed w ?s))"
    unfolding m ran_release [OF u] using Some al by (simp add: lease_map_def)
  moreover have "distinct (map fst (user_allocations (remember_freed w ?s)))" using inv by (simp add: lease_inv_def distinct_delete)
  moreover have "unique_leases (lease_map (remember_freed w ?s))" unfolding m by (rule unique_release [OF u])
  ultimately show ?thesis using inv books w unfolding s' lease_inv_def by simp
qed

lemma assign_inv:
  assumes inv: "lease_inv U s" and v: "U v" "v \<notin> allocated s" and none: "lease_map s key = None"
  shows "lease_inv U (assign_lease key v s)"
proof -
  have u: "unique_leases (lease_map s)" and al: "allocated s = ran (lease_map s)" using inv by (simp_all add: lease_inv_def)
  have m: "(lease_map s)(key \<mapsto> v) = spec_take key v (lease_map s)" using spec_take_free [of v "lease_map s" key] v(2) al by simp
  have "distinct (map fst (user_allocations (assign_lease key v s)))" using inv by (simp add: lease_inv_def assign_lease_def distinct_update)
  moreover have "unique_leases (spec_take key v (lease_map s))" by (rule spec_take_unique [OF u])
  moreover have "insert v (allocated s) = ran (spec_take key v (lease_map s))" using ran_spec_take [OF u, of key v] none al by simp
  moreover have "w \<in> ran (spec_take key v (lease_map s)) \<Longrightarrow> U w" for w
    using ran_spec_take [OF u, of key v] none al inv v(1) by (auto simp: lease_inv_def)
  ultimately show ?thesis using inv v(1) unfolding lease_inv_def by (simp add: m)
qed

lemma assign_keeps: "keeps s (assign_lease key v s)"
  by (auto simp: keeps_def same_plan_def)

section \<open>The released addresses\<close>

lemma pop_freed_list_None:
  "pop_freed_list ok vs F = (None, vs', F') \<Longrightarrow> vs' = [] \<and> F' = F - set vs \<and> (\<forall>v. v \<in> set vs \<longrightarrow> \<not> ok v)"
  by (induction ok vs F rule: pop_freed_list.induct) (auto split: if_splits)

lemma pop_freed_list_Some:
  "pop_freed_list ok vs F = (Some v, vs', F') \<Longrightarrow>
    \<exists>pre. vs = pre @ v # vs' \<and> ok v \<and> (\<forall>x. x \<in> set pre \<longrightarrow> \<not> ok x) \<and> F' = F - set pre - {v}"
proof (induction ok vs F rule: pop_freed_list.induct)
  case (2 ok w vs F)
  show ?case
  proof (cases "ok w")
    case True
    then show ?thesis using 2(2) by (intro exI [of _ "[]"]) auto
  next
    case False
    then obtain pre where "vs = pre @ v # vs'" "ok v" "\<forall>x. x \<in> set pre \<longrightarrow> \<not> ok x" "F' = (F - {w}) - set pre - {v}"
      using 2 by auto
    then show ?thesis using False by (intro exI [of _ "w # pre"]) auto
  qed
qed simp

text \<open>\<open>ok\<close> is true of the addresses that are not leased, among those the pool may hand out.\<close>

lemma pop_freed_Some:
  assumes inv: "lease_inv U s" and none: "lease_map s key = None"
    and ok: "\<And>x. U x \<Longrightarrow> x \<notin> reserved s \<Longrightarrow> ok x \<longleftrightarrow> x \<notin> allocated s" and pop: "pop_freed ok key s = (Some v, s')"
  shows "U v \<and> v \<notin> reserved s \<and> v \<notin> allocated s \<and> lease_inv U s' \<and> keeps s s' \<and> Leases.more s' = Leases.more s \<and>
    lease_map s' = (lease_map s)(key \<mapsto> v)"
proof -
  obtain vs F where l: "pop_freed_list ok (freed s) (freed_set s) = (Some v, vs, F)" and s': "s' = assign_lease key v (s\<lparr>freed := vs, freed_set := F\<rparr>)"
    using pop by (auto simp: pop_freed_def split: prod.splits option.splits)
  obtain pre where pre: "freed s = pre @ v # vs" "ok v" "\<And>x. x \<in> set pre \<Longrightarrow> \<not> ok x" "F = freed_set s - set pre - {v}"
    using pop_freed_list_Some [OF l] by blast
  have fr: "U x \<and> x \<notin> reserved s" if "x \<in> set (freed s)" for x using inv that by (simp add: lease_inv_def)
  then have v: "U v" "v \<notin> reserved s" "v \<notin> allocated s" using ok [of v] pre(1,2) by simp_all
  have gone: "x \<in> allocated s" if "x \<in> set pre" for x using ok [of x] fr [of x] pre(1,3) that by auto
  let ?s1 = "s\<lparr>freed := vs, freed_set := F\<rparr>"
  have lm: "lease_map ?s1 = lease_map s" by (simp add: lease_map_def)
  have inv1: "lease_inv U ?s1" using inv pre(1,4) unfolding lease_inv_def lm by auto
  have "keeps s s'" unfolding keeps_def same_plan_def s' using pre(1) gone by auto
  moreover have "lease_inv U s'" unfolding s' by (rule assign_inv [OF inv1]) (use v none lm in simp_all)
  ultimately show ?thesis using v s' by (simp add: lm)
qed

lemma pop_freed_None:
  assumes inv: "lease_inv U s" and ok: "\<And>x. U x \<Longrightarrow> x \<notin> reserved s \<Longrightarrow> ok x \<longleftrightarrow> x \<notin> allocated s" and pop: "pop_freed ok key s = (None, s')"
  shows "freed s' = [] \<and> lease_inv U s' \<and> keeps s s' \<and> Leases.more s' = Leases.more s \<and> lease_map s' = lease_map s \<and> allocated s' = allocated s"
proof -
  obtain vs F where l: "pop_freed_list ok (freed s) (freed_set s) = (None, vs, F)" and s': "s' = s\<lparr>freed := vs, freed_set := F\<rparr>"
    using pop by (auto simp: pop_freed_def split: prod.splits option.splits)
  note n = pop_freed_list_None [OF l]
  have fr: "U x \<and> x \<notin> reserved s" if "x \<in> set (freed s)" for x using inv that by (simp add: lease_inv_def)
  have gone: "x \<in> allocated s" if "x \<in> set (freed s)" for x using ok [of x] fr [of x] n that by auto
  have lm: "lease_map s' = lease_map s" by (simp add: lease_map_def s')
  have "lease_inv U s'" using inv n unfolding lease_inv_def lm by (simp add: s')
  moreover have "keeps s s'" unfolding keeps_def same_plan_def s' using gone by auto
  ultimately show ?thesis using n lm by (simp add: s')
qed

section \<open>The IPv4 walk\<close>

definition pool4_inv :: "IpPool \<Rightarrow> bool" where
  "pool4_inv s \<longleftrightarrow> lease_inv (usable4 s) s \<and> lease_cover (usable4 s) (\<lambda>v. unat v < unat (cursor s)) s \<and> unat (start_ip s) \<le> unat (cursor s)"

lemma usable4_iff: "usable4 s v \<longleftrightarrow> start_ip s \<le> v \<and> v \<le> end_ip s \<and> v \<notin> excluded s"
  by (auto simp: usable4_def word_less_nat_alt word_le_nat_alt unat_u32_u64)

lemma more4:
  assumes "Leases.more s' = Leases.more s"
  shows "start_ip s' = start_ip s" "end_ip s' = end_ip s" "cursor s' = cursor s" "ipv6 s' = ipv6 s"
  using assms by (cases s; cases s'; simp)+

lemma usable4_cong: "same_plan s s' \<Longrightarrow> start_ip s' = start_ip s \<Longrightarrow> end_ip s' = end_ip s \<Longrightarrow> usable4 s' = usable4 s"
  by (simp add: fun_eq_iff usable4_iff same_plan_def)

lemma not_taken_iff: "usable4 s x \<Longrightarrow> x \<notin> reserved s \<Longrightarrow> not_taken s x \<longleftrightarrow> x \<notin> allocated s"
  by (simp add: not_taken_def usable4_iff)

text \<open>An operation on the books alone keeps the invariant of the pool.\<close>

lemma pool4_inv_keeps:
  assumes "pool4_inv s" and "keeps s s'" and "Leases.more s' = Leases.more s" and "lease_inv (usable4 s) s'"
  shows "pool4_inv s' \<and> usable4 s' = usable4 s"
proof -
  have u: "usable4 s' = usable4 s" using assms(2) more4 [OF assms(3)] by (intro usable4_cong) (simp_all add: keeps_def)
  show ?thesis
    using assms keeps_cover [OF assms(2)] more4 [OF assms(3)] unfolding pool4_inv_def u by simp
qed

lemma lease_inv_cursor [simp]: "lease_inv U (s\<lparr>cursor := c\<rparr>) = lease_inv U s" "lease_map (s\<lparr>cursor := c\<rparr>) = lease_map s"
  "usable4 (s\<lparr>cursor := c\<rparr>) = usable4 s" "lease_cover U W (s\<lparr>cursor := c\<rparr>) = lease_cover U W s"
  "same_plan s0 (s\<lparr>cursor := c\<rparr>) = same_plan s0 s"
  by (simp_all add: lease_inv_def lease_map_def fun_eq_iff usable4_iff lease_cover_def same_plan_def)

lemma usable4_assign [simp]: "usable4 (assign_lease key v s) = usable4 s"
  by (simp add: fun_eq_iff usable4_iff assign_lease_def)

lemma walk4_fields [simp]:
  "start_ip (assign_lease key v s) = start_ip s" "end_ip (assign_lease key v s) = end_ip s" "cursor (assign_lease key v s) = cursor s"
  "ipv6 (assign_lease key v s) = ipv6 s"
  by (simp_all add: assign_lease_def)

lemma walk4_result:
  assumes "pool4_inv s" and "lease_map s key = None" and "walk4 key s = (r, s')"
  shows "pool4_inv s' \<and> same_plan s s' \<and> start_ip s' = start_ip s \<and> end_ip s' = end_ip s \<and> ipv6 s' = ipv6 s \<and>
    (case r of Some v \<Rightarrow> usable4 s v \<and> v \<notin> reserved s \<and> v \<notin> allocated s \<and> lease_map s' = (lease_map s)(key \<mapsto> v)
             | None \<Rightarrow> lease_map s' = lease_map s \<and> allocated s' = allocated s \<and> freed s' = freed s \<and> (\<forall>v. usable4 s v \<longrightarrow> unat v < unat (cursor s')))"
  using assms
proof (induction key s rule: walk4.induct)
  case (1 key s)
  show ?case
  proof (cases "cursor s \<le> ucast (end_ip s)")
    case False
    then have "walk4 key s = (None, s)" by (subst walk4.simps) simp
    moreover have "unat v < unat (cursor s)" if "usable4 s v" for v
      using that False by (simp add: usable4_iff word_le_nat_alt unat_u32_u64)
    ultimately show ?thesis using 1(2,4) by (simp add: same_plan_def)
  next
    case True
    let ?v = "ucast (cursor s) :: u32" and ?s1 = "s\<lparr>cursor := cursor s + 1\<rparr>"
    have inc: "unat (cursor s + 1) = Suc (unat (cursor s))" by (rule unat_inc(1) [OF cursor_not_max [OF True]])
    have le: "unat (cursor s) \<le> unat (end_ip s)" using True by (simp add: word_le_nat_alt unat_u32_u64)
    then have small: "unat (cursor s) < 4294967296" using unat_u32_less [of "end_ip s"] by linarith
    have v: "unat ?v = unat (cursor s)" using small by (simp add: unsigned_ucast_eq take_bit_nat_eq_self_iff)
    have start: "unat (start_ip s) \<le> unat (cursor s)" using 1(2) by (simp add: pool4_inv_def)
    have passed: "unat x < Suc (unat (cursor s)) \<longleftrightarrow> unat x < unat (cursor s) \<or> x = ?v" for x :: u32
      using v by (auto simp: less_Suc_eq word_unat_eq_iff)
    have cover: "lease_cover (usable4 s) (\<lambda>x. unat x < unat (cursor s)) s" and inv: "lease_inv (usable4 s) s"
      using 1(2) by (simp_all add: pool4_inv_def)
    show ?thesis
    proof (cases "not_taken ?s1 ?v")
      case taken: True
      then have eq: "walk4 key s = (Some ?v, assign_lease key ?v ?s1)" using True by (subst walk4.simps) (simp add: Let_def)
      have free: "?v \<notin> reserved s" "?v \<notin> allocated s" "?v \<notin> excluded s" using taken by (simp_all add: not_taken_def)
      have us: "usable4 s ?v" using start le v free by (simp add: usable4_iff word_le_nat_alt)
      have "lease_inv (usable4 s) (assign_lease key ?v ?s1)"
        by (rule assign_inv) (use inv us free 1(3) in simp_all)
      moreover have "lease_cover (usable4 s) (\<lambda>x. unat x < Suc (unat (cursor s))) (assign_lease key ?v ?s1)"
        using cover unfolding lease_cover_def passed by auto
      ultimately show ?thesis using 1(4) eq us free start inc by (auto simp: pool4_inv_def same_plan_def)
    next
      case skip: False
      then have eq: "walk4 key s = walk4 key ?s1" using True by (subst walk4.simps) (simp add: Let_def)
      have gone: "usable4 s ?v \<Longrightarrow> ?v \<in> reserved s \<or> ?v \<in> allocated s" using skip by (auto simp: not_taken_def usable4_iff)
      have "lease_cover (usable4 s) (\<lambda>x. unat x < Suc (unat (cursor s))) s"
        using cover gone unfolding lease_cover_def passed by auto
      then have "pool4_inv ?s1" using inv start inc by (simp add: pool4_inv_def)
      from 1(1) [OF True refl refl skip this] show ?thesis using 1(3,4) eq by (simp add: same_plan_def split: option.splits)
    qed
  qed
qed

section \<open>The IPv6 walk\<close>

fun before6 :: "u128 option \<Rightarrow> u128 \<Rightarrow> bool" where
  "before6 None v \<longleftrightarrow> True"
| "before6 (Some c) v \<longleftrightarrow> v < c"

definition pool6_inv :: "Ipv6Pool \<Rightarrow> bool" where
  "pool6_inv s \<longleftrightarrow> lease_inv (usable6 s) s \<and> lease_cover (usable6 s) (before6 (cursor6 s)) s"

lemma usable6_iff: "usable6 s v \<longleftrightarrow> network6 s < v \<and> v \<le> end6 s \<and> v \<notin> excluded s"
  by (auto simp: usable6_def)

lemma more6:
  assumes "Leases.more s' = Leases.more s"
  shows "network6 s' = network6 s" "prefix6 s' = prefix6 s" "end6 s' = end6 s" "cursor6 s' = cursor6 s"
  using assms by (cases s; cases s'; simp)+

lemma usable6_cong: "same_plan s s' \<Longrightarrow> network6 s' = network6 s \<Longrightarrow> end6 s' = end6 s \<Longrightarrow> usable6 s' = usable6 s"
  by (simp add: fun_eq_iff usable6_iff same_plan_def)

lemma assignable6_iff: "assignable6 s x \<longleftrightarrow> usable6 s x \<and> x \<notin> reserved s \<and> x \<notin> allocated s"
  by (auto simp: assignable6_def usable6_def)

lemma pool6_inv_keeps:
  assumes "pool6_inv s" and "keeps s s'" and "Leases.more s' = Leases.more s" and "lease_inv (usable6 s) s'"
  shows "pool6_inv s' \<and> usable6 s' = usable6 s"
proof -
  have u: "usable6 s' = usable6 s" using assms(2) more6 [OF assms(3)] by (intro usable6_cong) (simp_all add: keeps_def)
  show ?thesis
    using assms keeps_cover [OF assms(2)] more6 [OF assms(3)] unfolding pool6_inv_def u by simp
qed

lemma lease_inv_cursor6 [simp]: "lease_inv U (s\<lparr>cursor6 := c\<rparr>) = lease_inv U s" "lease_map (s\<lparr>cursor6 := c\<rparr>) = lease_map s"
  "usable6 (s\<lparr>cursor6 := c\<rparr>) = usable6 s" "lease_cover U W (s\<lparr>cursor6 := c\<rparr>) = lease_cover U W s"
  "same_plan s0 (s\<lparr>cursor6 := c\<rparr>) = same_plan s0 s"
  by (simp_all add: lease_inv_def lease_map_def fun_eq_iff usable6_iff lease_cover_def same_plan_def)

lemma usable6_assign [simp]: "usable6 (assign_lease key v s) = usable6 s"
  by (simp add: fun_eq_iff usable6_iff assign_lease_def)

lemma walk6_fields [simp]:
  "network6 (assign_lease key v s) = network6 s" "end6 (assign_lease key v s) = end6 s" "cursor6 (assign_lease key v s) = cursor6 s"
  "prefix6 (assign_lease key v s) = prefix6 s"
  by (simp_all add: assign_lease_def)

lemma less_inc: "(v :: 'a::len word) \<noteq> - 1 \<Longrightarrow> x < v + 1 \<longleftrightarrow> x < v \<or> x = v"
  by (auto simp: word_less_nat_alt unat_inc less_Suc_eq word_unat_eq_iff)

lemma walk6_result:
  assumes "pool6_inv s" and "lease_map s key = None" and "walk6 key s = (r, s')"
  shows "pool6_inv s' \<and> same_plan s s' \<and> network6 s' = network6 s \<and> end6 s' = end6 s \<and> prefix6 s' = prefix6 s \<and>
    (case r of Some v \<Rightarrow> usable6 s v \<and> v \<notin> reserved s \<and> v \<notin> allocated s \<and> lease_map s' = (lease_map s)(key \<mapsto> v)
             | None \<Rightarrow> lease_map s' = lease_map s \<and> allocated s' = allocated s \<and> freed s' = freed s \<and> cursor6 s' = None)"
  using assms
proof (induction key s rule: walk6.induct)
  case (1 key s)
  show ?case
  proof (cases "cursor6 s")
    case None
    then have "walk6 key s = (None, s)" by (subst walk6.simps) simp
    then show ?thesis using 1(2,4) None by (simp add: same_plan_def)
  next
    case (Some v)
    let ?c = "if v = end6 s \<or> v = - 1 then None else Some (v + 1)"
    let ?s1 = "s\<lparr>cursor6 := ?c\<rparr>"
    have cover: "lease_cover (usable6 s) (before6 (Some v)) s" and inv: "lease_inv (usable6 s) s"
      using 1(2) Some by (simp_all add: pool6_inv_def)
    have passed: "before6 ?c x \<longleftrightarrow> x < v \<or> x = v" if "usable6 s x" for x
      using that by (auto simp: usable6_iff less_inc word_order.not_eq_extremum)
    show ?thesis
    proof (cases "assignable6 ?s1 v")
      case True
      then have eq: "walk6 key s = (Some v, assign_lease key v ?s1)" using Some by (subst walk6.simps) (simp add: Let_def)
      have free: "usable6 s v" "v \<notin> reserved s" "v \<notin> allocated s" using True by (simp_all add: assignable6_iff)
      have "lease_inv (usable6 s) (assign_lease key v ?s1)"
        by (rule assign_inv) (use inv free 1(3) in simp_all)
      moreover have "lease_cover (usable6 s) (before6 ?c) (assign_lease key v ?s1)"
        using cover passed unfolding lease_cover_def by auto
      ultimately show ?thesis using 1(4) eq free by (auto simp: pool6_inv_def same_plan_def)
    next
      case False
      then have eq: "walk6 key s = walk6 key ?s1" using Some by (subst walk6.simps) (simp add: Let_def)
      have gone: "usable6 s v \<Longrightarrow> v \<in> reserved s \<or> v \<in> allocated s" using False by (auto simp: assignable6_iff)
      have "lease_cover (usable6 s) (before6 ?c) s"
        using cover gone passed unfolding lease_cover_def by auto
      then have "pool6_inv ?s1" using inv by (simp add: pool6_inv_def)
      from 1(1) [OF Some refl False this] show ?thesis using 1(3,4) eq by (simp add: same_plan_def split: option.splits)
    qed
  qed
qed

section \<open>The interface of a pool\<close>

text \<open>
  What no operation changes: the addresses that may be leased, those held back for reservations, and the reservation of a key.
\<close>

record 'a Plan =
  may_lease :: "'a \<Rightarrow> bool"
  withheld :: "'a set"
  reserved_for :: "string \<rightharpoonup> 'a"

text \<open>\<open>frame\<close> stands for the part of the state another component owns.\<close>

locale address_pool =
  fixes inv :: "'p \<Rightarrow> bool" and leases :: "'p \<Rightarrow> string \<rightharpoonup> 'a" and plan :: "'p \<Rightarrow> 'a Plan" and frame :: "'p \<Rightarrow> 'f"
    and alloc :: "string \<Rightarrow> 'p \<Rightarrow> 'a option \<times> 'p" and alloc_fixed :: "string \<Rightarrow> 'a \<Rightarrow> 'p \<Rightarrow> 'a option \<times> 'p" and rel :: "string \<Rightarrow> 'p \<Rightarrow> 'p"
  assumes unique: "inv p \<Longrightarrow> unique_leases (leases p)"
    and leased: "inv p \<Longrightarrow> leases p k = Some a \<Longrightarrow> may_lease (plan p) a"
    and planned: "inv p \<Longrightarrow> reserved_for (plan p) k = Some a \<Longrightarrow> may_lease (plan p) a \<and> a \<in> withheld (plan p)"
    and alloc_same: "inv p \<Longrightarrow> leases p k = Some a \<Longrightarrow> alloc k p = (Some a, p)"
    and alloc_static: "inv p \<Longrightarrow> leases p k = None \<Longrightarrow> reserved_for (plan p) k = Some a \<Longrightarrow> alloc k p = alloc_fixed k a p"
    and alloc_dynamic: "inv p \<Longrightarrow> leases p k = None \<Longrightarrow> reserved_for (plan p) k = None \<Longrightarrow> alloc k p = (r, p') \<Longrightarrow>
      inv p' \<and> plan p' = plan p \<and> frame p' = frame p \<and>
      (case r of Some a \<Rightarrow> may_lease (plan p) a \<and> a \<notin> withheld (plan p) \<and> a \<notin> ran (leases p) \<and> leases p' = (leases p)(k \<mapsto> a)
               | None \<Rightarrow> leases p' = leases p \<and> (\<forall>a. may_lease (plan p) a \<longrightarrow> a \<in> withheld (plan p) \<or> a \<in> ran (leases p)))"
    and fixed_ok: "inv p \<Longrightarrow> may_lease (plan p) a \<Longrightarrow> alloc_fixed k a p = (r, p') \<Longrightarrow>
      r = Some a \<and> inv p' \<and> plan p' = plan p \<and> frame p' = frame p \<and> leases p' = spec_take k a (leases p)"
    and fixed_refused: "\<not> may_lease (plan p) a \<Longrightarrow> alloc_fixed k a p = (None, p)"
    and released: "inv p \<Longrightarrow> inv (rel k p) \<and> plan (rel k p) = plan p \<and> frame (rel k p) = frame p \<and> leases (rel k p) = (leases p)(k := None)"
begin

text \<open>Any allocation: the books follow the map of leases.\<close>

lemma spec_take_same: "inv p \<Longrightarrow> leases p k = Some a \<Longrightarrow> spec_take k a (leases p) = leases p"
  using unique [of p] by (auto simp: fun_eq_iff spec_take_def unique_leases_def)

lemma alloc_spec:
  assumes "inv p" and "alloc k p = (r, p')"
  shows "inv p' \<and> plan p' = plan p \<and> frame p' = frame p \<and>
    (case r of Some a \<Rightarrow> may_lease (plan p) a \<and> leases p' = spec_take k a (leases p) | None \<Rightarrow> leases p' = leases p \<and> leases p k = None)"
proof (cases "leases p k")
  case (Some a)
  then have "r = Some a" "p' = p" using alloc_same [OF assms(1) Some] assms(2) by simp_all
  then show ?thesis using assms(1) leased [OF assms(1) Some] spec_take_same [OF assms(1) Some] by simp
next
  case None
  show ?thesis
  proof (cases "reserved_for (plan p) k")
    case (Some a)
    then show ?thesis using assms None alloc_static fixed_ok [OF assms(1)] planned [OF assms(1) Some] by fastforce
  next
    case res: None
    show ?thesis using alloc_dynamic [OF assms(1) None res assms(2)] None by (auto simp: spec_take_free split: option.splits)
  qed
qed

lemma fixed_spec:
  assumes "inv p" and "alloc_fixed k a p = (r, p')"
  shows "inv p' \<and> plan p' = plan p \<and> frame p' = frame p \<and>
    (if may_lease (plan p) a then r = Some a \<and> leases p' = spec_take k a (leases p) else r = None \<and> p' = p)"
  using assms fixed_ok [OF assms(1)] fixed_refused [of p a k] by (cases "may_lease (plan p) a") auto

text \<open>Exhaustion is genuine.\<close>

lemma alloc_succeeds_iff:
  assumes "inv p"
  shows "fst (alloc k p) \<noteq> None \<longleftrightarrow> leases p k \<noteq> None \<or> reserved_for (plan p) k \<noteq> None \<or>
    (\<exists>a. may_lease (plan p) a \<and> a \<notin> withheld (plan p) \<and> a \<notin> ran (leases p))"
proof -
  obtain r p' where e: "alloc k p = (r, p')" by (cases "alloc k p")
  consider (held) a where "leases p k = Some a" | (static) a where "leases p k = None" "reserved_for (plan p) k = Some a"
    | (dynamic) "leases p k = None" "reserved_for (plan p) k = None" by fastforce
  then show ?thesis
  proof cases
    case held
    then show ?thesis using alloc_same [OF assms] by simp
  next
    case static
    then have "r = Some a" using alloc_static [OF assms static] planned [OF assms static(2)] fixed_ok [OF assms, of a k r p'] e by simp
    then have "fst (alloc k p) = Some a" using e by simp
    then show ?thesis using static by simp
  next
    case dynamic
    then show ?thesis using alloc_dynamic [OF assms dynamic e] e by (cases r) auto
  qed
qed

text \<open>What a key is given without a claim of its own was free: nobody else loses an address.\<close>

lemma alloc_free:
  assumes "inv p" and "leases p k = None" and "reserved_for (plan p) k = None" and "alloc k p = (Some a, p')"
  shows "a \<notin> withheld (plan p) \<and> a \<notin> ran (leases p) \<and> leases p' = (leases p)(k \<mapsto> a)"
  using alloc_dynamic [OF assms] by simp

lemma alloc_again: "inv p \<Longrightarrow> alloc k p = (Some a, p') \<Longrightarrow> alloc k p' = (Some a, p')"
  using alloc_spec [of p k "Some a" p'] alloc_same [of p' k a] by (simp add: spec_take_def)

lemma realloc_after_release:
  assumes "inv p" and "leases p k = Some a" and "reserved_for (plan p) j = None" and "leases (rel k p) j = None" and "a \<notin> withheld (plan p)"
  shows "fst (alloc j (rel k p)) \<noteq> None"
proof -
  have "a \<notin> ran ((leases p)(k := None))" using unique [OF assms(1)] assms(2) by (auto simp: ran_def unique_leases_def split: if_splits)
  then have "\<exists>a. may_lease (plan (rel k p)) a \<and> a \<notin> withheld (plan (rel k p)) \<and> a \<notin> ran (leases (rel k p))"
    using released [OF assms(1), of k] leased [OF assms(1,2)] assms(5) by auto
  then show ?thesis using alloc_succeeds_iff released [OF assms(1)] by simp
qed

end

end
