(* ===== verification/Pool_Laws.thy ===== *)
theory Pool_Laws
  imports Pool_Leases
begin

text \<open>
  Both pools meet the interface \<open>address_pool\<close>, and what follows for the server: no address is ever leased twice, exhaustion
  is genuine, a window is respected, and an allocation for a mode is all or nothing.
\<close>

section \<open>The IPv4 pool meets the interface\<close>

definition plan4 :: "IpPool \<Rightarrow> u32 Plan" where
  "plan4 s = \<lparr>may_lease = usable4 s, withheld = reserved s, reserved_for = map_of (static_res s)\<rparr>"

lemma find_holder: "find (\<lambda>(u, _). u = key) xs = map_option (\<lambda>v. (key, v)) (map_of xs key)"
  by (induction xs) auto

lemma inv_books: "pool4_inv s \<Longrightarrow> lease_inv (usable4 s) s"
  by (simp add: pool4_inv_def)

lemma keeps4: "pool4_inv s \<Longrightarrow> keeps s s' \<Longrightarrow> Leases.more s' = Leases.more s \<Longrightarrow> lease_inv (usable4 s) s' \<Longrightarrow>
    pool4_inv s' \<and> plan4 s' = plan4 s \<and> ipv6 s' = ipv6 s"
  using pool4_inv_keeps [of s s'] more4 [of s' s] by (simp add: plan4_def keeps_def same_plan_def)

lemma allocate_cases:
  assumes "lease_map s key = None" and "map_of (static_res s) key = None"
  shows "allocate key s = (case pop_freed (not_taken s) key s of (Some v, s1) \<Rightarrow> (Some v, s1) | (None, s1) \<Rightarrow> walk4 key s1)"
  using assms by (simp add: allocate_def lease_map_def find_holder)

lemma allocate_dynamic:
  assumes inv: "pool4_inv s" and none: "lease_map s key = None" "map_of (static_res s) key = None" and a: "allocate key s = (r, s')"
  shows "pool4_inv s' \<and> plan4 s' = plan4 s \<and> ipv6 s' = ipv6 s \<and>
    (case r of Some v \<Rightarrow> usable4 s v \<and> v \<notin> reserved s \<and> v \<notin> ran (lease_map s) \<and> lease_map s' = (lease_map s)(key \<mapsto> v)
             | None \<Rightarrow> lease_map s' = lease_map s \<and> (\<forall>v. usable4 s v \<longrightarrow> v \<in> reserved s \<or> v \<in> ran (lease_map s)))"
proof -
  have al: "allocated s = ran (lease_map s)" using inv_books [OF inv] by (simp add: lease_inv_def)
  obtain q s1 where pop: "pop_freed (not_taken s) key s = (q, s1)" by (cases "pop_freed (not_taken s) key s")
  show ?thesis
  proof (cases q)
    case (Some v)
    then have "r = Some v" "s' = s1" using a allocate_cases [OF none] pop by simp_all
    then show ?thesis
      using pop_freed_Some [OF inv_books [OF inv] none(1) not_taken_iff pop [unfolded Some]] keeps4 [OF inv, of s1] al by simp
  next
    case None
    note popped = pop_freed_None [OF inv_books [OF inv] not_taken_iff pop [unfolded None]]
    have s1: "pool4_inv s1" "plan4 s1 = plan4 s" "ipv6 s1 = ipv6 s" using keeps4 [OF inv, of s1] popped by simp_all
    have w: "walk4 key s1 = (r, s')" using a allocate_cases [OF none] pop None by simp
    note walked = walk4_result [OF s1(1) _ w]
    have plan: "plan4 s' = plan4 s" "usable4 s1 = usable4 s" "reserved s1 = reserved s"
      using walked s1(2) popped none(1) usable4_cong [of s1 s'] by (simp_all add: plan4_def same_plan_def)
    have "\<forall>v. usable4 s v \<longrightarrow> v \<in> reserved s \<or> v \<in> ran (lease_map s)" if "r = None"
    proof (intro allI impI)
      fix v
      assume v: "usable4 s v"
      have i: "pool4_inv s'" "freed s' = []" "allocated s' = allocated s" "unat v < unat (cursor s')" "usable4 s' v" "reserved s' = reserved s"
        using walked popped none(1) that v plan by (simp_all add: plan4_def)
      show "v \<in> reserved s \<or> v \<in> ran (lease_map s)" using i al unfolding pool4_inv_def lease_cover_def by auto
    qed
    then show ?thesis using walked popped none(1) s1 plan al by (cases r) simp_all
  qed
qed

lemma allocate_fixed_result:
  assumes inv: "pool4_inv s" and v: "usable4 s v"
  shows "pool4_inv (take_fixed key v s) \<and> plan4 (take_fixed key v s) = plan4 s \<and> ipv6 (take_fixed key v s) = ipv6 s \<and>
    lease_map (take_fixed key v s) = spec_take key v (lease_map s)"
  using keeps4 [OF inv] take_fixed_keeps [OF inv_books [OF inv]] take_fixed_inv [OF inv_books [OF inv] v] take_fixed_spec [OF inv_books [OF inv]] by simp

lemma release_ipv4_result:
  assumes inv: "pool4_inv s"
  shows "pool4_inv (release_ipv4 key s) \<and> plan4 (release_ipv4 key s) = plan4 s \<and> ipv6 (release_ipv4 key s) = ipv6 s \<and>
    lease_map (release_ipv4 key s) = (lease_map s)(key := None)"
  unfolding release_ipv4_def
  using keeps4 [OF inv] release_keeps [OF inv_books [OF inv]] release_inv [OF inv_books [OF inv]] by (simp add: release_map)

interpretation p4: address_pool pool4_inv lease_map plan4 ipv6 allocate allocate_fixed release_ipv4
proof unfold_locales
  fix p :: IpPool and k :: string and a
  show "pool4_inv p \<Longrightarrow> unique_leases (lease_map p)" using inv_books [of p] by (simp add: lease_inv_def)
  show "pool4_inv p \<Longrightarrow> lease_map p k = Some a \<Longrightarrow> may_lease (plan4 p) a" using inv_books [of p] by (auto simp: lease_inv_def plan4_def ranI)
  show "pool4_inv p \<Longrightarrow> reserved_for (plan4 p) k = Some a \<Longrightarrow> may_lease (plan4 p) a \<and> a \<in> withheld (plan4 p)"
    using inv_books [of p] by (auto simp: lease_inv_def plan4_def dest!: map_of_SomeD)
  show "lease_map p k = Some a \<Longrightarrow> allocate k p = (Some a, p)" by (simp add: allocate_def lease_map_def)
  show "lease_map p k = None \<Longrightarrow> reserved_for (plan4 p) k = Some a \<Longrightarrow> allocate k p = allocate_fixed k a p"
    by (simp add: allocate_def lease_map_def plan4_def find_holder)
  show "\<not> may_lease (plan4 p) a \<Longrightarrow> allocate_fixed k a p = (None, p)" by (simp add: allocate_fixed_def plan4_def)
next
  fix p k r p'
  assume "pool4_inv p" "lease_map p k = None" "reserved_for (plan4 p) k = None" "allocate k p = (r, p')"
  then show "pool4_inv p' \<and> plan4 p' = plan4 p \<and> ipv6 p' = ipv6 p \<and>
      (case r of None \<Rightarrow> lease_map p' = lease_map p \<and> (\<forall>a. may_lease (plan4 p) a \<longrightarrow> a \<in> withheld (plan4 p) \<or> a \<in> ran (lease_map p))
       | Some a \<Rightarrow> may_lease (plan4 p) a \<and> a \<notin> withheld (plan4 p) \<and> a \<notin> ran (lease_map p) \<and> lease_map p' = (lease_map p)(k \<mapsto> a))"
    using allocate_dynamic [of p k r p'] by (auto simp: plan4_def split: option.splits)
next
  fix p a k r p'
  assume "pool4_inv p" "may_lease (plan4 p) a" "allocate_fixed k a p = (r, p')"
  then show "r = Some a \<and> pool4_inv p' \<and> plan4 p' = plan4 p \<and> ipv6 p' = ipv6 p \<and> lease_map p' = spec_take k a (lease_map p)"
    using allocate_fixed_result [of p a k] by (auto simp: allocate_fixed_def plan4_def)
next
  fix p k
  assume "pool4_inv p"
  then show "pool4_inv (release_ipv4 k p) \<and> plan4 (release_ipv4 k p) = plan4 p \<and> ipv6 (release_ipv4 k p) = ipv6 p \<and>
      lease_map (release_ipv4 k p) = (lease_map p)(k := None)" by (rule release_ipv4_result)
qed

section \<open>The IPv6 pool meets the interface\<close>

definition plan6 :: "Ipv6Pool \<Rightarrow> u128 Plan" where
  "plan6 s = \<lparr>may_lease = usable6 s, withheld = reserved s, reserved_for = map_of (static_res s)\<rparr>"

lemma inv_books6: "pool6_inv s \<Longrightarrow> lease_inv (usable6 s) s"
  by (simp add: pool6_inv_def)

lemma keeps6: "pool6_inv s \<Longrightarrow> keeps s s' \<Longrightarrow> Leases.more s' = Leases.more s \<Longrightarrow> lease_inv (usable6 s) s' \<Longrightarrow>
    pool6_inv s' \<and> plan6 s' = plan6 s \<and> prefix6 s' = prefix6 s"
  using pool6_inv_keeps [of s s'] more6 [of s' s] by (simp add: plan6_def keeps_def same_plan_def)

lemma allocate6_cases:
  assumes "lease_map s key = None" and "map_of (static_res s) key = None"
  shows "allocate6 key s = (case pop_freed (assignable6 s) key s of (Some v, s1) \<Rightarrow> (Some v, s1) | (None, s1) \<Rightarrow> walk6 key s1)"
  using assms by (simp add: allocate6_def lease_map_def find_holder)

lemma allocate6_dynamic:
  assumes inv: "pool6_inv s" and none: "lease_map s key = None" "map_of (static_res s) key = None" and a: "allocate6 key s = (r, s')"
  shows "pool6_inv s' \<and> plan6 s' = plan6 s \<and> prefix6 s' = prefix6 s \<and>
    (case r of Some v \<Rightarrow> usable6 s v \<and> v \<notin> reserved s \<and> v \<notin> ran (lease_map s) \<and> lease_map s' = (lease_map s)(key \<mapsto> v)
             | None \<Rightarrow> lease_map s' = lease_map s \<and> (\<forall>v. usable6 s v \<longrightarrow> v \<in> reserved s \<or> v \<in> ran (lease_map s)))"
proof -
  have al: "allocated s = ran (lease_map s)" using inv_books6 [OF inv] by (simp add: lease_inv_def)
  have ok: "usable6 s x \<Longrightarrow> x \<notin> reserved s \<Longrightarrow> assignable6 s x \<longleftrightarrow> x \<notin> allocated s" for x by (simp add: assignable6_iff)
  obtain q s1 where pop: "pop_freed (assignable6 s) key s = (q, s1)" by (cases "pop_freed (assignable6 s) key s")
  show ?thesis
  proof (cases q)
    case (Some v)
    then have "r = Some v" "s' = s1" using a allocate6_cases [OF none] pop by simp_all
    then show ?thesis using pop_freed_Some [OF inv_books6 [OF inv] none(1) ok pop [unfolded Some]] keeps6 [OF inv, of s1] al by simp
  next
    case None
    note popped = pop_freed_None [OF inv_books6 [OF inv] ok pop [unfolded None]]
    have s1: "pool6_inv s1" "plan6 s1 = plan6 s" "prefix6 s1 = prefix6 s" using keeps6 [OF inv, of s1] popped by simp_all
    have w: "walk6 key s1 = (r, s')" using a allocate6_cases [OF none] pop None by simp
    note walked = walk6_result [OF s1(1) _ w]
    have plan: "plan6 s' = plan6 s" "usable6 s1 = usable6 s" "reserved s1 = reserved s"
      using walked s1(2) popped none(1) usable6_cong [of s1 s'] by (simp_all add: plan6_def same_plan_def)
    have "\<forall>v. usable6 s v \<longrightarrow> v \<in> reserved s \<or> v \<in> ran (lease_map s)" if "r = None"
    proof (intro allI impI)
      fix v
      assume v: "usable6 s v"
      have i: "pool6_inv s'" "freed s' = []" "allocated s' = allocated s" "cursor6 s' = None" "usable6 s' v" "reserved s' = reserved s"
        using walked popped none(1) that v plan by (simp_all add: plan6_def)
      show "v \<in> reserved s \<or> v \<in> ran (lease_map s)" using i al unfolding pool6_inv_def lease_cover_def by auto
    qed
    then show ?thesis using walked popped none(1) s1 plan al by (cases r) simp_all
  qed
qed

lemma allocate_fixed6_result:
  assumes inv: "pool6_inv s" and v: "usable6 s v"
  shows "pool6_inv (take_fixed key v s) \<and> plan6 (take_fixed key v s) = plan6 s \<and> prefix6 (take_fixed key v s) = prefix6 s \<and>
    lease_map (take_fixed key v s) = spec_take key v (lease_map s)"
  using keeps6 [OF inv] take_fixed_keeps [OF inv_books6 [OF inv]] take_fixed_inv [OF inv_books6 [OF inv] v] take_fixed_spec [OF inv_books6 [OF inv]] by simp

lemma release6_result:
  assumes inv: "pool6_inv s"
  shows "pool6_inv (release_lease key s) \<and> plan6 (release_lease key s) = plan6 s \<and> prefix6 (release_lease key s) = prefix6 s \<and>
    lease_map (release_lease key s) = (lease_map s)(key := None)"
  using keeps6 [OF inv] release_keeps [OF inv_books6 [OF inv]] release_inv [OF inv_books6 [OF inv]] by (simp add: release_map)

interpretation p6: address_pool pool6_inv lease_map plan6 prefix6 allocate6 allocate_fixed6 release_lease
proof unfold_locales
  fix p :: Ipv6Pool and k :: string and a
  show "pool6_inv p \<Longrightarrow> unique_leases (lease_map p)" using inv_books6 [of p] by (simp add: lease_inv_def)
  show "pool6_inv p \<Longrightarrow> lease_map p k = Some a \<Longrightarrow> may_lease (plan6 p) a" using inv_books6 [of p] by (auto simp: lease_inv_def plan6_def ranI)
  show "pool6_inv p \<Longrightarrow> reserved_for (plan6 p) k = Some a \<Longrightarrow> may_lease (plan6 p) a \<and> a \<in> withheld (plan6 p)"
    using inv_books6 [of p] by (auto simp: lease_inv_def plan6_def dest!: map_of_SomeD)
  show "lease_map p k = Some a \<Longrightarrow> allocate6 k p = (Some a, p)" by (simp add: allocate6_def lease_map_def)
  show "lease_map p k = None \<Longrightarrow> reserved_for (plan6 p) k = Some a \<Longrightarrow> allocate6 k p = allocate_fixed6 k a p"
    by (simp add: allocate6_def lease_map_def plan6_def find_holder)
  show "\<not> may_lease (plan6 p) a \<Longrightarrow> allocate_fixed6 k a p = (None, p)" by (simp add: allocate_fixed6_def plan6_def)
next
  fix p k r p'
  assume "pool6_inv p" "lease_map p k = None" "reserved_for (plan6 p) k = None" "allocate6 k p = (r, p')"
  then show "pool6_inv p' \<and> plan6 p' = plan6 p \<and> prefix6 p' = prefix6 p \<and>
      (case r of None \<Rightarrow> lease_map p' = lease_map p \<and> (\<forall>a. may_lease (plan6 p) a \<longrightarrow> a \<in> withheld (plan6 p) \<or> a \<in> ran (lease_map p))
       | Some a \<Rightarrow> may_lease (plan6 p) a \<and> a \<notin> withheld (plan6 p) \<and> a \<notin> ran (lease_map p) \<and> lease_map p' = (lease_map p)(k \<mapsto> a))"
    using allocate6_dynamic [of p k r p'] by (auto simp: plan6_def split: option.splits)
next
  fix p a k r p'
  assume "pool6_inv p" "may_lease (plan6 p) a" "allocate_fixed6 k a p = (r, p')"
  then show "r = Some a \<and> pool6_inv p' \<and> plan6 p' = plan6 p \<and> prefix6 p' = prefix6 p \<and> lease_map p' = spec_take k a (lease_map p)"
    using allocate_fixed6_result [of p a k] by (auto simp: allocate_fixed6_def plan6_def)
next
  fix p :: Ipv6Pool and k
  assume "pool6_inv p"
  then show "pool6_inv (release_lease k p) \<and> plan6 (release_lease k p) = plan6 p \<and> prefix6 (release_lease k p) = prefix6 p \<and>
      lease_map (release_lease k p) = (lease_map p)(k := None)" by (rule release6_result)
qed

section \<open>Windows and claims\<close>

lemma scan_range_Some: "scan_range tmp s v hi = Some w \<Longrightarrow> v \<le> w \<and> w \<le> hi \<and> not_taken s w \<and> w \<notin> tmp"
proof (induction tmp s v hi rule: scan_range.induct)
  case (1 tmp s v hi)
  have inc: "v \<noteq> - 1 \<Longrightarrow> v + 1 \<le> w \<Longrightarrow> v \<le> w" using unat_inc [of v] by (simp add: word_le_nat_alt)
  show ?case using 1(1) inc 1(2) [unfolded scan_range.simps [of tmp s v hi]] by (auto split: if_splits)
qed

lemma scan_range_None: "scan_range tmp s v hi = None \<Longrightarrow> v \<le> w \<Longrightarrow> w \<le> hi \<Longrightarrow> w \<in> tmp \<or> \<not> not_taken s w"
proof (induction tmp s v hi rule: scan_range.induct)
  case (1 tmp s v hi)
  show ?case
  proof (cases "w = v")
    case True
    then show ?thesis using 1(4) 1(2) [unfolded scan_range.simps [of tmp s v hi]] by (auto split: if_splits)
  next
    case False
    have "v \<le> hi" using 1(3,4) by (rule order_trans)
    moreover have "v \<noteq> - 1" using False 1(3) word_order.extremum_unique by auto
    moreover from this have "v + 1 \<le> w" using False 1(3) unat_inc [of v] by (simp add: word_le_nat_alt word_unat_eq_iff)
    ultimately show ?thesis using 1(1,4) 1(2) [unfolded scan_range.simps [of tmp s v hi]] by (auto split: if_splits)
  qed
qed

text \<open>A lease outside the window is given up as \<^verbatim>\<open>release\<close> does it, then the window is scanned.\<close>

lemma window_release:
  "(remember_freed cur (s\<lparr>allocated := allocated s - {cur}\<rparr>))\<lparr>user_allocations := AList.delete key (user_allocations (remember_freed cur (s\<lparr>allocated := allocated s - {cur}\<rparr>)))\<rparr> =
   remember_freed cur (s\<lparr>user_allocations := AList.delete key (user_allocations s), allocated := allocated s - {cur}\<rparr>)"
  by (simp add: remember_freed_def)

definition scan_assign :: "string \<Rightarrow> u32 \<Rightarrow> u32 \<Rightarrow> u32 set \<Rightarrow> IpPool \<Rightarrow> Ipv4Addr option \<times> IpPool" where
  "scan_assign key lo hi tmp s =
     (case scan_range tmp s (max lo (start_ip s)) (min hi (end_ip s)) of None \<Rightarrow> (None, s) | Some v \<Rightarrow> (Some v, assign_lease key v s))"

lemma in_range_cases:
  "allocate_in_range_excluding key lo hi tmp s =
     (case lease_map s key of
        Some cur \<Rightarrow> if lo \<le> cur \<and> cur \<le> hi \<and> cur \<notin> tmp then (Some cur, s) else scan_assign key lo hi tmp (release_ipv4 key s)
      | None \<Rightarrow> scan_assign key lo hi tmp s)"
proof (cases "map_of (user_allocations s) key")
  case None
  then show ?thesis by (simp add: allocate_in_range_excluding_def lease_map_def scan_assign_def)
next
  case (Some cur)
  then have "release_ipv4 key s = (remember_freed cur (s\<lparr>allocated := allocated s - {cur}\<rparr>))\<lparr>user_allocations :=
      AList.delete key (user_allocations (remember_freed cur (s\<lparr>allocated := allocated s - {cur}\<rparr>)))\<rparr>"
    unfolding window_release by (simp add: release_ipv4_def release_lease_def)
  then show ?thesis using Some by (simp add: allocate_in_range_excluding_def lease_map_def scan_assign_def Let_def cong: option.case_cong)
qed

lemma scan_assign_result:
  assumes inv: "pool4_inv s" and none: "lease_map s key = None" and a: "scan_assign key lo hi tmp s = (r, s')"
  shows "pool4_inv s' \<and> plan4 s' = plan4 s \<and> ipv6 s' = ipv6 s \<and>
    (case r of Some v \<Rightarrow> lo \<le> v \<and> v \<le> hi \<and> v \<notin> tmp \<and> usable4 s v \<and> v \<notin> reserved s \<and> v \<notin> ran (lease_map s) \<and> lease_map s' = (lease_map s)(key \<mapsto> v)
             | None \<Rightarrow> s' = s \<and> (\<forall>v. lo \<le> v \<longrightarrow> v \<le> hi \<longrightarrow> usable4 s v \<longrightarrow> v \<in> tmp \<or> v \<in> reserved s \<or> v \<in> ran (lease_map s)))"
proof -
  have al: "allocated s = ran (lease_map s)" using inv_books [OF inv] by (simp add: lease_inv_def)
  show ?thesis
  proof (cases "scan_range tmp s (max lo (start_ip s)) (min hi (end_ip s))")
    case None
    have "v \<in> tmp \<or> v \<in> reserved s \<or> v \<in> ran (lease_map s)" if "lo \<le> v" "v \<le> hi" "usable4 s v" for v
      using scan_range_None [OF None, of v] that al by (auto simp: usable4_iff not_taken_def)
    then show ?thesis using a None inv by (simp add: scan_assign_def)
  next
    case (Some v)
    note v = scan_range_Some [OF Some]
    have u: "usable4 s v" "v \<notin> allocated s" "v \<notin> reserved s" using v by (simp_all add: usable4_iff not_taken_def)
    have e: "r = Some v" "s' = assign_lease key v s" using a Some by (simp_all add: scan_assign_def)
    have "lease_inv (usable4 s) s'" unfolding e by (rule assign_inv [OF inv_books [OF inv] u(1,2) none])
    then show ?thesis using keeps4 [OF inv, of s'] assign_keeps [of s key v] e u v al by simp
  qed
qed

lemma in_range_result:
  assumes inv: "pool4_inv s" and a: "allocate_in_range_excluding key lo hi tmp s = (r, s')"
  shows "pool4_inv s' \<and> plan4 s' = plan4 s \<and> ipv6 s' = ipv6 s \<and>
    (case r of Some v \<Rightarrow> lo \<le> v \<and> v \<le> hi \<and> v \<notin> tmp \<and> usable4 s v \<and> (lease_map s key = Some v \<or> v \<notin> reserved s) \<and>
                 v \<notin> ran ((lease_map s)(key := None)) \<and> lease_map s' = (lease_map s)(key \<mapsto> v)
             | None \<Rightarrow> lease_map s' = (lease_map s)(key := None) \<and>
                 (\<forall>v. lo \<le> v \<longrightarrow> v \<le> hi \<longrightarrow> usable4 s v \<longrightarrow> v \<in> tmp \<or> v \<in> reserved s \<or> v \<in> ran ((lease_map s)(key := None))))"
proof (cases "\<exists>cur. lease_map s key = Some cur \<and> lo \<le> cur \<and> cur \<le> hi \<and> cur \<notin> tmp")
  case True
  then obtain cur where cur: "lease_map s key = Some cur" "lo \<le> cur" "cur \<le> hi" "cur \<notin> tmp" by blast
  then have e: "r = Some cur" "s' = s" using a by (simp_all add: in_range_cases)
  have "cur \<notin> ran ((lease_map s)(key := None))" unfolding ran_release [OF p4.unique [OF inv]] using cur by simp
  then show ?thesis using cur e inv p4.leased [OF inv cur(1)] by (simp add: plan4_def fun_upd_idem)
next
  case False
  let ?s = "if lease_map s key = None then s else release_ipv4 key s"
  have e: "scan_assign key lo hi tmp ?s = (r, s')" using a False by (auto simp: in_range_cases split: option.splits if_splits)
  have s: "pool4_inv ?s" "plan4 ?s = plan4 s" "ipv6 ?s = ipv6 s" "lease_map ?s = (lease_map s)(key := None)" "reserved ?s = reserved s" "usable4 ?s = usable4 s"
    using inv release_ipv4_result [OF inv, of key] by (auto simp: plan4_def fun_upd_idem)
  show ?thesis using scan_assign_result [OF s(1) _ e] s(2-) by (simp split: option.splits)
qed

lemma find_held: "distinct (map fst es) \<Longrightarrow> find (\<lambda>(_, held). held = v) es = None \<longleftrightarrow> v \<notin> ran (map_of es)"
  by (auto simp: find_None_iff ran_distinct image_iff)

lemma find_held_Some:
  assumes "distinct (map fst es)" and "find (\<lambda>(_, held). held = v) es = Some (holder, w)"
  shows "map_of es holder = Some v"
proof -
  have "(holder, w) \<in> set es \<and> w = v" using assms(2) by (auto simp: find_Some_iff dest: nth_mem)
  then have "(holder, v) \<in> set es" by blast
  then show ?thesis using assms(1) by (simp add: map_of_is_SomeI)
qed

lemma unclaimed_result:
  assumes inv: "pool4_inv s" and a: "allocate_fixed_unclaimed key v s = (r, s')"
  shows "pool4_inv s' \<and> plan4 s' = plan4 s \<and> ipv6 s' = ipv6 s \<and>
    (case r of Some w \<Rightarrow> w = v \<and> usable4 s v \<and> v \<notin> ran ((lease_map s)(key := None)) \<and> lease_map s' = (lease_map s)(key \<mapsto> v)
             | None \<Rightarrow> s' = s \<and> (\<not> usable4 s v \<or> v \<in> reserved s \<or> v \<in> ran ((lease_map s)(key := None))))"
proof (cases "find (\<lambda>(_, held). held = v) (user_allocations s)")
  case None
  have d: "distinct (map fst (user_allocations s))" using inv_books [OF inv] by (simp add: lease_inv_def)
  have free: "v \<notin> ran (lease_map s)" using None find_held [OF d, of v] by (simp add: lease_map_def)
  then have "v \<notin> ran ((lease_map s)(key := None))" by (auto simp: ran_def split: if_splits)
  then show ?thesis
    using a None inv p4.fixed_spec [OF inv, of key v r s'] free by (auto simp: allocate_fixed_unclaimed_def plan4_def spec_take_free split: if_splits)
next
  case (Some e)
  obtain holder w where e: "e = (holder, w)" by (cases e)
  have d: "distinct (map fst (user_allocations s))" using inv_books [OF inv] by (simp add: lease_inv_def)
  have h: "lease_map s holder = Some v" using find_held_Some [OF d Some [unfolded e]] by (simp add: lease_map_def)
  have r: "r = (if holder = key then Some v else None)" "s' = s" using a Some e by (simp_all add: allocate_fixed_unclaimed_def)
  show ?thesis
  proof (cases "holder = key")
    case True
    have "v \<notin> ran ((lease_map s)(key := None))" unfolding ran_release [OF p4.unique [OF inv]] using h True by simp
    then show ?thesis using True r h inv p4.leased [OF inv h] by (simp add: plan4_def fun_upd_idem)
  next
    case False
    then have "v \<in> ran ((lease_map s)(key := None))" using h by (intro ranI [of _ holder]) simp
    then show ?thesis using False r inv by simp
  qed
qed

section \<open>Construction\<close>

text \<open>A fresh pool has leased nothing and its walk has passed nothing it may lease.\<close>

lemma add_reservations_ok:
  assumes "add_reservations lo hi ex rs (res, sr) = Ok (res', sr')" and "\<And>k v. (k, v) \<in> set sr \<Longrightarrow> lo \<le> v \<and> v \<le> hi \<and> v \<notin> ex \<and> v \<in> res"
  shows "(k, v) \<in> set sr' \<Longrightarrow> lo \<le> v \<and> v \<le> hi \<and> v \<notin> ex \<and> v \<in> res'"
  using assms
proof (induction rs arbitrary: res sr)
  case (Cons r rs)
  obtain username raw where r: "r = (username, raw)" by (cases r)
  obtain w where w: "parse_ipv4_addr raw = Some w" "lo \<le> w" "w \<le> hi" "w \<notin> ex"
    and rest: "add_reservations lo hi ex rs (insert w res, sr @ [(username, w)]) = Ok (res', sr')"
    using Cons.prems(2) by (simp add: r not_less not_le split: option.split_asm if_split_asm)
  have "lo \<le> x \<and> x \<le> hi \<and> x \<notin> ex \<and> x \<in> insert w res" if "(k', x) \<in> set (sr @ [(username, w)])" for k' x
    using that Cons.prems(3) [of k' x] w by auto
  then show ?case by (rule Cons.IH [OF Cons.prems(1) rest])
qed simp

lemma add_reservations6_ok:
  assumes "add_reservations6 lo hi ex rs (res, sr) = Ok (res', sr')" and "\<And>k v. (k, v) \<in> set sr \<Longrightarrow> lo < v \<and> v \<le> hi \<and> v \<notin> ex \<and> v \<in> res"
  shows "(k, v) \<in> set sr' \<Longrightarrow> lo < v \<and> v \<le> hi \<and> v \<notin> ex \<and> v \<in> res'"
  using assms
proof (induction rs arbitrary: res sr)
  case (Cons r rs)
  obtain username raw where r: "r = (username, raw)" by (cases r)
  obtain w where w: "parse_ipv6_addr raw = Some w" "lo < w" "w \<le> hi" "w \<notin> ex"
    and rest: "add_reservations6 lo hi ex rs (insert w res, sr @ [(username, w)]) = Ok (res', sr')"
    using Cons.prems(2) by (simp add: r not_less not_le split: option.split_asm if_split_asm)
  have "lo < x \<and> x \<le> hi \<and> x \<notin> ex \<and> x \<in> insert w res" if "(k', x) \<in> set (sr @ [(username, w)])" for k' x
    using that Cons.prems(3) [of k' x] w by auto
  then show ?case by (rule Cons.IH [OF Cons.prems(1) rest])
qed simp

lemma fresh_inv:
  assumes "allocated s = {}" "user_allocations s = []" "freed s = []" "freed_set s = {}"
    and "\<And>k v. (k, v) \<in> set (static_res s) \<Longrightarrow> U v \<and> v \<in> reserved s"
  shows "lease_inv U s"
  using assms by (simp add: lease_inv_def lease_map_def unique_leases_def)

lemma new_with_tun_shape:
  assumes "IpPool_new_with_tun config tun = Ok s"
  shows "\<exists>first_ip last_ip ex res sr. add_reservations first_ip last_ip ex (Pool_Config.static_reservations config) ({}, []) = Ok (res, sr) \<and>
    s = \<lparr>excluded = ex, static_res = sr, reserved = res, allocated = {}, user_allocations = [], freed = [], freed_set = {},
         start_ip = first_ip, end_ip = last_ip, cursor = ucast first_ip, ipv6 = None\<rparr>"
proof -
  obtain network subnet_mask where c: "parse_cidr (cidr config) = Ok (network, subnet_mask)"
    using assms by (cases "parse_cidr (cidr config)") (auto simp: IpPool_new_with_tun_def)
  define total_ips where "total_ips = push_bit (32 - unat subnet_mask) (1 :: u32)"
  define hi where "hi = network OR (if 2 \<le> total_ips then total_ips - 2 else 0)"
  define exs where "exs = {network, network OR (total_ips - 1)} \<union> set (List.map_filter parse_ipv4_addr (exclude config)) \<union> {tun}"
  have "\<not> 30 < subnet_mask \<and> subnet_mask \<noteq> 0 \<and> \<not> (tun < network OR 1 \<or> hi < tun)"
    using assms c unfolding IpPool_new_with_tun_def Let_def hi_def total_ips_def by (simp split: if_split_asm)
  then have "(case add_reservations (network OR 1) hi exs (Pool_Config.static_reservations config) ({}, []) of
      Inl e \<Rightarrow> Err e
    | Inr (res, sr) \<Rightarrow> Ok \<lparr>excluded = exs, static_res = sr, reserved = res, allocated = {}, user_allocations = [], freed = [], freed_set = {},
         start_ip = network OR 1, end_ip = hi, cursor = ucast (network OR 1), ipv6 = None\<rparr>) = Ok s"
    using assms c unfolding IpPool_new_with_tun_def Let_def hi_def exs_def total_ips_def by simp
  then show ?thesis by (auto split: sum.splits prod.splits)
qed

lemma new_with_tun_inv:
  assumes "IpPool_new_with_tun config tun = Ok s"
  shows "pool4_inv s \<and> ipv6 s = None"
proof -
  obtain first_ip last_ip ex res sr where r: "add_reservations first_ip last_ip ex (Pool_Config.static_reservations config) ({}, []) = Ok (res, sr)"
    and s: "s = \<lparr>excluded = ex, static_res = sr, reserved = res, allocated = {}, user_allocations = [], freed = [], freed_set = {},
              start_ip = first_ip, end_ip = last_ip, cursor = ucast first_ip, ipv6 = None\<rparr>"
    using new_with_tun_shape [OF assms] by blast
  have "lease_inv (usable4 s) s" by (rule fresh_inv) (use add_reservations_ok [OF r] s in \<open>simp_all add: usable4_iff\<close>)
  moreover have "lease_cover (usable4 s) (\<lambda>v. unat v < unat (cursor s)) s"
    unfolding lease_cover_def by (auto simp: s usable4_iff unat_u32_u64 word_le_nat_alt)
  ultimately show ?thesis by (simp add: pool4_inv_def s unat_u32_u64)
qed

lemma Ipv6Pool_new_shape:
  assumes "Ipv6Pool_new config tun = Ok s"
  shows "\<exists>(subnet :: Ipv6PoolSubnet) e ex res sr. add_reservations6 (ps6_network subnet) e ex (static_reservations6 config) ({}, []) = Ok (res, sr) \<and>
    s = \<lparr>excluded = ex, static_res = sr, reserved = res, allocated = {}, user_allocations = [], freed = [], freed_set = {},
         network6 = ps6_network subnet, prefix6 = ps6_prefix subnet, end6 = e,
         cursor6 = (if ps6_network subnet = - 1 then None else Some (ps6_network subnet + 1))\<rparr>"
proof -
  obtain subnet where sub: "ipv6_pool_subnet (cidr6 config) = Ok subnet"
    using assms by (cases "ipv6_pool_subnet (cidr6 config)") (simp_all add: Ipv6Pool_new_def)
  define e where "e = ps6_network subnet OR (if ps6_prefix subnet = 0 then - 1 else drop_bit (unat (ps6_prefix subnet)) (- 1))"
  note d = assms [unfolded Ipv6Pool_new_def Let_def sub sum.case, folded e_def]
  obtain ex where "add_exclusions6 (ps6_network subnet) e (exclude6 config) {ps6_network subnet, tun} = Ok ex"
    using d by (simp split: if_split_asm sum.split_asm)
  then have "(case add_reservations6 (ps6_network subnet) e ex (static_reservations6 config) ({}, []) of
      Inl e \<Rightarrow> Err e
    | Inr (res, sr) \<Rightarrow> Ok \<lparr>excluded = ex, static_res = sr, reserved = res, allocated = {}, user_allocations = [], freed = [], freed_set = {},
         network6 = ps6_network subnet, prefix6 = ps6_prefix subnet, end6 = e,
         cursor6 = (if ps6_network subnet = - 1 then None else Some (ps6_network subnet + 1))\<rparr>) = Ok s"
    using d by (simp only: sum.case split: if_split_asm) simp_all
  then show ?thesis
    by - (rule exI [of _ subnet], rule exI [of _ e], rule exI [of _ ex], auto split: sum.split_asm prod.split_asm split del: if_split)
qed

lemma Ipv6Pool_new_inv:
  assumes "Ipv6Pool_new config tun = Ok s"
  shows "pool6_inv s"
proof -
  obtain subnet :: Ipv6PoolSubnet and e ex res sr where r: "add_reservations6 (ps6_network subnet) e ex (static_reservations6 config) ({}, []) = Ok (res, sr)"
    and s: "s = \<lparr>excluded = ex, static_res = sr, reserved = res, allocated = {}, user_allocations = [], freed = [], freed_set = {},
              network6 = ps6_network subnet, prefix6 = ps6_prefix subnet, end6 = e,
              cursor6 = (if ps6_network subnet = - 1 then None else Some (ps6_network subnet + 1))\<rparr>"
    using Ipv6Pool_new_shape [OF assms] by blast
  have "lease_inv (usable6 s) s" by (rule fresh_inv) (use add_reservations6_ok [OF r] s in \<open>simp_all add: usable6_iff\<close>)
  moreover have "lease_cover (usable6 s) (before6 (cursor6 s)) s"
    unfolding lease_cover_def by (auto simp: s usable6_iff less_inc dest: leD)
  ultimately show ?thesis by (simp add: pool6_inv_def)
qed

lemma new_ipv6_only_inv:
  assumes "IpPool_new_ipv6_only config tun = Ok s"
  shows "pool4_inv s \<and> (\<exists>p. ipv6 s = Some p \<and> pool6_inv p)"
proof -
  obtain p where p: "Ipv6Pool_new config tun = Ok p"
    and s: "s = \<lparr>excluded = {}, static_res = [], reserved = {}, allocated = {}, user_allocations = [], freed = [], freed_set = {},
              start_ip = 0, end_ip = 0, cursor = 0, ipv6 = Some p\<rparr>"
    using assms by (auto simp: IpPool_new_ipv6_only_def split: sum.splits)
  have "lease_inv (usable4 s) s" by (rule fresh_inv) (simp_all add: s)
  then have "pool4_inv s" by (simp add: pool4_inv_def lease_cover_def s)
  then show ?thesis using Ipv6Pool_new_inv [OF p] s by simp
qed

end
