(* ===== verification/Pool_Modes.thy ===== *)
theory Pool_Modes
  imports Pool_Laws
begin

text \<open>
  The server's use of both pools: the reachable pools, the allocation for a mode and the properties of the allocators.
\<close>

section \<open>Both pools\<close>

definition leases6 :: "IpPool \<Rightarrow> (string \<rightharpoonup> u128)" where
  "leases6 s = (case ipv6 s of None \<Rightarrow> Map.empty | Some p \<Rightarrow> lease_map p)"

definition pool_inv :: "IpPool \<Rightarrow> bool" where
  "pool_inv s \<longleftrightarrow> pool4_inv s \<and> (case ipv6 s of None \<Rightarrow> True | Some p \<Rightarrow> pool6_inv p)"

lemma ipv6_update [simp]:
  "lease_map (s\<lparr>ipv6 := x\<rparr>) = lease_map s" "plan4 (s\<lparr>ipv6 := x\<rparr>) = plan4 s" "pool4_inv (s\<lparr>ipv6 := x\<rparr>) = pool4_inv s"
  "usable4 (s\<lparr>ipv6 := x\<rparr>) = usable4 s"
  by (simp_all add: lease_map_def plan4_def pool4_inv_def lease_inv_def lease_cover_def fun_eq_iff usable4_iff)

lemma pool_inv_frame: "pool_inv s \<Longrightarrow> pool4_inv s' \<Longrightarrow> ipv6 s' = ipv6 s \<Longrightarrow> pool_inv s'"
  by (simp add: pool_inv_def)

lemma pool_inv_ipv6: "pool_inv s \<Longrightarrow> pool6_inv p \<Longrightarrow> pool_inv (s\<lparr>ipv6 := Some p\<rparr>)"
  by (simp add: pool_inv_def)

text \<open>No address is left for a key that has none and no reservation.\<close>

definition exhausted :: "'a Plan \<Rightarrow> (string \<rightharpoonup> 'a) \<Rightarrow> string \<Rightarrow> bool" where
  "exhausted pl m key \<longleftrightarrow> m key = None \<and> reserved_for pl key = None \<and> (\<forall>a. may_lease pl a \<longrightarrow> a \<in> withheld pl \<or> a \<in> ran m)"

text \<open>What an allocation for a mode means for the leases of one family: the address given, or none kept.\<close>

definition spec_family :: "string \<Rightarrow> 'a option \<Rightarrow> (string \<rightharpoonup> 'a) \<Rightarrow> (string \<rightharpoonup> 'a)" where
  "spec_family key r m = (case r of None \<Rightarrow> m(key := None) | Some v \<Rightarrow> spec_take key v m)"

context address_pool
begin

lemma alloc_refused: "inv p \<Longrightarrow> alloc k p = (None, p') \<Longrightarrow> exhausted (plan p) (leases p) k"
  using alloc_succeeds_iff [of p k] unfolding exhausted_def by auto

end

lemma retain_result:
  assumes "pool_inv s"
  shows "pool_inv (retain_mode_leases key mode s) \<and> plan4 (retain_mode_leases key mode s) = plan4 s \<and>
    lease_map (retain_mode_leases key mode s) = (if mode = Ipv6 then (lease_map s)(key := None) else lease_map s) \<and>
    ipv6 (retain_mode_leases key mode s) = (if mode = Ipv4 then map_option (release_lease key) (ipv6 s) else ipv6 s)"
proof -
  have i: "pool4_inv s" using assms by (simp add: pool_inv_def)
  show ?thesis
    using assms release_ipv4_result [OF i, of key] i
    by (cases mode) (auto simp: retain_mode_leases_def pool_inv_def Let_def split: option.splits dest: release6_result)
qed

lemma ipv4_for_result:
  assumes inv: "pool_inv s" and a: "allocate_ipv4_for key mode fixed s = (r, s')"
  shows "pool_inv s' \<and> plan4 s' = plan4 s \<and> ipv6 s' = ipv6 s \<and>
    (case r of
       Inr v \<Rightarrow> (v = None \<longleftrightarrow> mode = Ipv6) \<and> (v \<noteq> None \<and> fixed \<noteq> None \<longrightarrow> v = fixed) \<and>
         (case v of None \<Rightarrow> lease_map s' = lease_map s | Some w \<Rightarrow> usable4 s w \<and> lease_map s' = spec_take key w (lease_map s))
     | Inl e \<Rightarrow> mode \<noteq> Ipv6 \<and> (case fixed of None \<Rightarrow> e = Ipv4Exhausted \<and> exhausted (plan4 s) (lease_map s) key
                                | Some w \<Rightarrow> e = InvalidFixedIpv4 w \<and> \<not> usable4 s w))"
proof (cases "mode = Ipv6")
  case True
  then show ?thesis using a inv by (auto simp: allocate_ipv4_for_def)
next
  case False
  then have m: "mode = Ipv4 \<or> mode = Dual" by (cases mode) simp_all
  have i: "pool4_inv s" using inv by (simp add: pool_inv_def)
  show ?thesis
  proof (cases fixed)
    case None
    obtain q s1 where q: "allocate key s = (q, s1)" by (cases "allocate key s")
    show ?thesis using a m None q False p4.alloc_spec [OF i q] p4.alloc_refused [OF i, of key s1] pool_inv_frame [OF inv, of s1]
      by (cases q) (auto simp: allocate_ipv4_for_def plan4_def)
  next
    case (Some w)
    obtain q s1 where q: "allocate_fixed key w s = (q, s1)" by (cases "allocate_fixed key w s")
    show ?thesis using a m Some q False p4.fixed_spec [OF i q] pool_inv_frame [OF inv, of s1]
      by (cases "usable4 s w") (auto simp: allocate_ipv4_for_def plan4_def)
  qed
qed

lemma ipv6_for_result:
  assumes inv: "pool_inv s" and a: "allocate_ipv6_for key mode fixed s = (r, s')"
  shows "pool_inv s' \<and> plan4 s' = plan4 s \<and> lease_map s' = lease_map s \<and>
    (case r of
       Inr v \<Rightarrow> (v = None \<longleftrightarrow> mode = Ipv4) \<and> (v \<noteq> None \<and> fixed \<noteq> None \<longrightarrow> v = fixed) \<and>
         (case v of None \<Rightarrow> leases6 s' = leases6 s | Some w \<Rightarrow> leases6 s' = spec_take key w (leases6 s))
     | Inl e \<Rightarrow> mode \<noteq> Ipv4 \<and> (case ipv6 s of None \<Rightarrow> e = Ipv6Unavailable
                | Some p \<Rightarrow> (case fixed of None \<Rightarrow> e = Ipv6Exhausted \<and> exhausted (plan6 p) (lease_map p) key
                             | Some w \<Rightarrow> e = InvalidFixedIpv6 w \<and> \<not> usable6 p w)))"
proof (cases "mode = Ipv4 \<or> ipv6 s = None")
  case True
  then show ?thesis using a inv by (cases mode) (auto simp: allocate_ipv6_for_def)
next
  case False
  then have m: "mode = Ipv6 \<or> mode = Dual" by (cases mode) simp_all
  obtain p where p: "ipv6 s = Some p" using False by auto
  have i: "pool6_inv p" using inv p by (simp add: pool_inv_def)
  show ?thesis
  proof (cases fixed)
    case None
    obtain q p1 where q: "allocate6 key p = (q, p1)" by (cases "allocate6 key p")
    show ?thesis using a m p None q False p6.alloc_spec [OF i q] p6.alloc_refused [OF i, of key p1] pool_inv_ipv6 [OF inv, of p1]
      by (cases q) (auto simp: allocate_ipv6_for_def leases6_def)
  next
    case (Some w)
    obtain q p1 where q: "allocate_fixed6 key w p = (q, p1)" by (cases "allocate_fixed6 key w p")
    show ?thesis using a m p Some q False p6.fixed_spec [OF i q] pool_inv_ipv6 [OF inv, of p1]
      by (cases "usable6 p w") (auto simp: allocate_ipv6_for_def leases6_def plan6_def)
  qed
qed

lemma spec_take_released: "spec_take key v (m(key := None)) = spec_take key v m"
  by (auto simp: spec_take_def)

definition refusal_justified :: "IpPool \<Rightarrow> string \<Rightarrow> IpMode \<Rightarrow> Ipv4Addr option \<Rightarrow> Ipv6Addr option \<Rightarrow> AddressAllocationError \<Rightarrow> bool" where
  "refusal_justified s key mode fixed4 fixed6 e \<longleftrightarrow>
     (case e of
        Ipv4Exhausted \<Rightarrow> mode \<noteq> Ipv6 \<and> fixed4 = None \<and> exhausted (plan4 s) (lease_map s) key
      | InvalidFixedIpv4 a \<Rightarrow> mode \<noteq> Ipv6 \<and> fixed4 = Some a \<and> \<not> usable4 s a
      | Ipv6Unavailable \<Rightarrow> mode \<noteq> Ipv4 \<and> ipv6 s = None
      | Ipv6Exhausted \<Rightarrow> mode \<noteq> Ipv4 \<and> fixed6 = None \<and> (\<exists>p. ipv6 s = Some p \<and> exhausted (plan6 p) (lease_map p) key)
      | InvalidFixedIpv6 a \<Rightarrow> mode \<noteq> Ipv4 \<and> fixed6 = Some a \<and> (\<exists>p. ipv6 s = Some p \<and> \<not> usable6 p a))"

lemma mode_inner_result:
  assumes inv: "pool_inv s" and a: "allocate_for_mode_inner key mode fixed4 fixed6 s = (r, s')"
  shows "case r of
      Inl e \<Rightarrow> refusal_justified s key mode fixed4 fixed6 e
    | Inr as \<Rightarrow> pool_inv s' \<and> plan4 s' = plan4 s \<and> (aa_ipv4 as = None \<longleftrightarrow> mode = Ipv6) \<and> (aa_ipv6 as = None \<longleftrightarrow> mode = Ipv4) \<and>
        (aa_ipv4 as \<noteq> None \<and> fixed4 \<noteq> None \<longrightarrow> aa_ipv4 as = fixed4) \<and> (aa_ipv6 as \<noteq> None \<and> fixed6 \<noteq> None \<longrightarrow> aa_ipv6 as = fixed6) \<and>
        lease_map s' = spec_family key (aa_ipv4 as) (lease_map s) \<and> leases6 s' = spec_family key (aa_ipv6 as) (leases6 s)"
proof -
  let ?s0 = "retain_mode_leases key mode s"
  note retained = retain_result [OF inv, of key mode]
  have l6: "leases6 ?s0 = (if mode = Ipv4 then (leases6 s)(key := None) else leases6 s)"
    using retained by (auto simp: leases6_def release_map split: option.splits)
  have u0: "usable4 ?s0 = usable4 s" using retained by (simp add: plan4_def)
  obtain r4 s1 where e4: "allocate_ipv4_for key mode fixed4 ?s0 = (r4, s1)" by (cases "allocate_ipv4_for key mode fixed4 ?s0")
  note done4 = ipv4_for_result [OF conjunct1 [OF retained] e4]
  have l61: "leases6 s1 = leases6 ?s0" using done4 by (simp add: leases6_def)
  show ?thesis
  proof (cases r4)
    case (Inl e)
    then show ?thesis using a e4 done4 retained u0
      by (cases fixed4) (auto simp: allocate_for_mode_inner_def refusal_justified_def)
  next
    case (Inr a4)
    obtain r6 s2 where e6: "allocate_ipv6_for key mode fixed6 s1 = (r6, s2)" by (cases "allocate_ipv6_for key mode fixed6 s1")
    note done6 = ipv6_for_result [OF conjunct1 [OF done4] e6]
    show ?thesis
    proof (cases r6)
      case (Inl e)
      then have r: "r = Err e" using a e4 e6 Inr by (simp add: allocate_for_mode_inner_def)
      have m: "mode \<noteq> Ipv4" "ipv6 s1 = ipv6 s" using done6 Inl done4 retained by auto
      show ?thesis using done6 Inl m unfolding r
        by (cases "ipv6 s"; cases fixed6) (auto simp: refusal_justified_def)
    next
      case i6: (Inr a6)
      then have r: "r = Ok \<lparr>aa_ipv4 = a4, aa_ipv6 = a6\<rparr>" "s' = s2" using a e4 e6 Inr by (simp_all add: allocate_for_mode_inner_def)
      have "lease_map s2 = spec_family key a4 (lease_map s)"
        using done6 done4 Inr retained by (cases a4) (auto simp: spec_family_def spec_take_released split: if_splits)
      moreover have "leases6 s2 = spec_family key a6 (leases6 s)"
        using done6 i6 l61 l6 by (cases a6) (auto simp: spec_family_def spec_take_released split: if_splits)
      ultimately show ?thesis using done6 done4 Inr i6 retained unfolding r by (simp del: not_None_eq)
    qed
  qed
qed

section \<open>Reachable pools\<close>

text \<open>Every pool the server can hold: built by a constructor, then changed by any sequence of the operations.\<close>

inductive pool_reach :: "IpPool \<Rightarrow> bool" where
  reach_new: "IpPool_new_with_tun config tun = Ok s \<Longrightarrow> pool_reach s"
| reach_new6: "IpPool_new_ipv6_only config6 tun6 = Ok s \<Longrightarrow> pool_reach s"
| reach_enable: "pool_reach s \<Longrightarrow> IpPool_enable_ipv6 config6 tun6 s = (r, s') \<Longrightarrow> pool_reach s'"
| reach_allocate: "pool_reach s \<Longrightarrow> allocate key s = (a, s') \<Longrightarrow> pool_reach s'"
| reach_fixed: "pool_reach s \<Longrightarrow> allocate_fixed key v s = (a, s') \<Longrightarrow> pool_reach s'"
| reach_range: "pool_reach s \<Longrightarrow> allocate_in_range_excluding key lo hi tmp s = (a, s') \<Longrightarrow> pool_reach s'"
| reach_unclaimed: "pool_reach s \<Longrightarrow> allocate_fixed_unclaimed key v s = (a, s') \<Longrightarrow> pool_reach s'"
| reach_ipv6: "pool_reach s \<Longrightarrow> allocate_ipv6 key s = (a6, s') \<Longrightarrow> pool_reach s'"
| reach_fixed6: "pool_reach s \<Longrightarrow> allocate_fixed_ipv6 key v6 s = (a6, s') \<Longrightarrow> pool_reach s'"
| reach_mode: "pool_reach s \<Longrightarrow> allocate_for_mode key mode fixed4 fixed6 s = (m, s') \<Longrightarrow> pool_reach s'"
| reach_release: "pool_reach s \<Longrightarrow> pool_reach (release key s)"

lemma release_both:
  assumes "pool_inv s"
  shows "pool_inv (release key s)"
proof -
  have i: "pool4_inv s" using assms by (simp add: pool_inv_def)
  show ?thesis using assms release_ipv4_result [OF i, of key]
    by (auto simp: release_def pool_inv_def split: option.splits dest: release6_result)
qed

lemma allocate_ipv6_inv: "pool_inv s \<Longrightarrow> allocate_ipv6 key s = (a, s') \<Longrightarrow> pool_inv s'"
  by (auto simp: allocate_ipv6_def pool_inv_def split: option.splits prod.splits dest: p6.alloc_spec)

lemma allocate_fixed_ipv6_inv: "pool_inv s \<Longrightarrow> allocate_fixed_ipv6 key v s = (a, s') \<Longrightarrow> pool_inv s'"
  by (auto simp: allocate_fixed_ipv6_def pool_inv_def split: option.splits prod.splits dest: p6.fixed_spec)

lemma for_mode_inv:
  assumes "pool_inv s" and "allocate_for_mode key mode fixed4 fixed6 s = (r, s')"
  shows "pool_inv s'"
proof -
  obtain q s1 where q: "allocate_for_mode_inner key mode fixed4 fixed6 s = (q, s1)" by (cases "allocate_for_mode_inner key mode fixed4 fixed6 s")
  show ?thesis using mode_inner_result [OF assms(1) q] assms q by (cases q) (auto simp: allocate_for_mode_def)
qed

lemma reach_inv: "pool_reach s \<Longrightarrow> pool_inv s"
proof (induction rule: pool_reach.induct)
  case (reach_new config tun s)
  then show ?case using new_with_tun_inv by (simp add: pool_inv_def)
next
  case (reach_new6 config6 tun6 s)
  then show ?case using new_ipv6_only_inv by (fastforce simp: pool_inv_def)
next
  case (reach_enable s config6 tun6 r s')
  then show ?case using Ipv6Pool_new_inv by (auto simp: IpPool_enable_ipv6_def pool_inv_def split: sum.splits)
next
  case (reach_allocate s key a s')
  then show ?case using pool_inv_frame p4.alloc_spec [of s key a s'] by (simp add: pool_inv_def)
next
  case (reach_fixed s key v a s')
  then show ?case using pool_inv_frame p4.fixed_spec [of s key v a s'] by (simp add: pool_inv_def)
next
  case (reach_range s key lo hi tmp a s')
  then show ?case using pool_inv_frame in_range_result [of s key lo hi tmp a s'] by (simp add: pool_inv_def)
next
  case (reach_unclaimed s key v a s')
  then show ?case using pool_inv_frame unclaimed_result [of s key v a s'] by (simp add: pool_inv_def)
qed (use release_both allocate_ipv6_inv allocate_fixed_ipv6_inv for_mode_inv in blast)+

lemma reach_inv4: "pool_reach s \<Longrightarrow> pool4_inv s"
  using reach_inv by (simp add: pool_inv_def)

lemma reach_inv6: "pool_reach s \<Longrightarrow> ipv6 s = Some p \<Longrightarrow> pool6_inv p"
  using reach_inv [of s] by (simp add: pool_inv_def)

lemma get_ip_lease [simp]: "get_ip_by_username key s = lease_map s key"
  by (simp add: get_ip_by_username_def lease_map_def)

lemma get_ipv6_lease [simp]: "get_ipv6_by_username key s = leases6 s key"
  by (simp add: get_ipv6_by_username_def leases6_def split: option.split)

lemma not_in_ran: "v \<notin> ran m \<longleftrightarrow> (\<forall>k. m k \<noteq> Some v)"
  by (simp add: ran_def)

section \<open>Properties\<close>

text \<open>
  C4. No address is ever leased twice, whatever sequence of operations the server runs on a pool: two keys with the same
  IPv4 or IPv6 address are the same key, and every leased address is one the pool may hand out - inside its range, not the
  network, the broadcast, the tunnel or an excluded address.
\<close>

theorem leases_never_clash:
  assumes "pool_reach s"
  shows "(\<forall>k k' v. get_ip_by_username k s = Some v \<longrightarrow> get_ip_by_username k' s = Some v \<longrightarrow> k = k') \<and>
    (\<forall>k k' v. get_ipv6_by_username k s = Some v \<longrightarrow> get_ipv6_by_username k' s = Some v \<longrightarrow> k = k') \<and>
    (\<forall>k v. get_ip_by_username k s = Some v \<longrightarrow> start_ip s \<le> v \<and> v \<le> end_ip s \<and> v \<notin> excluded s) \<and>
    (\<forall>k v p. ipv6 s = Some p \<longrightarrow> get_ipv6_by_username k s = Some v \<longrightarrow> network6 p < v \<and> v \<le> end6 p \<and> v \<notin> excluded p)"
proof -
  note i4 = reach_inv4 [OF assms] and i6 = reach_inv6 [OF assms]
  have "unique_leases (leases6 s)"
    using p6.unique [OF i6] by (cases "ipv6 s") (simp_all add: leases6_def unique_leases_def)
  moreover have "usable4 s v" if "lease_map s k = Some v" for k v using p4.leased [OF i4 that] by (simp add: plan4_def)
  moreover have "usable6 p v" if "ipv6 s = Some p" "leases6 s k = Some v" for k v p
    using p6.leased [OF i6 [OF that(1)], of k v] that by (simp add: plan6_def leases6_def)
  ultimately show ?thesis using p4.unique [OF i4] unfolding unique_leases_def by (simp add: usable4_iff usable6_iff)
qed

text \<open>
  C32. Exhaustion is genuine: on any reachable pool, dynamic allocation answers with an address exactly when the key holds one,
  has a reservation, or some address the pool may hand out is neither reserved nor leased; in both families.
\<close>

theorem allocation_succeeds_iff_free:
  assumes "pool_reach s"
  shows "(fst (allocate key s) \<noteq> None \<longleftrightarrow>
      get_ip_by_username key s \<noteq> None \<or> map_of (static_res s) key \<noteq> None \<or>
      (\<exists>v. usable4 s v \<and> v \<notin> reserved s \<and> (\<forall>k. get_ip_by_username k s \<noteq> Some v))) \<and>
    (\<forall>p. ipv6 s = Some p \<longrightarrow> (fst (allocate_ipv6 key s) \<noteq> None \<longleftrightarrow>
      get_ipv6_by_username key s \<noteq> None \<or> map_of (static_res p) key \<noteq> None \<or>
      (\<exists>v. usable6 p v \<and> v \<notin> reserved p \<and> (\<forall>k. get_ipv6_by_username k s \<noteq> Some v))))"
proof -
  have "fst (allocate_ipv6 key s) = fst (allocate6 key p)" if "ipv6 s = Some p" for p
    using that by (simp add: allocate_ipv6_def split: prod.split)
  then show ?thesis
    using p4.alloc_succeeds_iff [OF reach_inv4 [OF assms], of key] p6.alloc_succeeds_iff [OF reach_inv6 [OF assms], of _ key]
    by (simp add: plan4_def plan6_def not_in_ran leases6_def)
qed

text \<open>
  C33. Allocation inside a window (the DHCP range, with some addresses temporarily excluded): an address given lies in the
  window, may be handed out, is not excluded, and is either the key's own lease or neither reserved nor held by anybody else;
  nobody else's lease changes. A refusal means that the window has no such address, and costs the key only a lease outside
  the window.
\<close>

theorem window_allocation:
  assumes "pool_reach s" and "allocate_in_range_excluding key lo hi tmp s = (r, s')"
  shows "case r of
      Some v \<Rightarrow> lo \<le> v \<and> v \<le> hi \<and> v \<notin> tmp \<and> usable4 s v \<and> (get_ip_by_username key s = Some v \<or> v \<notin> reserved s) \<and>
        (\<forall>k. k \<noteq> key \<longrightarrow> get_ip_by_username k s \<noteq> Some v) \<and>
        get_ip_by_username key s' = Some v \<and> (\<forall>k. k \<noteq> key \<longrightarrow> get_ip_by_username k s' = get_ip_by_username k s)
    | None \<Rightarrow> (\<forall>v. lo \<le> v \<and> v \<le> hi \<and> v \<notin> tmp \<and> usable4 s v \<longrightarrow> v \<in> reserved s \<or> (\<exists>k. k \<noteq> key \<and> get_ip_by_username k s = Some v)) \<and>
        get_ip_by_username key s' = None \<and> (\<forall>k. k \<noteq> key \<longrightarrow> get_ip_by_username k s' = get_ip_by_username k s)"
proof -
  have o: "v \<notin> ran ((lease_map s)(key := None)) \<longleftrightarrow> (\<forall>k. k \<noteq> key \<longrightarrow> lease_map s k \<noteq> Some v)" for v by (simp add: not_in_ran)
  have o': "v \<in> ran ((lease_map s)(key := None)) \<longleftrightarrow> (\<exists>k. k \<noteq> key \<and> lease_map s k = Some v)" for v using o [of v] by blast
  note w = in_range_result [OF reach_inv4 [OF assms(1)] assms(2)]
  show ?thesis
  proof (cases r)
    case None
    then show ?thesis using w by (auto simp: o')
  next
    case (Some v)
    then show ?thesis using w by (simp add: o)
  qed
qed

text \<open>
  C34. An allocation for a mode refines the abstract one: the answer has an address of exactly the families of the mode, a fixed
  address asked for is the one given, and the leases of each family change as if the given address were taken for the key
  and a family outside the mode were given up. Nobody else's lease changes, but for a holder of an address now taken.
\<close>

theorem mode_allocation_refines:
  assumes "pool_reach s" and "allocate_for_mode key mode fixed4 fixed6 s = (Ok as, s')"
  shows "(aa_ipv4 as = None \<longleftrightarrow> mode = Ipv6) \<and> (aa_ipv6 as = None \<longleftrightarrow> mode = Ipv4) \<and>
    (aa_ipv4 as \<noteq> None \<and> fixed4 \<noteq> None \<longrightarrow> aa_ipv4 as = fixed4) \<and> (aa_ipv6 as \<noteq> None \<and> fixed6 \<noteq> None \<longrightarrow> aa_ipv6 as = fixed6) \<and>
    lease_map s' = spec_family key (aa_ipv4 as) (lease_map s) \<and> leases6 s' = spec_family key (aa_ipv6 as) (leases6 s)"
proof -
  have "allocate_for_mode_inner key mode fixed4 fixed6 s = (Ok as, s')"
    using assms(2) by (auto simp: allocate_for_mode_def split: prod.splits sum.splits)
  from mode_inner_result [OF reach_inv [OF assms(1)] this] show ?thesis by (simp del: not_None_eq)
qed

text \<open>
  C35. A refused allocation for a mode leaves the pool as it was, and the error is the true reason: the fixed address may not be
  leased, there is no IPv6 pool, or every address of the family is withheld or leased and the key has neither lease nor
  reservation.
\<close>

theorem mode_allocation_refused:
  assumes "pool_reach s" and "allocate_for_mode key mode fixed4 fixed6 s = (Err e, s')"
  shows "s' = s \<and>
    (case e of
       Ipv4Exhausted \<Rightarrow> mode \<noteq> Ipv6 \<and> fixed4 = None \<and> exhausted (plan4 s) (lease_map s) key
     | InvalidFixedIpv4 a \<Rightarrow> mode \<noteq> Ipv6 \<and> fixed4 = Some a \<and> \<not> usable4 s a
     | Ipv6Unavailable \<Rightarrow> mode \<noteq> Ipv4 \<and> ipv6 s = None
     | Ipv6Exhausted \<Rightarrow> mode \<noteq> Ipv4 \<and> fixed6 = None \<and> (\<exists>p. ipv6 s = Some p \<and> exhausted (plan6 p) (lease_map p) key)
     | InvalidFixedIpv6 a \<Rightarrow> mode \<noteq> Ipv4 \<and> fixed6 = Some a \<and> (\<exists>p. ipv6 s = Some p \<and> \<not> usable6 p a))"
proof -
  obtain s1 where "allocate_for_mode_inner key mode fixed4 fixed6 s = (Err e, s1)" "s' = s"
    using assms(2) by (auto simp: allocate_for_mode_def split: prod.splits sum.splits)
  from mode_inner_result [OF reach_inv [OF assms(1)] this(1)] this(2) show ?thesis unfolding refusal_justified_def by simp
qed

section \<open>A pool at work\<close>

text \<open>The pool 10.7.0.0/29 with one excluded address and one reservation.\<close>

definition demo_config6 :: Ipv6PoolConfig where
  "demo_config6 = \<lparr>cidr6 = ''fd00::/120'', exclude6 = [], static_reservations6 = []\<rparr>"

definition demo_config :: PoolConfig where
  "demo_config = \<lparr>cidr = ''10.7.0.0/29'', exclude = [''10.7.0.2''], static_reservations = [(''carol'', ''10.7.0.5'')], pool_ipv6 = demo_config6\<rparr>"

definition demo_new :: IpPool where
  "demo_new = \<lparr>excluded = {0x0A070000, 0x0A070007, 0x0A070002, 0x0A070001}, static_res = [(''carol'', 0x0A070005)], reserved = {0x0A070005},
     allocated = {}, user_allocations = [], freed = [], freed_set = {}, start_ip = 0x0A070001, end_ip = 0x0A070006, cursor = 0x0A070001, ipv6 = None\<rparr>"

definition demo_pool :: IpPool where
  "demo_pool = snd (allocate ''bob'' (snd (allocate ''alice'' demo_new)))"

lemma demo_new_ok: "IpPool_new_with_tun demo_config 0x0A070001 = Ok demo_new"
  by code_simp

lemma demo_reach: "pool_reach demo_pool"
  unfolding demo_pool_def by (rule reach_allocate [OF reach_allocate [OF reach_new [OF demo_new_ok] prod.collapse [symmetric]] prod.collapse [symmetric]])

lemma demo_leases: "get_ip_by_username ''alice'' demo_pool = Some 0x0A070003 \<and> get_ip_by_username ''bob'' demo_pool = Some 0x0A070004"
  by code_simp

theorem leases_never_clash_witness:
  "get_ip_by_username ''alice'' demo_pool = Some 0x0A070003 \<and> get_ip_by_username ''bob'' demo_pool \<noteq> Some 0x0A070003 \<and>
    0x0A070003 \<notin> excluded demo_pool"
  using leases_never_clash [OF demo_reach] demo_leases by auto

theorem allocation_succeeds_iff_free_witness: "fst (allocate ''dave'' demo_new) \<noteq> None"
proof -
  have "usable4 demo_new 0x0A070003 \<and> 0x0A070003 \<notin> reserved demo_new \<and> (\<forall>k. get_ip_by_username k demo_new \<noteq> Some 0x0A070003)"
    by (simp add: usable4_iff demo_new_def lease_map_def)
  then show ?thesis using allocation_succeeds_iff_free [OF reach_new [OF demo_new_ok], of "''dave''"] by blast
qed

theorem window_allocation_witness:
  "fst (allocate_in_range_excluding ''dave'' 0x0A070004 0x0A070006 {0x0A070004} demo_new) = Some 0x0A070006 \<and>
    get_ip_by_username ''dave'' (snd (allocate_in_range_excluding ''dave'' 0x0A070004 0x0A070006 {0x0A070004} demo_new)) = Some 0x0A070006"
proof -
  have e: "fst (allocate_in_range_excluding ''dave'' 0x0A070004 0x0A070006 {0x0A070004} demo_new) = Some 0x0A070006" by code_simp
  have p: "allocate_in_range_excluding ''dave'' 0x0A070004 0x0A070006 {0x0A070004} demo_new =
      (Some 0x0A070006, snd (allocate_in_range_excluding ''dave'' 0x0A070004 0x0A070006 {0x0A070004} demo_new))" using e by (metis prod.collapse)
  show ?thesis using window_allocation [OF reach_new [OF demo_new_ok] p] e by simp
qed

theorem mode_allocation_refines_witness:
  "fst (allocate_for_mode ''alice'' Ipv4 None None demo_new) = Ok \<lparr>aa_ipv4 = Some 0x0A070003, aa_ipv6 = None\<rparr> \<and>
    get_ip_by_username ''alice'' (snd (allocate_for_mode ''alice'' Ipv4 None None demo_new)) = Some 0x0A070003"
proof -
  have e: "fst (allocate_for_mode ''alice'' Ipv4 None None demo_new) = Ok \<lparr>aa_ipv4 = Some 0x0A070003, aa_ipv6 = None\<rparr>" by code_simp
  have p: "allocate_for_mode ''alice'' Ipv4 None None demo_new =
      (Ok \<lparr>aa_ipv4 = Some 0x0A070003, aa_ipv6 = None\<rparr>, snd (allocate_for_mode ''alice'' Ipv4 None None demo_new))" using e by (metis prod.collapse)
  show ?thesis using mode_allocation_refines [OF reach_new [OF demo_new_ok] p] e by (simp add: spec_family_def spec_take_def)
qed

theorem mode_allocation_refused_witness:
  "allocate_for_mode ''alice'' Dual None None demo_new = (Err Ipv6Unavailable, demo_new) \<and> ipv6 demo_new = None"
proof -
  have e: "fst (allocate_for_mode ''alice'' Dual None None demo_new) = Err Ipv6Unavailable" by code_simp
  have p: "allocate_for_mode ''alice'' Dual None None demo_new = (Err Ipv6Unavailable, snd (allocate_for_mode ''alice'' Dual None None demo_new))"
    using e by (metis prod.collapse)
  show ?thesis using mode_allocation_refused [OF reach_new [OF demo_new_ok] p] p by simp
qed

section \<open>The IPv4 side of an IPv6-only pool\<close>

text \<open>The range of an IPv6-only pool is not empty: it holds the unspecified address, which dynamic allocation leases.\<close>

lemma ipv6_only_leases_unspecified:
  assumes "IpPool_new_ipv6_only config tun = Ok s"
  shows "fst (allocate key s) = Some 0"
proof -
  obtain p where s: "s = \<lparr>excluded = {}, static_res = [], reserved = {}, allocated = {}, user_allocations = [], freed = [], freed_set = {},
              start_ip = 0, end_ip = 0, cursor = 0, ipv6 = Some p\<rparr>"
    using assms by (auto simp: IpPool_new_ipv6_only_def split: sum.splits)
  show ?thesis by (subst s) (simp add: allocate_def pop_freed_def walk4.simps not_taken_def Let_def)
qed

end
