(* ===== verification/Pool_Window.thy ===== *)
theory Pool_Window
  imports Pool_Modes
begin

text \<open>
  The configuration's arithmetic on subnets against the allocator's: the two compute the same host range in different ways,
  and the DHCP window lies inside what the pool can lease.
\<close>

lemma masked_network: "(a :: u32) AND push_bit k (- 1) = push_bit k (drop_bit k a)"
  by (rule bit_word_eqI) (auto simp: bit_simps)

lemma unat_or_low:
  fixes a h :: u32
  assumes "k \<le> 32" and "unat h < 2 ^ k"
  shows "unat (push_bit k (drop_bit k a) OR h) = 2 ^ k * (unat a div 2 ^ k) + unat h"
proof -
  let ?m = "unat a div 2 ^ k"
  have "2 ^ k * ?m \<le> unat a" by simp
  then have "2 ^ k * ?m < 4294967296" using unat_u32_less [of a] by linarith
  then have N: "unat (push_bit k (drop_bit k a)) = push_bit k ?m"
    by (simp add: unsigned_push_bit_eq unat_drop_bit_eq drop_bit_nat_def push_bit_nat_def take_bit_nat_eq_self_iff mult.commute)
  have h: "take_bit k (unat h) = unat h" using assms(2) by (simp add: take_bit_nat_eq_self_iff)
  have "\<not> bit (push_bit k ?m) n \<or> \<not> bit (unat h) n" for n
    using h by (metis bit_push_bit_iff bit_take_bit_iff leD)
  then have "push_bit k ?m OR unat h = push_bit k ?m + unat h" by (simp add: disjunctive_add)
  then show ?thesis by (simp only: unsigned_or_eq N) (simp add: push_bit_nat_def mult.commute)
qed

text \<open>The usable hosts of a subnet, as the allocator and as the configuration compute them.\<close>

lemma subnet_hosts:
  assumes sub: "pool_subnet c = Ok sub" and p: "ps_prefix sub \<le> 30" "ps_prefix sub \<noteq> 0"
  defines "k \<equiv> 32 - unat (ps_prefix sub)"
  defines "hosts \<equiv> push_bit k (1 :: u32)"
  shows "unat (ps_network sub OR 1) = unat (ps_network sub) + 1 \<and> unat (ps_network sub OR (hosts - 2)) = unat (ps_network sub) + (2 ^ k - 2) \<and>
    unat (broadcast sub) = unat (ps_network sub) + (2 ^ k - 1) \<and> 2 \<le> hosts \<and> 4 \<le> (2 :: nat) ^ k"
proof -
  obtain a where n: "ps_network sub = a AND prefix_mask 32 (unat (ps_prefix sub))" and b: "broadcast sub = ps_network sub OR NOT (prefix_mask 32 (unat (ps_prefix sub)))"
    using sub by (auto simp: pool_subnet_def Let_def split: sum.split_asm prod.split_asm option.split_asm if_split_asm)
  have "unat (ps_prefix sub) \<le> 30" "unat (ps_prefix sub) \<noteq> 0" using p by (simp_all add: word_le_nat_alt unat_eq_0)
  then have k: "2 \<le> k" "k < 32" by (simp_all add: k_def)
  have m: "prefix_mask 32 (unat (ps_prefix sub)) = (push_bit k (- 1) :: u32)" using \<open>unat (ps_prefix sub) \<noteq> 0\<close> by (simp add: prefix_mask_def k_def)
  have net: "ps_network sub = push_bit k (drop_bit k a)" unfolding n m by (rule masked_network)
  have four: "4 \<le> (2 :: nat) ^ k" using power_increasing [OF k(1), of "2 :: nat"] by simp
  have lt: "(2 :: nat) ^ k < 4294967296" using power_strict_increasing [OF k(2), of "2 :: nat"] by simp
  have t: "unat hosts = 2 ^ k" unfolding hosts_def unsigned_push_bit_eq using k(2) lt
    by (simp add: push_bit_nat_def take_bit_nat_eq_self_iff)
  have t2: "2 \<le> hosts" using t four by (simp add: word_le_nat_alt)
  have d: "unat (hosts - 2) = 2 ^ k - 2" using t t2 by (simp add: unat_sub)
  have nm: "unat (NOT (push_bit k (- 1)) :: u32) = 2 ^ k - 1"
  proof -
    have "NOT (push_bit k (- 1)) = (take_bit k (- 1) :: u32)" by (rule bit_word_eqI) (auto simp: bit_simps)
    then show ?thesis using k(2) by (simp only: unsigned_take_bit_eq unsigned_minus_1_eq_mask) (simp add: min_def, simp add: mask_eq_exp_minus_1)
  qed
  have z: "unat (ps_network sub) = 2 ^ k * (unat a div 2 ^ k)" using unat_or_low [of k 0 a] k net by simp
  have "unat (ps_network sub OR 1) = unat (ps_network sub) + 1" using unat_or_low [of k 1 a] k four net z by simp
  moreover have "unat (ps_network sub OR (hosts - 2)) = unat (ps_network sub) + (2 ^ k - 2)" using unat_or_low [of k "hosts - 2" a] k four net z d by simp
  moreover have "unat (broadcast sub) = unat (ps_network sub) + (2 ^ k - 1)"
    unfolding b m using unat_or_low [of k "NOT (push_bit k (- 1))" a] k four net z nm by simp
  ultimately show ?thesis using t2 four by simp
qed

lemma new_with_tun_range:
  assumes "IpPool_new_with_tun config tun = Ok s"
  shows "\<exists>sub. pool_subnet (cidr config) = Ok sub \<and> ps_prefix sub \<le> 30 \<and> ps_prefix sub \<noteq> 0 \<and> start_ip s = ps_network sub OR 1 \<and>
    end_ip s = (let hosts = push_bit (32 - unat (ps_prefix sub)) 1 in ps_network sub OR (if 2 \<le> hosts then hosts - 2 else 0)) \<and>
    start_ip s \<le> tun \<and> tun \<le> end_ip s"
proof -
  obtain sub where sub: "pool_subnet (cidr config) = Ok sub"
    using assms by (auto simp: IpPool_new_with_tun_def parse_cidr_def split: sum.split_asm)
  define hosts where "hosts = push_bit (32 - unat (ps_prefix sub)) (1 :: u32)"
  define hi where "hi = ps_network sub OR (if 2 \<le> hosts then hosts - 2 else 0)"
  have "\<not> 30 < ps_prefix sub \<and> ps_prefix sub \<noteq> 0 \<and> \<not> (tun < ps_network sub OR 1 \<or> hi < tun) \<and> start_ip s = ps_network sub OR 1 \<and> end_ip s = hi"
    using assms sub unfolding IpPool_new_with_tun_def parse_cidr_def Let_def hi_def hosts_def
    by (auto split: if_split_asm sum.split_asm prod.split_asm)
  then show ?thesis using sub by (auto simp: hi_def hosts_def Let_def not_less)
qed

lemma automatic_window:
  assumes "(lo :: u32) \<le> tun" "tun \<le> hi" "lo < hi"
  shows "case dhcp_default_bounds lo hi tun None None of (s, e) \<Rightarrow> s \<le> e \<and> lo \<le> s \<and> s \<le> hi \<and> lo \<le> e \<and> e \<le> hi \<and> \<not> (s \<le> tun \<and> tun \<le> e)"
proof (cases "tun - lo \<le> hi - tun \<and> tun < hi")
  case True
  then have inc: "unat (tun + 1) = Suc (unat tun)" by (intro unat_inc(1)) auto
  show ?thesis using assms True inc by (simp add: dhcp_default_bounds_def word_le_nat_alt word_less_nat_alt)
next
  case False
  have "lo < tun"
  proof (rule ccontr)
    assume "\<not> lo < tun"
    then have "tun = lo" using assms(1) by simp
    then show False using False assms(3) by simp
  qed
  then have dec: "unat (tun - 1) = unat tun - 1" "0 < unat tun" by (simp_all add: unat_sub word_le_nat_alt word_less_nat_alt)
  have "dhcp_default_bounds lo hi tun None None = (lo, tun - 1)" using False assms by (auto simp: dhcp_default_bounds_def)
  then show ?thesis using assms \<open>lo < tun\<close> dec by (auto simp: word_le_nat_alt word_less_nat_alt)
qed

text \<open>
  C36. The DHCP window and the pool agree: for a profile whose pool can be built there is always an automatic window, and any
  window the configuration accepts - automatic, explicit or with one bound given - is a range of the pool's own host
  addresses that leaves out the server's.
\<close>

theorem dhcp_window_inside_pool:
  assumes "IpPool_new_with_tun config tun = Ok s"
  shows "(\<exists>w. dhcp_pool_bounds None None (cidr config) tun = Ok w) \<and>
    (\<forall>ps pe lo hi. dhcp_pool_bounds ps pe (cidr config) tun = Ok (lo, hi) \<longrightarrow>
      start_ip s \<le> lo \<and> lo \<le> hi \<and> hi \<le> end_ip s \<and> \<not> (lo \<le> tun \<and> tun \<le> hi))"
proof -
  obtain sub where sub: "pool_subnet (cidr config) = Ok sub" "ps_prefix sub \<le> 30" "ps_prefix sub \<noteq> 0" and st: "start_ip s = ps_network sub OR 1"
    and en: "end_ip s = (let hosts = push_bit (32 - unat (ps_prefix sub)) 1 in ps_network sub OR (if 2 \<le> hosts then hosts - 2 else 0))"
    and tun: "start_ip s \<le> tun" "tun \<le> end_ip s"
    using new_with_tun_range [OF assms] by blast
  define k where "k = 32 - unat (ps_prefix sub)"
  note h = subnet_hosts [OF sub, folded k_def]
  define N where "N = ps_network sub"
  define B where "B = broadcast sub"
  have nat: "unat (start_ip s) = unat N + 1" "unat (end_ip s) = unat N + (2 ^ k - 2)" "unat B = unat N + (2 ^ k - 1)" "4 \<le> (2 :: nat) ^ k"
    using h st en by (simp_all add: Let_def N_def B_def k_def)
  have lt: "unat B < 4294967296" by (rule unat_u32_less)
  have lo: "N + 1 = start_ip s" using nat lt by (simp add: word_unat_eq_iff unat_word_ariths)
  have hi: "B - 1 = end_ip s" using nat lt by (simp add: word_unat_eq_iff unat_sub word_le_nat_alt)
  have NB: "N \<le> B" "unat (B - N) = 2 ^ k - 1" using nat by (simp_all add: word_le_nat_alt unat_sub)
  have wide: "\<not> (if N \<le> B then B - N else 0) < 3" using NB nat(4) by (simp add: word_less_nat_alt)
  have less: "start_ip s < end_ip s" using nat by (simp add: word_less_nat_alt)
  have run: "dhcp_pool_bounds ps pe (cidr config) tun =
      (case dhcp_parse InvalidPoolStart ps of
         Inl e \<Rightarrow> Err e
       | Inr cs \<Rightarrow> (case dhcp_parse InvalidPoolEnd pe of
           Inl e \<Rightarrow> Err e
         | Inr ce \<Rightarrow> (let (ds, de) = dhcp_default_bounds (start_ip s) (end_ip s) tun cs ce;
               start = (case cs of None \<Rightarrow> ds | Some s \<Rightarrow> s); fin = (case ce of None \<Rightarrow> de | Some e \<Rightarrow> e)
             in if fin < start then Err EndBelowStart
                else if start < start_ip s \<or> end_ip s < start then Err PoolStartOutside
                else if fin < start_ip s \<or> end_ip s < fin then Err PoolEndOutside
                else if start \<le> tun \<and> tun \<le> fin then Err RangeContainsTun
                else Ok (start, fin))))" for ps pe
    using wide tun unfolding dhcp_pool_bounds_def sub(1) sum.case Let_def N_def [symmetric] B_def [symmetric] lo hi by (simp add: leD)
  obtain a b where "dhcp_default_bounds (start_ip s) (end_ip s) tun None None = (a, b)" by fastforce
  then have "dhcp_pool_bounds None None (cidr config) tun = Ok (a, b)"
    using automatic_window [OF tun less] unfolding run by (auto simp: dhcp_parse_def Let_def not_less)
  then have "\<exists>w. dhcp_pool_bounds None None (cidr config) tun = Ok w" ..
  moreover have "start_ip s \<le> lo \<and> lo \<le> hi \<and> hi \<le> end_ip s \<and> \<not> (lo \<le> tun \<and> tun \<le> hi)"
    if "dhcp_pool_bounds ps pe (cidr config) tun = Ok (lo, hi)" for ps pe lo hi
    using that unfolding run by (auto simp: Let_def not_less split: sum.split_asm prod.split_asm if_split_asm)
  ultimately show ?thesis by blast
qed

theorem dhcp_window_inside_pool_witness:
  "\<exists>w. dhcp_pool_bounds None None (cidr demo_config) 0x0A070001 = Ok w"
  using dhcp_window_inside_pool [OF demo_new_ok] by blast

end
