(* ===== verification/Dhcp.thy ===== *)
theory Dhcp
  imports Dhcp_Packet Rate_Limiter Pool_Window
begin

text \<open>
  The DHCP server of \<^verbatim>\<open>server/dhcp.rs\<close>, which leases addresses of the pool it shares with the VPN sessions. Its state is the
  record \<open>DhcpServer\<close>; the shared pool is threaded beside it. A handler's answer is the datagram given to the socket with
  its destination. Seconds since the start of the server are a \<open>u64\<close> argument. The handlers run on packets that
  \<open>validate_request\<close> accepted, so their reads of the fixed 240-byte header are in range.
\<close>

section \<open>State\<close>

record DhcpLease =
  dl_ip :: Ipv4Addr
  dl_mac :: bytes
  expires_at :: u64

record DhcpServer =
  server_ip :: Ipv4Addr
  subnet_mask :: Ipv4Addr
  gateway :: Ipv4Addr
  dns_servers :: "Ipv4Addr list"
  domain_name :: bytes
  lease_time_secs :: u32
  pool_start :: u32
  pool_end :: u32
  leases :: "DhcpLease option list"
  declined :: "(Ipv4Addr \<times> u64) list"
  recv_limiter :: RateLimiter

definition MAX_DHCP_POOL :: nat where
  "MAX_DHCP_POOL = 2 ^ 20"

definition DhcpServer_new :: "Ipv4Addr \<Rightarrow> Ipv4Addr \<Rightarrow> Ipv4Addr \<Rightarrow> Ipv4Addr list \<Rightarrow> bytes \<Rightarrow> u32 \<Rightarrow> Ipv4Addr \<Rightarrow> Ipv4Addr \<Rightarrow> instant \<Rightarrow> DhcpServer" where
  "DhcpServer_new srv snm gw dns dname lease_time lo hi now =
     (let first = u32_from_ip lo; fin = u32_from_ip hi;
          pool_size = (if first \<le> fin then min (unat (fin - first) + 1) MAX_DHCP_POOL else 0)
      in \<lparr>server_ip = srv, subnet_mask = snm, gateway = gw, dns_servers = dns, domain_name = dname, lease_time_secs = lease_time,
          pool_start = first, pool_end = fin, leases = replicate pool_size None, declined = [], recv_limiter = RateLimiter_new 60 10 now\<rparr>)"

definition OFFER_RESERVATION_SECS :: u64 where
  "OFFER_RESERVATION_SECS = 30"

definition DECLINE_QUARANTINE_SECS :: u64 where
  "DECLINE_QUARANTINE_SECS = 600"

definition sat_add64 :: "u64 \<Rightarrow> u64 \<Rightarrow> u64" where
  "sat_add64 a b = (if a + b < a then - 1 else a + b)"

definition hex_digit :: "nat \<Rightarrow> char" where
  "hex_digit n = ''0123456789abcdef'' ! n"

definition hex2 :: "u8 \<Rightarrow> string" where
  "hex2 b = [hex_digit (unat b div 16), hex_digit (unat b mod 16)]"

definition lease_key :: "bytes \<Rightarrow> string" where
  "lease_key mac = ''dhcp:'' @ concat (map hex2 mac)"

section \<open>Answers\<close>

definition copy_at :: "nat \<Rightarrow> bytes \<Rightarrow> bytes \<Rightarrow> bytes" where
  "copy_at off bs xs = take off xs @ bs @ drop (off + length bs) xs"

definition build_nak :: "DhcpServer \<Rightarrow> bytes \<Rightarrow> bytes" where
  "build_nak s request =
     (let r0 = (replicate 240 0)[0 := BOOTP_REPLY, 1 := 1, 2 := 6];
          r1 = copy_at 4 (slice 4 8 request) r0;
          r2 = copy_at 8 (slice 8 12 request) r1;
          r3 = copy_at 20 (to_be_bytes (server_ip s)) r2;
          r4 = copy_at 24 (slice 24 28 request) r3;
          r5 = copy_at 28 (slice 28 34 request) r4;
          r6 = r5[236 := 99, 237 := 130, 238 := 83, 239 := 99];
          options = [DHCP_OPTION_MSG_TYPE, 1, DHCP_MSG_TYPE_NAK] @ [DHCP_OPTION_SERVER_ID, 4] @ to_be_bytes (server_ip s) @ [DHCP_OPTION_END]
      in r6 @ options)"

definition reply_options :: "DhcpServer \<Rightarrow> u8 \<Rightarrow> bytes" where
  "reply_options s msg_type =
     (let t1 = lease_time_secs s div 2;
          t2 = ucast ((ucast (lease_time_secs s) :: u64) * 3 div 4) :: u32
      in [DHCP_OPTION_MSG_TYPE, 1, msg_type] @ [DHCP_OPTION_SUBNET_MASK, 4] @ to_be_bytes (subnet_mask s)
         @ [DHCP_OPTION_ROUTER, 4] @ to_be_bytes (gateway s)
         @ (if dns_servers s \<noteq> [] then [DHCP_OPTION_DNS, of_nat (4 * length (dns_servers s))] @ concat (map to_be_bytes (dns_servers s)) else [])
         @ [DHCP_OPTION_LEASE_TIME, 4] @ to_be_bytes (lease_time_secs s)
         @ [DHCP_OPTION_RENEWAL_TIME, 4] @ to_be_bytes t1
         @ [DHCP_OPTION_REBINDING_TIME, 4] @ to_be_bytes t2
         @ [DHCP_OPTION_SERVER_ID, 4] @ to_be_bytes (server_ip s)
         @ (if domain_name s \<noteq> [] \<and> length (domain_name s) \<le> 255
            then [DHCP_OPTION_DOMAIN_NAME, of_nat (length (domain_name s))] @ domain_name s else [])
         @ [DHCP_OPTION_END])"

definition build_reply :: "DhcpServer \<Rightarrow> bytes \<Rightarrow> Ipv4Addr \<Rightarrow> u8 \<Rightarrow> (DhcpError, bytes) result" where
  "build_reply s request offered_ip msg_type =
     (if 63 < length (dns_servers s) then Err TooManyDnsServers
      else let r0 = (replicate 240 0)[0 := BOOTP_REPLY, 1 := 1, 2 := 6, 3 := 0];
               r1 = copy_at 4 (slice 4 8 request) r0;
               r2 = copy_at 8 (slice 8 12 request) r1;
               r3 = copy_at 16 (to_be_bytes offered_ip) r2;
               r4 = copy_at 20 (to_be_bytes (server_ip s)) r3;
               r5 = copy_at 24 (slice 24 28 request) r4;
               r6 = copy_at 28 (slice 28 34 request) r5;
               r7 = r6[236 := 99, 237 := 130, 238 := 83, 239 := 99]
           in Ok (r7 @ reply_options s msg_type))"

section \<open>Leases\<close>

definition expired_lease :: "u64 \<Rightarrow> DhcpLease \<Rightarrow> bool" where
  "expired_lease now_secs lease \<longleftrightarrow> expires_at lease \<le> now_secs"

definition reap_expired_at :: "u64 \<Rightarrow> DhcpServer \<times> IpPool \<Rightarrow> nat \<times> DhcpServer \<times> IpPool" where
  "reap_expired_at now_secs = (\<lambda>(s, pool).
     let expired_keys = map (\<lambda>l. lease_key (dl_mac l)) (filter (expired_lease now_secs) (List.map_filter id (leases s)));
         s1 = s\<lparr>leases := map (\<lambda>slot. case slot of Some l \<Rightarrow> if expired_lease now_secs l then None else Some l | None \<Rightarrow> None) (leases s),
                declined := filter (\<lambda>(_, expires). now_secs < expires) (declined s)\<rparr>
     in (length expired_keys, s1, fold release expired_keys pool))"

fun find_slot :: "('a \<Rightarrow> bool) \<Rightarrow> 'a option list \<Rightarrow> nat option" where
  "find_slot P [] = None"
| "find_slot P (slot # slots) =
     (if (case slot of Some l \<Rightarrow> P l | None \<Rightarrow> False) then Some 0 else map_option Suc (find_slot P slots))"

definition release_client_address :: "bytes \<Rightarrow> Ipv4Addr \<Rightarrow> bool \<Rightarrow> u64 \<Rightarrow> DhcpServer \<times> IpPool \<Rightarrow> DhcpServer \<times> IpPool" where
  "release_client_address mac addr quarantine now = (\<lambda>(s, pool).
     case find_slot (\<lambda>l. dl_mac l = mac \<and> dl_ip l = addr) (leases s) of
       None \<Rightarrow> (s, pool)
     | Some i \<Rightarrow>
         (let s1 = s\<lparr>leases := (leases s)[i := None]\<rparr>;
              pool1 = (if get_ip_by_username (lease_key mac) pool = Some addr then release (lease_key mac) pool else pool)
          in (if quarantine then s1\<lparr>declined := AList.update addr (sat_add64 now DECLINE_QUARANTINE_SECS) (declined s1)\<rparr> else s1, pool1)))"

text \<open>The preferred address, where it is in the window, not quarantined, its slot is empty and nobody holds it.\<close>

definition allocate_preferred :: "bytes \<Rightarrow> Ipv4Addr option \<Rightarrow> u64 \<Rightarrow> DhcpServer \<times> IpPool \<Rightarrow> Ipv4Addr option \<times> DhcpServer \<times> IpPool" where
  "allocate_preferred mac preferred expiry = (\<lambda>(s, pool).
     case preferred of
       None \<Rightarrow> (None, s, pool)
     | Some pref \<Rightarrow>
         (let pref_u32 = u32_from_ip pref; idx = unat (pref_u32 - pool_start s) in
          if pool_start s \<le> pref_u32 \<and> pref_u32 \<le> pool_end s \<and> pref_u32 \<notin> u32_from_ip ` fst ` set (declined s)
             \<and> idx < length (leases s) \<and> leases s ! idx = None \<and> get_ip_by_username (lease_key mac) pool = None
          then (case allocate_fixed_unclaimed (lease_key mac) pref pool of
                  (None, pool1) \<Rightarrow> (None, s, pool1)
                | (Some _, pool1) \<Rightarrow>
                    (Some pref, s\<lparr>leases := (leases s)[idx := Some \<lparr>dl_ip = pref, dl_mac = mac, expires_at = expiry\<rparr>]\<rparr>, pool1))
          else (None, s, pool)))"

definition allocate_window :: "bytes \<Rightarrow> u64 \<Rightarrow> DhcpServer \<times> IpPool \<Rightarrow> Ipv4Addr option \<times> DhcpServer \<times> IpPool" where
  "allocate_window mac expiry = (\<lambda>(s, pool).
     case allocate_in_range_excluding (lease_key mac) (pool_start s) (pool_end s) (u32_from_ip ` fst ` set (declined s)) pool of
       (None, pool1) \<Rightarrow> (None, s, pool1)
     | (Some a, pool1) \<Rightarrow>
         (let idx = unat (u32_from_ip a - pool_start s)
          in if idx < length (leases s)
             then (Some a, s\<lparr>leases := (leases s)[idx := Some \<lparr>dl_ip = a, dl_mac = mac, expires_at = expiry\<rparr>]\<rparr>, pool1)
             else (None, s, release (lease_key mac) pool1)))"

definition allocate_fresh :: "bytes \<Rightarrow> Ipv4Addr option \<Rightarrow> u64 \<Rightarrow> bool \<Rightarrow> DhcpServer \<times> IpPool \<Rightarrow> Ipv4Addr option \<times> DhcpServer \<times> IpPool" where
  "allocate_fresh mac preferred expiry allow_fallback st =
     (case allocate_preferred mac preferred expiry st of
        (Some a, st1) \<Rightarrow> (Some a, st1)
      | (None, st1) \<Rightarrow> if \<not> allow_fallback then (None, st1) else allocate_window mac expiry st1)"

definition allocate_ip :: "bytes \<Rightarrow> Ipv4Addr option \<Rightarrow> bool \<Rightarrow> bool \<Rightarrow> u64 \<Rightarrow> DhcpServer \<times> IpPool \<Rightarrow> Ipv4Addr option \<times> DhcpServer \<times> IpPool" where
  "allocate_ip mac preferred offer_only allow_fallback now_secs st0 =
     (let hold_secs = (if offer_only then OFFER_RESERVATION_SECS else ucast (lease_time_secs (fst st0)));
          expiry = sat_add64 now_secs hold_secs;
          (s, pool) = snd (reap_expired_at now_secs st0)
      in case find_slot (\<lambda>l. \<not> (dl_mac l \<noteq> mac \<or> expires_at l \<le> now_secs)) (leases s) of
           None \<Rightarrow> allocate_fresh mac preferred expiry allow_fallback (s, pool)
         | Some i \<Rightarrow>
             (let lease = the (leases s ! i) in
              if get_ip_by_username (lease_key mac) pool = Some (dl_ip lease)
              then if \<not> allow_fallback \<and> preferred \<noteq> Some (dl_ip lease) then (None, s, pool)
                   else (Some (dl_ip lease),
                         s\<lparr>leases := (leases s)[i := Some (lease\<lparr>expires_at := (if offer_only then max (expires_at lease) expiry else expiry)\<rparr>)]\<rparr>, pool)
              else allocate_fresh mac preferred expiry allow_fallback (s\<lparr>leases := (leases s)[i := None]\<rparr>, pool)))"

section \<open>Handlers\<close>

type_synonym answer = "(bytes \<times> Ipv4Addr \<times> u16) option"

definition requested_option :: "bytes \<Rightarrow> Ipv4Addr option" where
  "requested_option data = Option.bind (find_dhcp_option data 50) option_addr"

definition handle_discover :: "bytes \<Rightarrow> u64 \<Rightarrow> DhcpServer \<times> IpPool \<Rightarrow> (DhcpError, answer) result \<times> DhcpServer \<times> IpPool" where
  "handle_discover data now st =
     (case allocate_ip (slice 28 34 data) (requested_option data) True True now st of
        (None, st1) \<Rightarrow> (Err NoIpAvailable, st1)
      | (Some offered_ip, st1) \<Rightarrow>
          (case build_reply (fst st1) data offered_ip DHCP_MSG_TYPE_OFFER of
             Inl e \<Rightarrow> (Err e, st1)
           | Inr reply \<Rightarrow> (Ok (Some (reply, reply_destination data)), st1)))"

definition requested_address :: "bytes \<Rightarrow> Ipv4Addr option" where
  "requested_address data =
     (case requested_option data of
        Some a \<Rightarrow> Some a
      | None \<Rightarrow> if ipv4_unspecified (addr_at 12 data) then None else Some (addr_at 12 data))"

definition handle_request :: "bytes \<Rightarrow> u64 \<Rightarrow> DhcpServer \<times> IpPool \<Rightarrow> (DhcpError, answer) result \<times> DhcpServer \<times> IpPool" where
  "handle_request data now st =
     (if addressed_to_other_server data (server_ip (fst st)) then (Ok None, st)
      else let requested_ip = requested_address data;
               (grant, st1) = allocate_ip (slice 28 34 data) requested_ip False False now st
           in case requested_ip of
                None \<Rightarrow> (Ok None, st1)
              | Some req \<Rightarrow>
                  if grant = Some req
                  then (case build_reply (fst st1) data req DHCP_MSG_TYPE_ACK of
                          Inl e \<Rightarrow> (Err e, st1)
                        | Inr reply \<Rightarrow> (Ok (Some (reply, reply_destination data)), st1))
                  else (Ok (Some (build_nak (fst st1) data, nak_destination data)), st1))"

definition handle_release :: "bytes \<Rightarrow> u64 \<Rightarrow> DhcpServer \<times> IpPool \<Rightarrow> DhcpServer \<times> IpPool" where
  "handle_release data now st =
     (if addressed_to_other_server data (server_ip (fst st)) \<or> ipv4_unspecified (addr_at 12 data) then st
      else release_client_address (slice 28 34 data) (addr_at 12 data) False now st)"

definition handle_decline :: "bytes \<Rightarrow> u64 \<Rightarrow> DhcpServer \<times> IpPool \<Rightarrow> DhcpServer \<times> IpPool" where
  "handle_decline data now st =
     (if addressed_to_other_server data (server_ip (fst st)) then st
      else case requested_option data of
             None \<Rightarrow> st
           | Some a \<Rightarrow> release_client_address (slice 28 34 data) a True now st)"

definition handle_packet :: "bytes \<Rightarrow> IpAddr \<Rightarrow> instant \<Rightarrow> u64 \<Rightarrow> DhcpServer \<times> IpPool \<Rightarrow> (DhcpError, answer) result \<times> DhcpServer \<times> IpPool" where
  "handle_packet data src tnow now = (\<lambda>(s, pool).
     case validate_request data of
       Inl e \<Rightarrow> (Err e, s, pool)
     | Inr _ \<Rightarrow>
         (let key = (case client_mac_key data of Some k \<Rightarrow> k | None \<Rightarrow> src);
              (ok, rl) = rl_check_and_record tnow key (recv_limiter s);
              s1 = s\<lparr>recv_limiter := rl\<rparr>
          in if \<not> ok then (Ok None, s1, pool)
             else let msg_type = Option.bind (find_dhcp_option data DHCP_OPTION_MSG_TYPE) (\<lambda>opt. if 2 < length opt then Some (opt ! 2) else None)
                  in if msg_type = Some 1 then handle_discover data now (s1, pool)
                     else if msg_type = Some 3 then handle_request data now (s1, pool)
                     else if msg_type = Some DHCP_MSG_TYPE_DECLINE then (Ok None, handle_decline data now (s1, pool))
                     else if msg_type = Some DHCP_MSG_TYPE_RELEASE then (Ok None, handle_release data now (s1, pool))
                     else (Err UnsupportedMessageType, s1, pool)))"

end
