(* ===== verification/Dhcp_Laws.thy ===== *)
theory Dhcp_Laws
  imports Dhcp
begin

text \<open>
  The DHCP server against the pool it shares: what it answers is leased to the client it answers, and no DHCP packet touches
  the lease of a VPN session.
\<close>

section \<open>Addresses and words\<close>

lemma u32_be_bytes: "to_be_bytes (a :: u32) = [ucast (drop_bit 24 a), ucast (drop_bit 16 a), ucast (drop_bit 8 a), ucast a]"
  by (simp add: to_be_bytes_def to_le_bytes_code upt_rec)

lemma u32_octets:
  fixes a :: u32
  shows "push_bit 24 (ucast (ucast (drop_bit 24 a) :: u8)) OR push_bit 16 (ucast (ucast (drop_bit 16 a) :: u8)) OR
    push_bit 8 (ucast (ucast (drop_bit 8 a) :: u8)) OR ucast (ucast a :: u8) = a"
proof (rule bit_word_eqI)
  fix n
  assume "n < LENGTH(32)"
  consider "n < 8" | "8 \<le> n" "n < 16" | "16 \<le> n" "n < 24" | "24 \<le> n" by linarith
  then show "bit (push_bit 24 (ucast (ucast (drop_bit 24 a) :: u8)) OR push_bit 16 (ucast (ucast (drop_bit 16 a) :: u8)) OR
    push_bit 8 (ucast (ucast (drop_bit 8 a) :: u8)) OR ucast (ucast a :: u8) :: u32) n = bit a n"
    using \<open>n < LENGTH(32)\<close> by cases (auto simp: bit_simps)
qed

lemma u32_from_ip_id [simp]: "u32_from_ip a = a"
  by (simp add: u32_from_ip_def u32_be_bytes Let_def u32_octets)

lemma ip_from_u32_id: "ip_from_u32 v = v"
proof -
  have "ip_from_u32 v = from_be_bytes (to_be_bytes v)" by (simp add: ip_from_u32_def ipv4_new_def u32_be_bytes)
  then show ?thesis by (simp add: from_to_be_bytes)
qed

section \<open>The leases of the VPN sessions\<close>

definition vpn_key :: "string \<Rightarrow> bool" where
  "vpn_key k \<longleftrightarrow> take 5 k \<noteq> ''dhcp:''"

lemma lease_key_not_vpn [simp]: "\<not> vpn_key (lease_key mac)"
  by (simp add: vpn_key_def lease_key_def)

definition vpn_same :: "IpPool \<Rightarrow> IpPool \<Rightarrow> bool" where
  "vpn_same pool pool' \<longleftrightarrow> pool_reach pool' \<and>
     (\<forall>k. vpn_key k \<longrightarrow> get_ip_by_username k pool' = get_ip_by_username k pool \<and> get_ipv6_by_username k pool' = get_ipv6_by_username k pool)"

lemma vpn_same_refl: "pool_reach pool \<Longrightarrow> vpn_same pool pool"
  by (simp add: vpn_same_def)

lemma vpn_same_trans: "vpn_same p q \<Longrightarrow> vpn_same q r \<Longrightarrow> vpn_same p r"
  by (simp add: vpn_same_def)

lemma vpn_same_reach: "vpn_same p q \<Longrightarrow> pool_reach q"
  by (simp add: vpn_same_def)

lemma release_leases:
  assumes "pool_reach pool"
  shows "lease_map (release key pool) = (lease_map pool)(key := None) \<and> leases6 (release key pool) = (leases6 pool)(key := None)"
  using release_ipv4_result [OF reach_inv4 [OF assms], of key]
  by (auto simp: release_def leases6_def release_map split: option.split)

lemma vpn_same_release: "pool_reach pool \<Longrightarrow> \<not> vpn_key key \<Longrightarrow> vpn_same pool (release key pool)"
  using release_leases [of pool key] by (auto simp: vpn_same_def intro: reach_release)

lemma vpn_same_releases:
  "pool_reach pool \<Longrightarrow> (\<And>k. k \<in> set ks \<Longrightarrow> \<not> vpn_key k) \<Longrightarrow> vpn_same pool (fold release ks pool)"
proof (induction ks arbitrary: pool)
  case (Cons k ks)
  have "vpn_same pool (release k pool)" using Cons.prems by (intro vpn_same_release) simp_all
  then show ?case using Cons vpn_same_trans vpn_same_reach by (metis fold_simps(2) list.set_intros(2))
qed (simp add: vpn_same_refl)

lemma leases6_frame: "ipv6 s' = ipv6 s \<Longrightarrow> leases6 s' = leases6 s"
  by (simp add: leases6_def)

lemma vpn_same_unclaimed:
  assumes "pool_reach pool" and "\<not> vpn_key key" and "allocate_fixed_unclaimed key v pool = (r, pool')"
  shows "vpn_same pool pool' \<and> (r \<noteq> None \<longrightarrow> get_ip_by_username key pool' = Some v)"
proof -
  note u = unclaimed_result [OF reach_inv4 [OF assms(1)] assms(3)]
  have "k \<noteq> key" if "vpn_key k" for k using that assms(2) by auto
  then show ?thesis using u reach_unclaimed [OF assms(1,3)] leases6_frame [of pool' pool] by (auto simp: vpn_same_def split: option.splits)
qed

lemma vpn_same_range:
  assumes "pool_reach pool" and "\<not> vpn_key key" and "allocate_in_range_excluding key lo hi tmp pool = (r, pool')"
  shows "vpn_same pool pool' \<and> (case r of None \<Rightarrow> True | Some v \<Rightarrow> lo \<le> v \<and> v \<le> hi \<and> get_ip_by_username key pool' = Some v)"
proof -
  note u = in_range_result [OF reach_inv4 [OF assms(1)] assms(3)]
  have "k \<noteq> key" if "vpn_key k" for k using that assms(2) by auto
  then show ?thesis using u reach_range [OF assms(1,3)] leases6_frame [of pool' pool] by (auto simp: vpn_same_def split: option.splits)
qed

section \<open>The lease table\<close>

text \<open>The lease in a slot is for the address of the slot.\<close>

definition dhcp_inv :: "DhcpServer \<Rightarrow> bool" where
  "dhcp_inv s \<longleftrightarrow> (\<forall>i l. i < length (leases s) \<longrightarrow> leases s ! i = Some l \<longrightarrow> unat (dl_ip l) = unat (pool_start s) + i \<and> dl_ip l \<le> pool_end s)"

text \<open>The configuration and the size of the table never change.\<close>

definition same_conf :: "DhcpServer \<Rightarrow> DhcpServer \<Rightarrow> bool" where
  "same_conf s s' \<longleftrightarrow> s' = s\<lparr>leases := leases s', declined := declined s'\<rparr> \<and> length (leases s') = length (leases s)"

lemma same_conf_refl: "same_conf s s"
  by (simp add: same_conf_def)

lemma same_conf_fields: "same_conf s s' \<Longrightarrow> server_ip s' = server_ip s \<and> pool_start s' = pool_start s \<and> pool_end s' = pool_end s \<and>
    dns_servers s' = dns_servers s \<and> lease_time_secs s' = lease_time_secs s \<and> length (leases s') = length (leases s)"
  unfolding same_conf_def by (metis DhcpServer.ext_inject DhcpServer.surjective DhcpServer.update_convs(9,10))

lemma same_conf_trans: "same_conf a b \<Longrightarrow> same_conf b c \<Longrightarrow> same_conf a c"
  by (cases a; cases b; cases c) (simp add: same_conf_def)

lemma find_slot_Some: "find_slot P xs = Some i \<Longrightarrow> i < length xs \<and> (\<exists>l. xs ! i = Some l \<and> P l)"
  by (induction xs arbitrary: i) (auto split: if_splits option.splits)

lemma nth_update_cases: "xs[i := x] ! j = Some l \<Longrightarrow> j < length xs \<Longrightarrow> j = i \<and> x = Some l \<or> xs ! j = Some l"
  by (cases "i = j") auto

lemma dhcp_inv_update:
  assumes "dhcp_inv s" and "\<And>l. x = Some l \<Longrightarrow> unat (dl_ip l) = unat (pool_start s) + i \<and> dl_ip l \<le> pool_end s"
  shows "dhcp_inv (s\<lparr>leases := (leases s)[i := x]\<rparr>)"
  unfolding dhcp_inv_def
proof (intro allI impI)
  fix j l
  assume "j < length (leases (s\<lparr>leases := (leases s)[i := x]\<rparr>))" and at: "leases (s\<lparr>leases := (leases s)[i := x]\<rparr>) ! j = Some l"
  then have j: "j < length (leases s)" by simp
  have "j = i \<and> x = Some l \<or> leases s ! j = Some l" using nth_update_cases [OF _ j] at by simp
  then show "unat (dl_ip l) = unat (pool_start (s\<lparr>leases := (leases s)[i := x]\<rparr>)) + j \<and> dl_ip l \<le> pool_end (s\<lparr>leases := (leases s)[i := x]\<rparr>)"
  proof
    assume "j = i \<and> x = Some l"
    then show ?thesis using assms(2) [of l] by simp
  next
    assume "leases s ! j = Some l"
    then show ?thesis using assms(1) j by (simp add: dhcp_inv_def)
  qed
qed

lemma dhcp_inv_clear: "dhcp_inv s \<Longrightarrow> dhcp_inv (s\<lparr>leases := (leases s)[i := None]\<rparr>)"
  by (rule dhcp_inv_update) simp_all

lemma dhcp_inv_fill:
  assumes "dhcp_inv s" and "pool_start s \<le> dl_ip l" and "dl_ip l \<le> pool_end s"
  shows "dhcp_inv (s\<lparr>leases := (leases s)[unat (dl_ip l - pool_start s) := Some l]\<rparr>)"
  by (rule dhcp_inv_update) (use assms in \<open>auto simp: unat_sub word_le_nat_alt\<close>)

lemma same_conf_update [simp]: "same_conf s (s\<lparr>leases := (leases s)[i := x]\<rparr>)"
  by (simp add: same_conf_def)

section \<open>Reaping and allocating\<close>

lemma reap_result:
  assumes "pool_reach pool" and "dhcp_inv s" and "reap_expired_at now (s, pool) = (n, s', pool')"
  shows "vpn_same pool pool' \<and> dhcp_inv s' \<and> same_conf s s'"
proof -
  let ?f = "\<lambda>slot. case slot of Some l \<Rightarrow> if expired_lease now l then None else Some l | None \<Rightarrow> None"
  have s': "s' = s\<lparr>leases := map ?f (leases s), declined := filter (\<lambda>(_, expires). now < expires) (declined s)\<rparr>"
    and pool': "pool' = fold release (map (\<lambda>l. lease_key (dl_mac l)) (filter (expired_lease now) (List.map_filter id (leases s)))) pool"
    using assms(3) by (simp_all add: reap_expired_at_def Let_def)
  have "vpn_same pool pool'" unfolding pool' by (rule vpn_same_releases [OF assms(1)]) auto
  moreover have "dhcp_inv s'" using assms(2) unfolding s' dhcp_inv_def by (auto split: option.split_asm if_split_asm)
  moreover have "same_conf s s'" unfolding s' by (simp add: same_conf_def)
  ultimately show ?thesis by blast
qed

text \<open>What every allocation step guarantees.\<close>

definition alloc_ok :: "bytes \<Rightarrow> DhcpServer \<Rightarrow> IpPool \<Rightarrow> Ipv4Addr option \<Rightarrow> DhcpServer \<Rightarrow> IpPool \<Rightarrow> bool" where
  "alloc_ok mac s pool r s' pool' \<longleftrightarrow> vpn_same pool pool' \<and> dhcp_inv s' \<and> same_conf s s' \<and>
     (case r of None \<Rightarrow> True | Some a \<Rightarrow> pool_start s \<le> a \<and> a \<le> pool_end s \<and> get_ip_by_username (lease_key mac) pool' = Some a)"

lemma alloc_ok_after:
  assumes "vpn_same p0 pool" and "same_conf s0 s" and "alloc_ok mac s pool r s' pool'"
  shows "alloc_ok mac s0 p0 r s' pool'"
proof -
  have "vpn_same p0 pool'" "same_conf s0 s'" using assms vpn_same_trans same_conf_trans by (auto simp: alloc_ok_def)
  then show ?thesis using assms(3) same_conf_fields [OF assms(2)] unfolding alloc_ok_def by (cases r) simp_all
qed

lemma alloc_ok_none: "pool_reach pool \<Longrightarrow> dhcp_inv s \<Longrightarrow> alloc_ok mac s pool None s pool"
  by (simp add: alloc_ok_def vpn_same_refl same_conf_refl)

lemma preferred_result:
  assumes "pool_reach pool" and "dhcp_inv s" and "allocate_preferred mac preferred expiry (s, pool) = (r, s', pool')"
  shows "alloc_ok mac s pool r s' pool' \<and> (r = None \<or> r = preferred)"
proof (cases "r")
  case None
  show ?thesis
  proof (cases "pool' = pool")
    case True
    then have "s' = s" using assms(3) None by (auto simp: allocate_preferred_def Let_def split: option.split_asm if_split_asm prod.split_asm)
    then show ?thesis using None True alloc_ok_none [OF assms(1,2)] by simp
  next
    case False
    then obtain pref where call: "allocate_fixed_unclaimed (lease_key mac) pref pool = (None, pool')" and "s' = s"
      using assms(3) None by (auto simp: allocate_preferred_def Let_def split: option.split_asm if_split_asm prod.split_asm)
    then show ?thesis using None vpn_same_unclaimed [OF assms(1) _ call] assms(2) by (simp add: alloc_ok_def same_conf_refl)
  qed
next
  case (Some a)
  then obtain q where pref: "preferred = Some a" and win: "pool_start s \<le> a" "a \<le> pool_end s"
    and call: "allocate_fixed_unclaimed (lease_key mac) a pool = (Some q, pool')"
    and s': "s' = s\<lparr>leases := (leases s)[unat (a - pool_start s) := Some \<lparr>dl_ip = a, dl_mac = mac, expires_at = expiry\<rparr>]\<rparr>"
    using assms(3) by (auto simp: allocate_preferred_def Let_def split: option.split_asm if_split_asm prod.split_asm)
  have "dhcp_inv s'" unfolding s' using dhcp_inv_fill [OF assms(2), of "\<lparr>dl_ip = a, dl_mac = mac, expires_at = expiry\<rparr>"] win by simp
  moreover have "same_conf s s'" unfolding s' by simp
  ultimately show ?thesis using Some pref win vpn_same_unclaimed [OF assms(1) _ call] by (simp add: alloc_ok_def)
qed

lemma window_result:
  assumes "pool_reach pool" and "dhcp_inv s" and "allocate_window mac expiry (s, pool) = (r, s', pool')"
  shows "alloc_ok mac s pool r s' pool'"
proof -
  obtain q pool1 where call: "allocate_in_range_excluding (lease_key mac) (pool_start s) (pool_end s) (u32_from_ip ` fst ` set (declined s)) pool = (q, pool1)"
    by fastforce
  note done1 = vpn_same_range [OF assms(1) _ call]
  show ?thesis
  proof (cases q)
    case None
    then have "r = None" "s' = s" "pool' = pool1" using assms(3) call by (simp_all add: allocate_window_def)
    then show ?thesis using done1 assms(2) by (simp add: alloc_ok_def same_conf_refl)
  next
    case (Some a)
    note done1 = done1 [unfolded Some, simplified]
    show ?thesis
    proof (cases "unat (a - pool_start s) < length (leases s)")
      case True
      then have e: "r = Some a" "pool' = pool1"
        and s': "s' = s\<lparr>leases := (leases s)[unat (a - pool_start s) := Some \<lparr>dl_ip = a, dl_mac = mac, expires_at = expiry\<rparr>]\<rparr>"
        using assms(3) call Some by (simp_all add: allocate_window_def Let_def)
      have "dhcp_inv s'" unfolding s' using dhcp_inv_fill [OF assms(2), of "\<lparr>dl_ip = a, dl_mac = mac, expires_at = expiry\<rparr>"] done1 by simp
      moreover have "same_conf s s'" unfolding s' by simp
      ultimately show ?thesis using e done1 by (simp add: alloc_ok_def)
    next
      case False
      then have e: "r = None" "s' = s" "pool' = release (lease_key mac) pool1" using assms(3) call Some by (simp_all add: allocate_window_def Let_def)
      have "vpn_same pool pool'" unfolding e
        by (rule vpn_same_trans [OF _ vpn_same_release]) (use done1 vpn_same_reach in auto)
      then show ?thesis using e assms(2) by (simp add: alloc_ok_def same_conf_refl)
    qed
  qed
qed

lemma fresh_result:
  assumes "pool_reach pool" and "dhcp_inv s" and "allocate_fresh mac preferred expiry fb (s, pool) = (r, s', pool')"
  shows "alloc_ok mac s pool r s' pool' \<and> (fb \<or> r = None \<or> r = preferred)"
proof -
  obtain q s1 pool1 where pr: "allocate_preferred mac preferred expiry (s, pool) = (q, s1, pool1)" by (cases "allocate_preferred mac preferred expiry (s, pool)") auto
  note p = preferred_result [OF assms(1,2) pr]
  show ?thesis
  proof (cases "q = None \<and> fb")
    case True
    then have w: "allocate_window mac expiry (s1, pool1) = (r, s', pool')" using assms(3) pr by (simp add: allocate_fresh_def)
    have "alloc_ok mac s1 pool1 r s' pool'" by (rule window_result [OF _ _ w]) (use p vpn_same_reach in \<open>auto simp: alloc_ok_def\<close>)
    then have "alloc_ok mac s pool r s' pool'" using p alloc_ok_after unfolding alloc_ok_def [of mac s pool q] by blast
    then show ?thesis using True by simp
  next
    case False
    then have "r = q" "s' = s1" "pool' = pool1" using assms(3) pr by (auto simp: allocate_fresh_def split: option.split_asm)
    then show ?thesis using p by auto
  qed
qed

lemma allocate_ip_result:
  assumes "pool_reach pool" and "dhcp_inv s" and "allocate_ip mac preferred offer fb now (s, pool) = (r, s', pool')"
  shows "alloc_ok mac s pool r s' pool' \<and> (fb \<or> r = None \<or> r = preferred)"
proof -
  obtain n s1 pool1 where reap: "reap_expired_at now (s, pool) = (n, s1, pool1)" by (cases "reap_expired_at now (s, pool)") auto
  note reaped = reap_result [OF assms(1,2) reap]
  have reach1: "pool_reach pool1" and inv1: "dhcp_inv s1" using reaped vpn_same_reach by auto
  define expiry where "expiry = sat_add64 now (if offer then OFFER_RESERVATION_SECS else ucast (lease_time_secs s))"
  let ?find = "find_slot (\<lambda>l. \<not> (dl_mac l \<noteq> mac \<or> expires_at l \<le> now)) (leases s1)"
  have run: "(r, s', pool') = (case ?find of
           None \<Rightarrow> allocate_fresh mac preferred expiry fb (s1, pool1)
         | Some i \<Rightarrow>
             (let lease = the (leases s1 ! i) in
              if get_ip_by_username (lease_key mac) pool1 = Some (dl_ip lease)
              then if \<not> fb \<and> preferred \<noteq> Some (dl_ip lease) then (None, s1, pool1)
                   else (Some (dl_ip lease),
                         s1\<lparr>leases := (leases s1)[i := Some (lease\<lparr>expires_at := (if offer then max (expires_at lease) expiry else expiry)\<rparr>)]\<rparr>, pool1)
              else allocate_fresh mac preferred expiry fb (s1\<lparr>leases := (leases s1)[i := None]\<rparr>, pool1)))"
    using assms(3) unfolding allocate_ip_def Let_def fst_conv reap snd_conv prod.case expiry_def by (rule sym)
  have "alloc_ok mac s1 pool1 r s' pool' \<and> (fb \<or> r = None \<or> r = preferred)"
  proof (cases ?find)
    case None
    then have "allocate_fresh mac preferred expiry fb (s1, pool1) = (r, s', pool')" using run by simp
    then show ?thesis by (rule fresh_result [OF reach1 inv1])
  next
    case (Some i)
    then obtain l where i: "i < length (leases s1)" "leases s1 ! i = Some l" using find_slot_Some [OF Some] by blast
    have l: "unat (dl_ip l) = unat (pool_start s1) + i" "dl_ip l \<le> pool_end s1" using inv1 i by (auto simp: dhcp_inv_def)
    show ?thesis
    proof (cases "get_ip_by_username (lease_key mac) pool1 = Some (dl_ip l)")
      case True
      let ?l' = "l\<lparr>expires_at := (if offer then max (expires_at l) expiry else expiry)\<rparr>"
      have inv': "dhcp_inv (s1\<lparr>leases := (leases s1)[i := Some ?l']\<rparr>)" by (rule dhcp_inv_update [OF inv1]) (use l in auto)
      show ?thesis
      proof (cases "\<not> fb \<and> preferred \<noteq> Some (dl_ip l)")
        case True
        then have "r = None" "s' = s1" "pool' = pool1" using run Some i \<open>get_ip_by_username (lease_key mac) pool1 = Some (dl_ip l)\<close> by (simp_all add: Let_def)
        then show ?thesis using alloc_ok_none [OF reach1 inv1] by simp
      next
        case False
        then have e: "r = Some (dl_ip l)" "s' = s1\<lparr>leases := (leases s1)[i := Some ?l']\<rparr>" "pool' = pool1"
          using run Some i \<open>get_ip_by_username (lease_key mac) pool1 = Some (dl_ip l)\<close> by (simp_all only: Let_def option.case option.sel if_True if_False prod.inject simp_thms)
        have "alloc_ok mac s1 pool1 r s' pool'" unfolding alloc_ok_def e using inv' l True vpn_same_refl [OF reach1] by (simp add: word_le_nat_alt)
        then show ?thesis using False e by auto
      qed
    next
      case False
      let ?s2 = "s1\<lparr>leases := (leases s1)[i := None]\<rparr>"
      have f: "allocate_fresh mac preferred expiry fb (?s2, pool1) = (r, s', pool')" using run Some i False by (simp add: Let_def)
      note res = fresh_result [OF reach1 dhcp_inv_clear [OF inv1] f]
      then show ?thesis using alloc_ok_after [OF vpn_same_refl [OF reach1] same_conf_update conjunct1 [OF res]] by simp
    qed
  qed
  then show ?thesis using alloc_ok_after [OF conjunct1 [OF reaped] conjunct2 [OF conjunct2 [OF reaped]]] by simp
qed

lemma release_client_result:
  assumes "pool_reach pool" and "dhcp_inv s" and "release_client_address mac a q now (s, pool) = (s', pool')"
  shows "vpn_same pool pool' \<and> dhcp_inv s' \<and> same_conf s s'"
proof (cases "find_slot (\<lambda>l. dl_mac l = mac \<and> dl_ip l = a) (leases s)")
  case None
  then show ?thesis using assms vpn_same_refl same_conf_refl by (simp add: release_client_address_def)
next
  case (Some i)
  let ?s1 = "s\<lparr>leases := (leases s)[i := None]\<rparr>"
  have e: "s' = (if q then ?s1\<lparr>declined := AList.update a (sat_add64 now DECLINE_QUARANTINE_SECS) (declined ?s1)\<rparr> else ?s1)"
    "pool' = (if get_ip_by_username (lease_key mac) pool = Some a then release (lease_key mac) pool else pool)"
    using assms(3) Some by (simp_all only: release_client_address_def Let_def prod.case option.case prod.inject)
  have "vpn_same pool pool'" using vpn_same_release [OF assms(1)] vpn_same_refl [OF assms(1)] e(2) by simp
  moreover have "dhcp_inv s'" using dhcp_inv_clear [OF assms(2), of i] e(1) by (simp add: dhcp_inv_def)
  moreover have "same_conf s s'" unfolding e(1) by (simp add: same_conf_def)
  ultimately show ?thesis by blast
qed

end
