(* ===== verification/Dhcp_Replies.thy ===== *)
theory Dhcp_Replies
  imports Dhcp_Laws
begin

text \<open>
  What a client reads in the answers of the DHCP server, and the server over any interleaving of packets, reaper ticks and
  changes the VPN side makes to the shared pool.
\<close>

section \<open>Reading the options of an answer\<close>

definition option_wf :: "bytes \<Rightarrow> bool" where
  "option_wf opt \<longleftrightarrow> 2 \<le> length opt \<and> opt ! 0 \<noteq> 0 \<and> opt ! 0 \<noteq> DHCP_OPTION_END \<and> opt ! 0 \<noteq> 52 \<and> length opt = 2 + unat (opt ! 1)"

lemma opt_walk_find:
  assumes "list_all option_wf opts"
  shows "opt_walk (overload_visitor (find_visitor code)) (concat opts @ DHCP_OPTION_END # rest) (ov, found) =
    Ok (ov, case found of Some o1 \<Rightarrow> Some o1 | None \<Rightarrow> find (\<lambda>opt. opt ! 0 = code) opts)"
  using assms
proof (induction opts arbitrary: found)
  case Nil
  then show ?case by (simp add: DHCP_OPTION_END_def split: option.split)
next
  case (Cons opt opts)
  obtain c n body where opt: "opt = c # n # body" using Cons.prems by (cases opt; cases "tl opt") (auto simp: option_wf_def)
  have wf: "c \<noteq> 0" "c \<noteq> DHCP_OPTION_END" "c \<noteq> 52" "length body = unat n" using Cons.prems by (simp_all add: option_wf_def opt)
  then have "opt_walk (overload_visitor (find_visitor code)) (concat (opt # opts) @ DHCP_OPTION_END # rest) (ov, found) =
      opt_walk (overload_visitor (find_visitor code)) (concat opts @ DHCP_OPTION_END # rest) (ov, if c = code \<and> found = None then Some opt else found)"
    by (simp add: opt overload_visitor_def find_visitor_def)
  then show ?case using Cons by (auto simp: opt split: option.split)
qed

lemma find_option_answer:
  assumes "length hdr = 240" and "slice 236 240 hdr = [99, 130, 83, 99]" and "list_all option_wf opts"
  shows "find_dhcp_option (hdr @ concat opts @ [DHCP_OPTION_END]) code = find (\<lambda>opt. opt ! 0 = code) opts"
proof -
  have "slice 236 240 (hdr @ concat opts @ [DHCP_OPTION_END]) = slice 236 240 hdr" using assms(1) by (simp add: slice_def)
  then show ?thesis using assms opt_walk_find [OF assms(3), of code "[]" None None]
    by (simp add: find_dhcp_option_def visit_dhcp_options_def Let_def)
qed

section \<open>The header of an answer\<close>

lemma copy_at_mid: "length xs = off \<Longrightarrow> length bs = length ys \<Longrightarrow> copy_at off bs (xs @ ys @ zs) = xs @ bs @ zs"
  by (auto simp: copy_at_def)

lemma list_update_mid: "length xs = n \<Longrightarrow> (xs @ y # zs)[n := v] = xs @ v # zs"
  by auto

text \<open>The header both answers share, field by field: the offered address is zero in a NAK.\<close>

definition answer_header :: "DhcpServer \<Rightarrow> bytes \<Rightarrow> Ipv4Addr \<Rightarrow> bytes" where
  "answer_header s request a =
     [BOOTP_REPLY, 1, 6, 0] @ slice 4 8 request @ slice 8 12 request @ replicate 4 0 @ to_be_bytes a @ to_be_bytes (server_ip s)
     @ slice 24 28 request @ slice 28 34 request @ replicate 202 0 @ [99, 130, 83, 99]"

definition blank_header :: bytes where
  "blank_header = [BOOTP_REPLY, 1, 6, 0] @ replicate 4 0 @ replicate 4 0 @ replicate 4 0 @ replicate 4 0 @ replicate 4 0
     @ replicate 4 0 @ replicate 6 0 @ replicate 202 0 @ [0, 0, 0, 0]"

lemma blank_header_eq: "(replicate 240 0)[0 := BOOTP_REPLY, 1 := 1, 2 := 6] = blank_header" "(replicate 240 0)[0 := BOOTP_REPLY, 1 := 1, 2 := 6, 3 := 0] = blank_header"
proof -
  have "replicate 240 (0 :: u8) = [0, 0, 0, 0] @ replicate 4 0 @ replicate 4 0 @ replicate 4 0 @ replicate 4 0 @ replicate 4 0
     @ replicate 4 0 @ replicate 6 0 @ replicate 202 0 @ [0, 0, 0, 0]"
    by (simp only: replicate_add [symmetric] append.simps flip: replicate.simps replicate_append_same) (simp add: numeral_eq_Suc)
  then show "(replicate 240 0)[0 := BOOTP_REPLY, 1 := 1, 2 := 6] = blank_header" "(replicate 240 0)[0 := BOOTP_REPLY, 1 := 1, 2 := 6, 3 := 0] = blank_header"
    by (simp_all add: blank_header_def)
qed

lemma written_header:
  fixes a srv :: u32
  assumes "length xid = 4" "length sf = 4" "length gi = 4" "length mac = 6"
  defines "pre \<equiv> [BOOTP_REPLY, 1, 6, 0] @ xid @ sf @ replicate 4 0"
  shows "(copy_at 28 mac (copy_at 24 gi (copy_at 20 (to_be_bytes srv) (copy_at 16 (to_be_bytes a) (copy_at 8 sf (copy_at 4 xid blank_header))))))
      [236 := 99, 237 := 130, 238 := 83, 239 := 99] =
      pre @ to_be_bytes a @ to_be_bytes srv @ gi @ mac @ replicate 202 0 @ [99, 130, 83, 99]" (is ?full)
    "(copy_at 28 mac (copy_at 24 gi (copy_at 20 (to_be_bytes srv) (copy_at 8 sf (copy_at 4 xid blank_header)))))
      [236 := 99, 237 := 130, 238 := 83, 239 := 99] =
      pre @ replicate 4 0 @ to_be_bytes srv @ gi @ mac @ replicate 202 0 @ [99, 130, 83, 99]" (is ?nak)
proof -
  let ?h = "[BOOTP_REPLY, 1, 6, 0 :: u8]" and ?z = "\<lambda>n. replicate n (0 :: u8)"
  let ?tail = "?z 202 @ [0, 0, 0, 0]"
  have p: "length pre = 16" using assms by simp
  have 1: "copy_at 4 xid blank_header = ?h @ xid @ ?z 4 @ ?z 4 @ ?z 4 @ ?z 4 @ ?z 4 @ ?z 6 @ ?tail"
    unfolding blank_header_def by (rule copy_at_mid) (simp_all add: assms)
  have 2: "copy_at 8 sf (copy_at 4 xid blank_header) = pre @ ?z 4 @ ?z 4 @ ?z 4 @ ?z 6 @ ?tail"
    unfolding 1 using copy_at_mid [of "?h @ xid" 8 sf "?z 4" "?z 4 @ ?z 4 @ ?z 4 @ ?z 4 @ ?z 6 @ ?tail"] assms by (simp add: pre_def)
  have 3: "copy_at 16 (to_be_bytes a) (pre @ ?z 4 @ ?z 4 @ ?z 4 @ ?z 6 @ ?tail) = pre @ to_be_bytes a @ ?z 4 @ ?z 4 @ ?z 6 @ ?tail"
    by (rule copy_at_mid) (simp_all add: p)
  have 4: "(copy_at 28 mac (copy_at 24 gi (copy_at 20 (to_be_bytes srv) (pre @ y @ ?z 4 @ ?z 4 @ ?z 6 @ ?tail))))
      [236 := 99, 237 := 130, 238 := 83, 239 := 99] = pre @ y @ to_be_bytes srv @ gi @ mac @ ?z 202 @ [99, 130, 83, 99]"
    if y: "length y = 4" for y :: bytes
  proof -
    have a: "copy_at 20 (to_be_bytes srv) (pre @ y @ ?z 4 @ ?z 4 @ ?z 6 @ ?tail) = pre @ y @ to_be_bytes srv @ ?z 4 @ ?z 6 @ ?tail"
      using copy_at_mid [of "pre @ y" 20 "to_be_bytes srv" "?z 4" "?z 4 @ ?z 6 @ ?tail"] p y by simp
    have b: "copy_at 24 gi (pre @ y @ to_be_bytes srv @ ?z 4 @ ?z 6 @ ?tail) = pre @ y @ to_be_bytes srv @ gi @ ?z 6 @ ?tail"
      using copy_at_mid [of "pre @ y @ to_be_bytes srv" 24 gi "?z 4" "?z 6 @ ?tail"] p y assms by simp
    have c: "copy_at 28 mac (pre @ y @ to_be_bytes srv @ gi @ ?z 6 @ ?tail) = (pre @ y @ to_be_bytes srv @ gi @ mac @ ?z 202) @ [0, 0, 0, 0]"
      using copy_at_mid [of "pre @ y @ to_be_bytes srv @ gi" 28 mac "?z 6" ?tail] p y assms by simp
    have d: "(xs @ [0, 0, 0, 0])[236 := 99, 237 := 130, 238 := 83, 239 := 99 :: u8] = xs @ [99, 130, 83, 99]" if "length xs = 236" for xs
      using that by (simp add: list_update_append)
    show ?thesis unfolding a b c by (subst d) (use p y assms in simp_all)
  qed
  show ?full unfolding 2 3 by (rule 4) simp
  show ?nak unfolding 2 using 4 [of "?z 4"] by simp
qed

text \<open>The answers as the header and a list of options.\<close>

definition nak_options :: "DhcpServer \<Rightarrow> bytes list" where
  "nak_options s = [[DHCP_OPTION_MSG_TYPE, 1, DHCP_MSG_TYPE_NAK], [DHCP_OPTION_SERVER_ID, 4] @ to_be_bytes (server_ip s)]"

definition reply_option_list :: "DhcpServer \<Rightarrow> u8 \<Rightarrow> bytes list" where
  "reply_option_list s t =
     [[DHCP_OPTION_MSG_TYPE, 1, t], [DHCP_OPTION_SUBNET_MASK, 4] @ to_be_bytes (subnet_mask s), [DHCP_OPTION_ROUTER, 4] @ to_be_bytes (gateway s)]
     @ (if dns_servers s \<noteq> [] then [[DHCP_OPTION_DNS, of_nat (4 * length (dns_servers s))] @ concat (map to_be_bytes (dns_servers s))] else [])
     @ [[DHCP_OPTION_LEASE_TIME, 4] @ to_be_bytes (lease_time_secs s), [DHCP_OPTION_RENEWAL_TIME, 4] @ to_be_bytes (lease_time_secs s div 2),
        [DHCP_OPTION_REBINDING_TIME, 4] @ to_be_bytes (ucast ((ucast (lease_time_secs s) :: u64) * 3 div 4) :: u32),
        [DHCP_OPTION_SERVER_ID, 4] @ to_be_bytes (server_ip s)]
     @ (if domain_name s \<noteq> [] \<and> length (domain_name s) \<le> 255 then [[DHCP_OPTION_DOMAIN_NAME, of_nat (length (domain_name s))] @ domain_name s] else [])"

lemma build_nak_layout:
  assumes "240 \<le> length request"
  shows "build_nak s request = answer_header s request 0 @ concat (nak_options s) @ [DHCP_OPTION_END]"
proof -
  have z: "to_be_bytes (0 :: u32) = replicate 4 0" by code_simp
  show ?thesis unfolding build_nak_def Let_def blank_header_eq
    by (subst written_header(2)) (use assms in \<open>simp_all add: answer_header_def nak_options_def z\<close>)
qed

lemma build_reply_layout:
  assumes "240 \<le> length request" and "build_reply s request a t = Ok reply"
  shows "length (dns_servers s) \<le> 63 \<and> reply = answer_header s request a @ concat (reply_option_list s t) @ [DHCP_OPTION_END]"
proof -
  have d: "length (dns_servers s) \<le> 63" using assms(2) by (simp add: build_reply_def split: if_split_asm)
  have "reply_options s t = concat (reply_option_list s t) @ [DHCP_OPTION_END]" by (simp add: reply_options_def reply_option_list_def Let_def)
  then have "reply = (copy_at 28 (slice 28 34 request) (copy_at 24 (slice 24 28 request) (copy_at 20 (to_be_bytes (server_ip s))
      (copy_at 16 (to_be_bytes a) (copy_at 8 (slice 8 12 request) (copy_at 4 (slice 4 8 request) blank_header))))))
      [236 := 99, 237 := 130, 238 := 83, 239 := 99] @ concat (reply_option_list s t) @ [DHCP_OPTION_END]"
    using assms(2) d unfolding build_reply_def Let_def blank_header_eq(2) by (auto simp only: if_False not_less [symmetric] sum.inject simp_thms)
  also have "\<dots> = answer_header s request a @ concat (reply_option_list s t) @ [DHCP_OPTION_END]"
    by (subst written_header(1)) (use assms(1) in \<open>simp_all add: answer_header_def\<close>)
  finally show ?thesis using d by blast
qed

lemma answer_header_fields:
  assumes "240 \<le> length request"
  shows "length (answer_header s request a) = 240 \<and> slice 236 240 (answer_header s request a) = [99, 130, 83, 99] \<and>
    slice 4 8 (answer_header s request a @ opts) = slice 4 8 request \<and> slice 28 34 (answer_header s request a @ opts) = slice 28 34 request \<and>
    addr_at 16 (answer_header s request a @ opts) = a"
proof -
  have l: "length (slice 4 8 request) = 4" "length (slice 8 12 request) = 4" "length (slice 24 28 request) = 4" "length (slice 28 34 request) = 6"
    using assms by simp_all
  have mid: "slice p q (xs @ ys @ zs) = ys" if "length xs = p" "length ys = q - p" for p q and xs ys zs :: bytes
    using that by (simp add: slice_def)
  let ?h = "[BOOTP_REPLY, 1, 6, 0 :: u8]" and ?z = "\<lambda>n. replicate n (0 :: u8)"
  let ?p = "?h @ slice 4 8 request @ slice 8 12 request @ ?z 4" and ?m = "[99, 130, 83, 99] @ opts"
  have "slice 236 240 ((?p @ to_be_bytes a @ to_be_bytes (server_ip s) @ slice 24 28 request @ slice 28 34 request @ ?z 202) @ [99, 130, 83, 99] @ []) = [99, 130, 83, 99]"
    by (rule mid) (use l in simp_all)
  moreover have "slice 4 8 (?h @ slice 4 8 request @ slice 8 12 request @ ?z 4 @ to_be_bytes a @ to_be_bytes (server_ip s) @ slice 24 28 request @ slice 28 34 request @ ?z 202 @ ?m) = slice 4 8 request"
    by (rule mid) (use l in simp_all)
  moreover have "slice 28 34 ((?p @ to_be_bytes a @ to_be_bytes (server_ip s) @ slice 24 28 request) @ slice 28 34 request @ ?z 202 @ ?m) = slice 28 34 request"
    by (rule mid) (use l in simp_all)
  moreover have "addr_at 16 (?p @ to_be_bytes a @ rest) = a" for rest
  proof -
    have "(?p @ to_be_bytes a @ rest) ! (16 + i) = to_be_bytes a ! i" if "i < 4" for i
      using that l by (simp add: nth_append)
    from this [of 0] this [of 1] this [of 2] this [of 3] have "addr_at 16 (?p @ to_be_bytes a @ rest) = ip_from_u32 a"
      by (simp add: addr_at_def ip_from_u32_def u32_be_bytes)
    then show ?thesis by (simp add: ip_from_u32_id)
  qed
  ultimately show ?thesis using l by (simp add: answer_header_def)
qed

lemma reply_options_wf: "length (dns_servers s) \<le> 63 \<Longrightarrow> list_all option_wf (reply_option_list s t)"
proof -
  assume d: "length (dns_servers s) \<le> 63"
  have c: "length (concat (map to_be_bytes as)) = 4 * length as" for as :: "u32 list" by (induction as) simp_all
  have "unat (of_nat (4 * length (dns_servers s)) :: u8) = 4 * length (dns_servers s)" using d by (intro unat_of_nat_eq') simp
  moreover have "length (domain_name s) \<le> 255 \<Longrightarrow> unat (of_nat (length (domain_name s)) :: u8) = length (domain_name s)" by (intro unat_of_nat_eq') simp
  ultimately show ?thesis by (simp add: reply_option_list_def option_wf_def dhcp_consts c)
qed

lemma nak_options_wf: "list_all option_wf (nak_options s)"
  by (simp add: nak_options_def option_wf_def dhcp_consts)

lemma option_addr_be [simp]: "option_addr (c # n # to_be_bytes a) = Some a"
proof -
  have "option_addr (c # n # to_be_bytes a) = Some (ip_from_u32 a)" by (simp add: option_addr_def ip_from_u32_def u32_be_bytes)
  then show ?thesis by (simp add: ip_from_u32_id)
qed

section \<open>The answers read back\<close>

text \<open>The rebinding time is computed wide enough: three quarters of any 32-bit lease time.\<close>

lemma rebinding_time:
  fixes lease :: u32
  defines "t2 \<equiv> (ucast ((ucast lease :: u64) * 3 div 4) :: u32)"
  shows "unat t2 = 3 * unat lease div 4 \<and> lease div 2 \<le> t2 \<and> t2 \<le> lease"
proof -
  have "3 * unat lease < 18446744073709551616" using unat_u32_less [of lease] by linarith
  then have m: "unat ((ucast lease :: u64) * 3) = 3 * unat lease" by (simp add: unat_word_ariths unat_u32_u64 mult.commute)
  have "3 * unat lease div 4 < 4294967296" using unat_u32_less [of lease] by linarith
  then have "unat t2 = 3 * unat lease div 4"
    by (simp add: t2_def unsigned_ucast_eq unat_div_distrib m take_bit_nat_eq_self_iff)
  moreover have "n div 2 \<le> 3 * n div 4" "3 * n div 4 \<le> n" for n :: nat by presburger+
  ultimately show ?thesis by (simp add: word_le_nat_alt unat_div_distrib)
qed

lemma reply_finds:
  assumes "240 \<le> length request" and "build_reply s request a t = Ok reply"
  shows "find_dhcp_option reply code = find (\<lambda>opt. opt ! 0 = code) (reply_option_list s t)"
    and "slice 4 8 reply = slice 4 8 request \<and> slice 28 34 reply = slice 28 34 request \<and> addr_at 16 reply = a"
proof -
  have d: "length (dns_servers s) \<le> 63" and r: "reply = answer_header s request a @ concat (reply_option_list s t) @ [DHCP_OPTION_END]"
    using build_reply_layout [OF assms] by simp_all
  note h = answer_header_fields [OF assms(1), of s a]
  show "find_dhcp_option reply code = find (\<lambda>opt. opt ! 0 = code) (reply_option_list s t)"
    unfolding r using find_option_answer [OF _ _ reply_options_wf [OF d]] h by blast
  show "slice 4 8 reply = slice 4 8 request \<and> slice 28 34 reply = slice 28 34 request \<and> addr_at 16 reply = a"
    unfolding r using h by blast
qed

lemma reply_fields:
  assumes "240 \<le> length request" and "build_reply s request a t = Ok reply"
  shows "find_dhcp_option reply DHCP_OPTION_MSG_TYPE = Some [DHCP_OPTION_MSG_TYPE, 1, t] \<and> slice 28 34 reply = slice 28 34 request \<and> addr_at 16 reply = a"
  using reply_finds [OF assms] by (simp add: reply_option_list_def)

text \<open>
  C37. A client that parses an answer of the server finds what the server meant: its own transaction and hardware address, the
  address offered, the message type, the server and the netmask, and a lease time with renewal and rebinding times of exactly
  one half and three quarters of it, in order and without overflow, whatever the lease time, the resolvers and the domain.
\<close>

theorem reply_reads_back:
  assumes "240 \<le> length request" and "build_reply s request a t = Ok reply"
  shows "slice 4 8 reply = slice 4 8 request \<and> slice 28 34 reply = slice 28 34 request \<and> addr_at 16 reply = a \<and>
    find_dhcp_option reply DHCP_OPTION_MSG_TYPE = Some [DHCP_OPTION_MSG_TYPE, 1, t] \<and>
    Option.bind (find_dhcp_option reply DHCP_OPTION_SERVER_ID) option_addr = Some (server_ip s) \<and>
    Option.bind (find_dhcp_option reply DHCP_OPTION_SUBNET_MASK) option_addr = Some (subnet_mask s) \<and>
    (\<exists>t1 t2. find_dhcp_option reply DHCP_OPTION_LEASE_TIME = Some (DHCP_OPTION_LEASE_TIME # 4 # to_be_bytes (lease_time_secs s)) \<and>
       find_dhcp_option reply DHCP_OPTION_RENEWAL_TIME = Some (DHCP_OPTION_RENEWAL_TIME # 4 # to_be_bytes t1) \<and>
       find_dhcp_option reply DHCP_OPTION_REBINDING_TIME = Some (DHCP_OPTION_REBINDING_TIME # 4 # to_be_bytes t2) \<and>
       unat t1 = unat (lease_time_secs s) div 2 \<and> unat t2 = 3 * unat (lease_time_secs s) div 4 \<and> t1 \<le> t2 \<and> t2 \<le> lease_time_secs s)"
proof -
  note f = reply_finds(1) [OF assms]
  have time: "unat (lease_time_secs s div 2) = unat (lease_time_secs s) div 2" by (simp add: unat_div_distrib)
  have "find_dhcp_option reply DHCP_OPTION_MSG_TYPE = Some [DHCP_OPTION_MSG_TYPE, 1, t]"
    "find_dhcp_option reply DHCP_OPTION_SUBNET_MASK = Some (DHCP_OPTION_SUBNET_MASK # 4 # to_be_bytes (subnet_mask s))"
    "find_dhcp_option reply DHCP_OPTION_SERVER_ID = Some (DHCP_OPTION_SERVER_ID # 4 # to_be_bytes (server_ip s))"
    "find_dhcp_option reply DHCP_OPTION_LEASE_TIME = Some (DHCP_OPTION_LEASE_TIME # 4 # to_be_bytes (lease_time_secs s))"
    "find_dhcp_option reply DHCP_OPTION_RENEWAL_TIME = Some (DHCP_OPTION_RENEWAL_TIME # 4 # to_be_bytes (lease_time_secs s div 2))"
    "find_dhcp_option reply DHCP_OPTION_REBINDING_TIME =
      Some (DHCP_OPTION_REBINDING_TIME # 4 # to_be_bytes (ucast ((ucast (lease_time_secs s) :: u64) * 3 div 4) :: u32))"
    unfolding f by (simp_all add: reply_option_list_def dhcp_consts)
  then show ?thesis using reply_finds(2) [OF assms] time rebinding_time [of "lease_time_secs s"] by (simp add: to_be_bytes_inj)
qed

section \<open>The server at work\<close>

text \<open>The DHCP server and the pool it shares, over any interleaving of packets, reaper ticks and VPN operations on the pool.\<close>

inductive dhcp_reach :: "DhcpServer \<Rightarrow> IpPool \<Rightarrow> bool" where
  dhcp_new: "pool_reach pool \<Longrightarrow> dhcp_reach (DhcpServer_new srv snm gw dns dname lease_time lo hi now) pool"
| dhcp_packet: "dhcp_reach s pool \<Longrightarrow> handle_packet data src tnow now (s, pool) = (r, s', pool') \<Longrightarrow> dhcp_reach s' pool'"
| dhcp_reap: "dhcp_reach s pool \<Longrightarrow> reap_expired_at now (s, pool) = (n, s', pool') \<Longrightarrow> dhcp_reach s' pool'"
| dhcp_vpn: "dhcp_reach s pool \<Longrightarrow> pool_reach pool' \<Longrightarrow> dhcp_reach s pool'"

text \<open>What an answer may say.\<close>

definition answer_ok :: "bytes \<Rightarrow> DhcpServer \<Rightarrow> DhcpServer \<Rightarrow> IpPool \<Rightarrow> (DhcpError, answer) result \<Rightarrow> bool" where
  "answer_ok data s s' pool' r \<longleftrightarrow> (\<forall>reply dest. r = Ok (Some (reply, dest)) \<longrightarrow> reply = build_nak s' data \<or>
     (\<exists>a t. build_reply s' data a t = Ok reply \<and> (t = DHCP_MSG_TYPE_OFFER \<or> t = DHCP_MSG_TYPE_ACK \<and> requested_address data = Some a) \<and>
        pool_start s \<le> a \<and> a \<le> pool_end s \<and> get_ip_by_username (lease_key (slice 28 34 data)) pool' = Some a))"

lemma answer_ok_silent [simp]: "answer_ok data s s' pool' (Ok None)" "answer_ok data s s' pool' (Err e)"
  by (simp_all add: answer_ok_def)

lemma discover_result:
  assumes "pool_reach pool" and "dhcp_inv s" and "handle_discover data now (s, pool) = (r, s', pool')"
  shows "vpn_same pool pool' \<and> dhcp_inv s' \<and> answer_ok data s s' pool' r"
proof -
  obtain q s1 pool1 where q: "allocate_ip (slice 28 34 data) (requested_option data) True True now (s, pool) = (q, s1, pool1)"
    by (cases "allocate_ip (slice 28 34 data) (requested_option data) True True now (s, pool)") auto
  note ok = allocate_ip_result [OF assms(1,2) q]
  have e: "s' = s1" "pool' = pool1" using assms(3) q by (auto simp: handle_discover_def split: option.split_asm sum.split_asm)
  have "answer_ok data s s' pool' r"
  proof (cases q)
    case None
    then show ?thesis using assms(3) q by (auto simp: handle_discover_def)
  next
    case (Some a)
    then show ?thesis using assms(3) q ok e
      by (cases "build_reply s1 data a DHCP_MSG_TYPE_OFFER") (auto simp: handle_discover_def answer_ok_def alloc_ok_def)
  qed
  then show ?thesis using ok e by (simp add: alloc_ok_def)
qed

lemma request_result:
  assumes "pool_reach pool" and "dhcp_inv s" and "handle_request data now (s, pool) = (r, s', pool')"
  shows "vpn_same pool pool' \<and> dhcp_inv s' \<and> answer_ok data s s' pool' r"
proof (cases "addressed_to_other_server data (server_ip s)")
  case True
  then show ?thesis using assms vpn_same_refl by (auto simp: handle_request_def)
next
  case False
  obtain q s1 pool1 where q: "allocate_ip (slice 28 34 data) (requested_address data) False False now (s, pool) = (q, s1, pool1)"
    by (cases "allocate_ip (slice 28 34 data) (requested_address data) False False now (s, pool)") auto
  note ok = allocate_ip_result [OF assms(1,2) q]
  have e: "s' = s1" "pool' = pool1" using assms(3) q False by (auto simp: handle_request_def split: option.split_asm sum.split_asm if_split_asm)
  have "answer_ok data s s' pool' r"
  proof (cases "requested_address data")
    case None
    then show ?thesis using assms(3) q False by (auto simp: handle_request_def)
  next
    case (Some a)
    show ?thesis
    proof (cases "q = Some a")
      case True
      then show ?thesis using assms(3) q ok e Some False
        by (cases "build_reply s1 data a DHCP_MSG_TYPE_ACK") (auto simp: handle_request_def answer_ok_def alloc_ok_def)
    next
      case nak: False
      then show ?thesis using assms(3) q e Some False by (auto simp: handle_request_def answer_ok_def)
    qed
  qed
  then show ?thesis using ok e by (simp add: alloc_ok_def)
qed

lemma decline_result:
  assumes "pool_reach pool" and "dhcp_inv s" and "handle_decline data now (s, pool) = (s', pool')"
  shows "vpn_same pool pool' \<and> dhcp_inv s'"
  using assms vpn_same_refl [OF assms(1)] release_client_result [OF assms(1,2)]
  by (auto simp: handle_decline_def split: if_split_asm option.split_asm)

lemma release_result:
  assumes "pool_reach pool" and "dhcp_inv s" and "handle_release data now (s, pool) = (s', pool')"
  shows "vpn_same pool pool' \<and> dhcp_inv s'"
  using assms vpn_same_refl [OF assms(1)] release_client_result [OF assms(1,2)]
  by (auto simp: handle_release_def split: if_split_asm)

lemma handle_packet_result:
  assumes "pool_reach pool" and "dhcp_inv s" and "handle_packet data src tnow now (s, pool) = (r, s', pool')"
  shows "vpn_same pool pool' \<and> dhcp_inv s' \<and> answer_ok data s s' pool' r \<and> (240 \<le> length data \<or> (\<exists>e. r = Err e))"
proof (cases "validate_request data")
  case (Inl err)
  then show ?thesis using assms vpn_same_refl by (auto simp: handle_packet_def)
next
  case (Inr u)
  then have len: "240 \<le> length data" by (simp add: validate_request_def split: if_split_asm)
  obtain ok rl where lim: "rl_check_and_record tnow (case client_mac_key data of Some k \<Rightarrow> k | None \<Rightarrow> src) (recv_limiter s) = (ok, rl)" by fastforce
  define s1 where "s1 = s\<lparr>recv_limiter := rl\<rparr>"
  define mt where "mt = Option.bind (find_dhcp_option data DHCP_OPTION_MSG_TYPE) (\<lambda>opt. if 2 < length opt then Some (opt ! 2) else None)"
  have inv1: "dhcp_inv s1" using assms(2) by (simp add: dhcp_inv_def s1_def)
  have w: "answer_ok data s1 s2 p2 r = answer_ok data s s2 p2 r" for s2 p2 by (simp add: answer_ok_def s1_def)
  have run: "(r, s', pool') = (if \<not> ok then (Ok None, s1, pool)
       else if mt = Some 1 then handle_discover data now (s1, pool)
       else if mt = Some 3 then handle_request data now (s1, pool)
       else if mt = Some DHCP_MSG_TYPE_DECLINE then (Ok None, handle_decline data now (s1, pool))
       else if mt = Some DHCP_MSG_TYPE_RELEASE then (Ok None, handle_release data now (s1, pool))
       else (Err UnsupportedMessageType, s1, pool))"
    using assms(3) Inr lim unfolding handle_packet_def s1_def mt_def Let_def by (simp only: prod.case sum.case)
  have "vpn_same pool pool' \<and> dhcp_inv s' \<and> answer_ok data s1 s' pool' r"
  proof -
    consider "\<not> ok" | "ok" "mt = Some 1" | "ok" "mt = Some 3" | "ok" "mt = Some DHCP_MSG_TYPE_DECLINE" | "ok" "mt = Some DHCP_MSG_TYPE_RELEASE"
      | "ok" "mt \<noteq> Some 1" "mt \<noteq> Some 3" "mt \<noteq> Some DHCP_MSG_TYPE_DECLINE" "mt \<noteq> Some DHCP_MSG_TYPE_RELEASE" by blast
    then show ?thesis
    proof cases
      case 1
      then show ?thesis using run inv1 vpn_same_refl [OF assms(1)] by simp
    next
      case 2
      then show ?thesis using run discover_result [OF assms(1) inv1, of data now r s' pool'] by simp
    next
      case 3
      then show ?thesis using run request_result [OF assms(1) inv1, of data now r s' pool'] by simp
    next
      case 4
      then have e: "r = Ok None" "handle_decline data now (s1, pool) = (s', pool')" using run by (simp_all add: dhcp_consts)
      show ?thesis using e(1) decline_result [OF assms(1) inv1 e(2)] by simp
    next
      case 5
      then have e: "r = Ok None" "handle_release data now (s1, pool) = (s', pool')" using run by (simp_all add: dhcp_consts)
      show ?thesis using e(1) release_result [OF assms(1) inv1 e(2)] by simp
    next
      case 6
      then show ?thesis using run inv1 vpn_same_refl [OF assms(1)] by simp
    qed
  qed
  then show ?thesis using len w by simp
qed

lemma dhcp_reach_inv: "dhcp_reach s pool \<Longrightarrow> pool_reach pool \<and> dhcp_inv s"
proof (induction rule: dhcp_reach.induct)
  case (dhcp_new pool srv snm gw dns dname lease_time lo hi now)
  then show ?case by (simp add: DhcpServer_new_def Let_def dhcp_inv_def)
next
  case (dhcp_packet s pool data src tnow now r s' pool')
  then show ?case using handle_packet_result [of pool s data src tnow now r s' pool'] vpn_same_reach by blast
next
  case (dhcp_reap s pool now n s' pool')
  then show ?case using reap_result [of pool s now n s' pool'] vpn_same_reach by blast
qed simp

text \<open>
  C10. Every answer of the DHCP server is true of the shared pool, whatever packets, timeouts and VPN sessions came before. It
  carries the client's hardware address and a readable message type. A refusal offers no address. An offer or an
  acknowledgement names an address of the configured window that the pool has leased to this very client and to nobody else,
  and an acknowledgement names exactly the address the client asked for.
\<close>

theorem dhcp_answers_are_leased:
  assumes "dhcp_reach s pool" and "handle_packet data src tnow now (s, pool) = (Ok (Some (reply, dest)), s', pool')"
  shows "\<exists>t. find_dhcp_option reply DHCP_OPTION_MSG_TYPE = Some [DHCP_OPTION_MSG_TYPE, 1, t] \<and> slice 28 34 reply = slice 28 34 data \<and>
    (t = DHCP_MSG_TYPE_NAK \<and> addr_at 16 reply = 0 \<or>
     (t = DHCP_MSG_TYPE_OFFER \<or> t = DHCP_MSG_TYPE_ACK \<and> requested_address data = Some (addr_at 16 reply)) \<and>
     pool_start s \<le> addr_at 16 reply \<and> addr_at 16 reply \<le> pool_end s \<and>
     (\<forall>k. get_ip_by_username k pool' = Some (addr_at 16 reply) \<longleftrightarrow> k = lease_key (slice 28 34 data)))"
proof -
  have i: "pool_reach pool" "dhcp_inv s" using dhcp_reach_inv [OF assms(1)] by simp_all
  note res = handle_packet_result [OF i assms(2)]
  have len: "240 \<le> length data" and reach: "pool_reach pool'" using res vpn_same_reach by auto
  consider "reply = build_nak s' data" | a t where "build_reply s' data a t = Ok reply"
      "t = DHCP_MSG_TYPE_OFFER \<or> t = DHCP_MSG_TYPE_ACK \<and> requested_address data = Some a"
      "pool_start s \<le> a" "a \<le> pool_end s" "get_ip_by_username (lease_key (slice 28 34 data)) pool' = Some a"
    using res unfolding answer_ok_def by blast
  then show ?thesis
  proof cases
    case 1
    note h = answer_header_fields [OF len, of s' 0]
    have r: "reply = answer_header s' data 0 @ concat (nak_options s') @ [DHCP_OPTION_END]" unfolding 1 by (rule build_nak_layout [OF len])
    have "find_dhcp_option reply DHCP_OPTION_MSG_TYPE = Some [DHCP_OPTION_MSG_TYPE, 1, DHCP_MSG_TYPE_NAK]"
      unfolding r using find_option_answer [OF _ _ nak_options_wf] h by (simp add: nak_options_def)
    moreover have "slice 28 34 reply = slice 28 34 data \<and> addr_at 16 reply = 0" unfolding r using h by blast
    ultimately show ?thesis by blast
  next
    case (2 a t)
    have "(\<forall>k. get_ip_by_username k pool' = Some a \<longleftrightarrow> k = lease_key (slice 28 34 data))"
      using p4.unique [OF reach_inv4 [OF reach]] 2(5) unfolding unique_leases_def by auto
    then show ?thesis using reply_fields [OF len 2(1)] 2 by (intro exI [of _ t]) auto
  qed
qed

text \<open>
  C38. No DHCP packet, well-formed or not, changes what a VPN session holds: every key that does not begin with the server's own
  prefix keeps its IPv4 and its IPv6 lease. (A VPN user of the very name of that prefix who logs in with a device identifier has
  a key that begins with it; the theorem does not speak about that key.)
\<close>

theorem dhcp_leaves_vpn_alone:
  assumes "dhcp_reach s pool" and "handle_packet data src tnow now (s, pool) = (r, s', pool')"
  shows "\<forall>k. take 5 k \<noteq> ''dhcp:'' \<longrightarrow>
    get_ip_by_username k pool' = get_ip_by_username k pool \<and> get_ipv6_by_username k pool' = get_ipv6_by_username k pool"
proof -
  have "vpn_same pool pool'" using dhcp_reach_inv [OF assms(1)] handle_packet_result [OF _ _ assms(2)] by blast
  then show ?thesis unfolding vpn_same_def vpn_key_def by blast
qed

section \<open>A server at work\<close>

definition demo_server :: "RateLimiter \<Rightarrow> DhcpServer" where
  "demo_server rl = \<lparr>server_ip = 0x0A070001, subnet_mask = 0xFFFFFFF8, gateway = 0x0A070001, dns_servers = [0x01010101], domain_name = [],
     lease_time_secs = 3600, pool_start = 0x0A070003, pool_end = 0x0A070006, leases = replicate 4 None, declined = [], recv_limiter = rl\<rparr>"

definition demo_discover :: bytes where
  "demo_discover = [1, 1, 6, 0] @ replicate 24 0 @ [2, 0, 0, 0, 0, 1] @ replicate 202 0 @ [99, 130, 83, 99] @ [53, 1, 1, 255]"

lemma demo_server_new:
  "DhcpServer_new 0x0A070001 0xFFFFFFF8 0x0A070001 [0x01010101] [] 3600 0x0A070003 0x0A070006 0 = demo_server (RateLimiter_new 60 10 0)"
  by (simp add: DhcpServer_new_def demo_server_def MAX_DHCP_POOL_def)

lemma demo_discover_valid:
  "validate_request demo_discover = Ok () \<and> find_dhcp_option demo_discover DHCP_OPTION_MSG_TYPE = Some [53, 1, 1] \<and>
    client_mac_key demo_discover = Some (V6 0x020000000001)"
  by code_simp

lemma demo_offer: "case fst (handle_discover demo_discover 5 (demo_server rl, demo_new)) of Inr (Some (reply, dest)) \<Rightarrow> dest = (- 1, 68) | _ \<Rightarrow> False"
  by code_simp

lemma demo_packet:
  "\<exists>reply s' pool'. handle_packet demo_discover (V4 0) 0 5 (demo_server (RateLimiter_new 60 10 0), demo_new) = (Ok (Some (reply, - 1, 68)), s', pool')"
proof -
  define rl where "rl = snd (rl_check_and_record 0 (V6 0x020000000001) (RateLimiter_new 60 10 0))"
  have lim: "rl_check_and_record 0 (V6 0x020000000001) (RateLimiter_new 60 10 0) = (True, rl)"
    by (simp add: rl_def rl_check_and_record_def RateLimiter_new_def Let_def)
  have s: "(demo_server rl0)\<lparr>recv_limiter := rl\<rparr> = demo_server rl" "recv_limiter (demo_server rl0) = rl0" for rl0 by (simp_all add: demo_server_def)
  have "handle_packet demo_discover (V4 0) 0 5 (demo_server (RateLimiter_new 60 10 0), demo_new) = handle_discover demo_discover 5 (demo_server rl, demo_new)"
    using demo_discover_valid by (simp add: handle_packet_def s lim Let_def)
  moreover obtain r s' pool' where r: "handle_discover demo_discover 5 (demo_server rl, demo_new) = (r, s', pool')"
    by (cases "handle_discover demo_discover 5 (demo_server rl, demo_new)") auto
  ultimately show ?thesis using demo_offer [of rl] by (auto split: sum.split_asm option.split_asm prod.split_asm)
qed

lemma demo_dhcp_reach: "pool_reach pool \<Longrightarrow> dhcp_reach (demo_server (RateLimiter_new 60 10 0)) pool"
  unfolding demo_server_new [symmetric] by (rule dhcp_new)

theorem dhcp_answers_are_leased_witness:
  "\<exists>reply s' pool'. handle_packet demo_discover (V4 0) 0 5 (demo_server (RateLimiter_new 60 10 0), demo_new) = (Ok (Some (reply, - 1, 68)), s', pool') \<and>
    slice 28 34 reply = [2, 0, 0, 0, 0, 1]"
proof -
  obtain reply s' pool' where p: "handle_packet demo_discover (V4 0) 0 5 (demo_server (RateLimiter_new 60 10 0), demo_new) = (Ok (Some (reply, - 1, 68)), s', pool')"
    using demo_packet by blast
  have "slice 28 34 demo_discover = [2, 0, 0, 0, 0, 1]" by code_simp
  then have "slice 28 34 reply = [2, 0, 0, 0, 0, 1]"
    using dhcp_answers_are_leased [OF demo_dhcp_reach [OF reach_new [OF demo_new_ok]] p] by auto
  then show ?thesis using p by blast
qed

theorem dhcp_leaves_vpn_alone_witness:
  "get_ip_by_username ''alice'' (snd (snd (handle_packet demo_discover (V4 0) 0 5 (demo_server (RateLimiter_new 60 10 0), demo_pool)))) = Some 0x0A070003"
  using dhcp_leaves_vpn_alone [OF demo_dhcp_reach [OF demo_reach], of demo_discover "V4 0" 0 5, OF prod.collapse [symmetric, THEN trans, OF arg_cong2 [OF refl prod.collapse [symmetric], of Pair]]]
    demo_leases by simp

theorem reply_reads_back_witness:
  "\<exists>reply. build_reply (demo_server (RateLimiter_new 60 10 0)) demo_discover 0x0A070003 2 = Ok reply \<and> addr_at 16 reply = 0x0A070003"
proof -
  have "240 \<le> length demo_discover" by (simp add: demo_discover_def)
  moreover obtain reply where "build_reply (demo_server (RateLimiter_new 60 10 0)) demo_discover 0x0A070003 2 = Ok reply"
    by (simp add: build_reply_def demo_server_def Let_def)
  ultimately show ?thesis using reply_reads_back by blast
qed

end
