(* ===== verification/Sessions.thy ===== *)
theory Sessions
  imports Ip_Packet
begin

text \<open>
  The session table of a profile (\<^verbatim>\<open>SessionMap\<close> of \<^verbatim>\<open>server/mod.rs\<close>): who owns a tunnel address, the inbound routes to the
  networks behind clients with their longest-prefix match, the admission and eviction of sessions as
  \<^verbatim>\<open>server/handler.rs\<close> composes them, and where a client's packet goes. A session keeps the fields these operations read. Its
  atomic flags change behind the shared pointer: they are read through a store keyed by the session id. The text of a
  canonical CIDR is determined by network and prefix, and stands here as that pair.
\<close>

section \<open>Sessions and routes\<close>

record SessionShared =
  session_id :: u64
  client_ip :: IpAddr
  client_ipv4 :: "Ipv4Addr option"
  client_ipv6 :: "Ipv6Addr option"
  token :: bytes

record SessionFlags =
  ndp_ready :: bool
  revoked :: bool
  closing :: bool

definition assigned_addresses :: "SessionShared \<Rightarrow> IpAddr list" where
  "assigned_addresses s = (case client_ipv4 s of None \<Rightarrow> [] | Some a \<Rightarrow> [V4 a]) @ (case client_ipv6 s of None \<Rightarrow> [] | Some a \<Rightarrow> [V6 a])"

record ExitAccess =
  exit_ipv4 :: bool
  exit_ipv6 :: bool

fun exit_allows :: "ExitAccess \<Rightarrow> IpAddr \<Rightarrow> bool" where
  "exit_allows e (V4 _) = exit_ipv4 e"
| "exit_allows e (V6 _) = exit_ipv6 e"

definition route_masked_v4 :: "u32 \<Rightarrow> u8 \<Rightarrow> u32" where
  "route_masked_v4 ip p = (if p = 0 then 0 else ip AND push_bit (32 - unat p) (- 1))"

definition route_masked_v6 :: "u128 \<Rightarrow> u8 \<Rightarrow> u128" where
  "route_masked_v6 ip p = (if p = 0 then 0 else ip AND push_bit (128 - unat p) (- 1))"

datatype RouteNetwork = RouteV4 u32 | RouteV6 u128

record ClientRoute =
  cr_net :: RouteNetwork
  cr_prefix :: u8
  cr_client_ip :: IpAddr
  cr_session :: SessionShared

definition ClientRoute_parse :: "string \<Rightarrow> IpAddr \<Rightarrow> SessionShared \<Rightarrow> ClientRoute option" where
  "ClientRoute_parse cidr ip_key session =
     (let s = trim cidr;
          build = (\<lambda>addr explicit_prefix.
            case parse_ip_addr addr of
              None \<Rightarrow> None
            | Some ip \<Rightarrow>
                (let p = (case explicit_prefix of Some q \<Rightarrow> q | None \<Rightarrow> if is_ipv4 ip then 32 else 128)
                 in case ip of
                      V4 a \<Rightarrow> if p \<le> 32 then Some \<lparr>cr_net = RouteV4 (route_masked_v4 a p), cr_prefix = p, cr_client_ip = ip_key, cr_session = session\<rparr> else None
                    | V6 a \<Rightarrow> if p \<le> 128 then Some \<lparr>cr_net = RouteV6 (route_masked_v6 a p), cr_prefix = p, cr_client_ip = ip_key, cr_session = session\<rparr> else None))
      in case split_once (CHR ''/'') s of
           Some (a, p) \<Rightarrow> (case parse_u8 (trim p) of None \<Rightarrow> None | Some q \<Rightarrow> build (trim a) (Some q))
         | None \<Rightarrow> build s None)"

definition route_contains :: "ClientRoute \<Rightarrow> IpAddr \<Rightarrow> bool" where
  "route_contains r ip =
     (case (cr_net r, ip) of
        (RouteV4 n, V4 a) \<Rightarrow> route_masked_v4 a (cr_prefix r) = n
      | (RouteV6 n, V6 a) \<Rightarrow> route_masked_v6 a (cr_prefix r) = n
      | _ \<Rightarrow> False)"

definition same_network :: "ClientRoute \<Rightarrow> ClientRoute \<Rightarrow> bool" where
  "same_network r r' \<longleftrightarrow> cr_net r = cr_net r' \<and> cr_prefix r = cr_prefix r'"

section \<open>The session map\<close>

record SessionMap =
  by_ip :: "IpAddr \<rightharpoonup> SessionShared"
  by_address :: "IpAddr \<rightharpoonup> SessionShared"
  by_token :: "bytes \<rightharpoonup> IpAddr"
  client_routes :: "ClientRoute list"

definition SessionMap_empty :: SessionMap where
  "SessionMap_empty = \<lparr>by_ip = Map.empty, by_address = Map.empty, by_token = Map.empty, client_routes = []\<rparr>"

definition drop_alias :: "u64 \<Rightarrow> IpAddr \<Rightarrow> (IpAddr \<rightharpoonup> SessionShared) \<Rightarrow> (IpAddr \<rightharpoonup> SessionShared)" where
  "drop_alias sid a m = (case m a of Some current \<Rightarrow> if session_id current = sid then m(a := None) else m | None \<Rightarrow> m)"

definition session_remove :: "IpAddr \<Rightarrow> SessionMap \<Rightarrow> SessionShared option \<times> SessionMap" where
  "session_remove primary m =
     (case by_ip m primary of
        None \<Rightarrow> (None, m)
      | Some s \<Rightarrow>
          (Some s, m\<lparr>by_ip := (by_ip m)(primary := None), by_token := (by_token m)(token s := None),
                     by_address := fold (drop_alias (session_id s)) (assigned_addresses s) (by_address m)\<rparr>))"

definition session_insert :: "SessionShared \<Rightarrow> SessionMap \<Rightarrow> SessionShared option \<times> SessionMap" where
  "session_insert s m =
     (let (previous, m1) = session_remove (client_ip s) m
      in (previous, m1\<lparr>by_ip := (by_ip m1)(client_ip s \<mapsto> s),
                       by_address := fold (\<lambda>a am. am(a \<mapsto> s)) (assigned_addresses s) (by_address m1),
                       by_token := (by_token m1)(token s \<mapsto> client_ip s)\<rparr>))"

definition get_by_address :: "IpAddr \<Rightarrow> SessionMap \<Rightarrow> SessionShared option" where
  "get_by_address a m = by_address m a"

text \<open>\<^verbatim>\<open>Iterator::max_by_key\<close>: the last of the greatest.\<close>

definition max_by_key :: "('a \<Rightarrow> 'k::linorder) \<Rightarrow> 'a list \<Rightarrow> 'a option" where
  "max_by_key f xs = foldl (\<lambda>acc x. case acc of None \<Rightarrow> Some x | Some y \<Rightarrow> if f y \<le> f x then Some x else Some y) None xs"

definition route_match :: "IpAddr \<Rightarrow> SessionMap \<Rightarrow> ClientRoute option" where
  "route_match dest m = max_by_key cr_prefix (filter (\<lambda>r. route_contains r dest) (client_routes m))"

definition route_lookup :: "IpAddr \<Rightarrow> SessionMap \<Rightarrow> SessionShared option" where
  "route_lookup dest m = map_option cr_session (route_match dest m)"

definition source_route_lookup :: "IpAddr \<Rightarrow> SessionMap \<Rightarrow> SessionShared option" where
  "source_route_lookup src m =
     map_option cr_session (max_by_key cr_prefix (filter (\<lambda>r. 0 < cr_prefix r \<and> route_contains r src) (client_routes m)))"

definition direct_client_destination :: "(u64 \<Rightarrow> SessionFlags) \<Rightarrow> u64 \<Rightarrow> ExitAccess \<Rightarrow> IpAddr \<Rightarrow> IpAddr list \<Rightarrow> SessionMap \<Rightarrow> bool" where
  "direct_client_destination fl source_session_id exit_access dest server_addresses m =
     (if dest \<in> set server_addresses then False
      else case (case get_by_address dest m of
                   Some s \<Rightarrow> Some (s, False)
                 | None \<Rightarrow> map_option (\<lambda>r. (cr_session r, cr_prefix r = 0)) (route_match dest m)) of
             None \<Rightarrow> False
           | Some (owner, is_default) \<Rightarrow>
               session_id owner \<noteq> source_session_id \<and> \<not> revoked (fl (session_id owner)) \<and> (\<not> is_default \<or> exit_allows exit_access dest))"

definition source_owned_by :: "(u64 \<Rightarrow> SessionFlags) \<Rightarrow> u64 \<Rightarrow> IpAddr \<Rightarrow> SessionMap \<Rightarrow> bool" where
  "source_owned_by fl sid src m =
     (case (case get_by_address src m of Some s \<Rightarrow> Some s | None \<Rightarrow> route_lookup src m) of
        None \<Rightarrow> False
      | Some owner \<Rightarrow>
          session_id owner = sid \<and> \<not> revoked (fl (session_id owner)) \<and> \<not> closing (fl (session_id owner)) \<and>
          (case by_ip m (client_ip owner) of None \<Rightarrow> False | Some current \<Rightarrow> session_id current = sid))"

definition session_active :: "(u64 \<Rightarrow> SessionFlags) \<Rightarrow> SessionMap \<Rightarrow> SessionShared \<Rightarrow> bool" where
  "session_active fl m s \<longleftrightarrow> ndp_ready (fl (session_id s)) \<and> \<not> revoked (fl (session_id s)) \<and> \<not> closing (fl (session_id s)) \<and>
     (case by_ip m (client_ip s) of None \<Rightarrow> False | Some current \<Rightarrow> session_id current = session_id s)"

definition ipv6_neighbor_owner :: "(u64 \<Rightarrow> SessionFlags) \<Rightarrow> Ipv6Addr \<Rightarrow> SessionMap \<Rightarrow> u64 option" where
  "ipv6_neighbor_owner fl target m =
     (case by_address m (V6 target) of
        Some s \<Rightarrow> if session_active fl m s then Some (session_id s) else None
      | None \<Rightarrow>
          (case max_by_key cr_prefix (filter (\<lambda>r. 0 < cr_prefix r \<and> (case cr_net r of RouteV6 _ \<Rightarrow> True | _ \<Rightarrow> False) \<and> route_contains r (V6 target)) (client_routes m)) of
             None \<Rightarrow> None
           | Some r \<Rightarrow> if session_active fl m (cr_session r) then Some (session_id (cr_session r)) else None))"

definition take_client_routes :: "IpAddr \<Rightarrow> SessionMap \<Rightarrow> (RouteNetwork \<times> u8) list \<times> SessionMap" where
  "take_client_routes ip m =
     (map (\<lambda>r. (cr_net r, cr_prefix r)) (filter (\<lambda>r. cr_client_ip r = ip \<and> 0 < cr_prefix r) (client_routes m)),
      m\<lparr>client_routes := filter (\<lambda>r. cr_client_ip r \<noteq> ip) (client_routes m)\<rparr>)"

section \<open>Admission and eviction\<close>

definition client_subnet_family_active :: "string \<Rightarrow> bool \<Rightarrow> bool \<Rightarrow> bool" where
  "client_subnet_family_active cidr has_ipv4 has_ipv6 =
     (let addr = (case split_once (CHR ''/'') (trim cidr) of None \<Rightarrow> trim cidr | Some (a, _) \<Rightarrow> trim a)
      in case parse_ip_addr addr of Some a \<Rightarrow> if is_ipv4 a then has_ipv4 else has_ipv6 | None \<Rightarrow> True)"

fun register_client_subnets :: "string list \<Rightarrow> IpAddr \<Rightarrow> SessionShared \<Rightarrow> IpAddr list \<Rightarrow> SessionMap \<Rightarrow> (RouteNetwork \<times> u8) list \<times> SessionMap" where
  "register_client_subnets [] ip_key session server_tun m = ([], m)"
| "register_client_subnets (cidr # rest) ip_key session server_tun m =
     (if \<not> client_subnet_family_active cidr (client_ipv4 session \<noteq> None) (client_ipv6 session \<noteq> None)
      then register_client_subnets rest ip_key session server_tun m
      else case ClientRoute_parse cidr ip_key session of
             None \<Rightarrow> register_client_subnets rest ip_key session server_tun m
           | Some r \<Rightarrow>
               (let is_default = (cr_prefix r = 0) in
                if \<not> is_default \<and> list_ex (route_contains r) server_tun then register_client_subnets rest ip_key session server_tun m
                else if list_ex (\<lambda>existing. same_network existing r) (client_routes m) then register_client_subnets rest ip_key session server_tun m
                else let (programmed, m') = register_client_subnets rest ip_key session server_tun (m\<lparr>client_routes := client_routes m @ [r]\<rparr>)
                     in (if is_default then programmed else (cr_net r, cr_prefix r) # programmed, m')))"

text \<open>The session-map part of an admission: a replaced session's routes go, the new session's subnets are registered.\<close>

definition admit :: "SessionShared \<Rightarrow> string list \<Rightarrow> IpAddr list \<Rightarrow> SessionMap \<Rightarrow> (RouteNetwork \<times> u8) list \<times> (RouteNetwork \<times> u8) list \<times> SessionMap" where
  "admit s client_subnets server_tun m =
     (let (old, m1) = session_insert s m;
          (replaced, m2) = (case old of None \<Rightarrow> ([], m1) | Some o1 \<Rightarrow> take_client_routes (client_ip o1) m1);
          (programmed, m3) = register_client_subnets client_subnets (client_ip s) s server_tun m2
      in (replaced, programmed, m3))"

definition evict :: "SessionShared \<Rightarrow> SessionMap \<Rightarrow> (RouteNetwork \<times> u8) list \<times> SessionMap" where
  "evict victim m =
     (case by_ip m (client_ip victim) of
        None \<Rightarrow> ([], m)
      | Some current \<Rightarrow>
          if session_id current = session_id victim then take_client_routes (client_ip victim) (snd (session_remove (client_ip victim) m))
          else ([], m))"

section \<open>A client's packet\<close>

datatype delivery = Dropped | ToClient | ToTun

definition send_client_packet :: "(u64 \<Rightarrow> SessionFlags) \<Rightarrow> IpAddr list \<Rightarrow> bool \<Rightarrow> u64 \<Rightarrow> ExitAccess \<Rightarrow> bytes \<Rightarrow> SessionMap \<Rightarrow> delivery" where
  "send_client_packet fl tun_addresses client_to_client source_session_id exit_access packet m =
     (case parse_ip_packet packet of
        Inl _ \<Rightarrow> Dropped
      | Inr meta \<Rightarrow>
          if source meta \<in> set tun_addresses \<or> \<not> source_owned_by fl source_session_id (source meta) m then Dropped
          else if client_to_client \<and> direct_client_destination fl source_session_id exit_access (destination meta) tun_addresses m then ToClient
          else ToTun)"

end
