(* ===== verification/Session_Laws.thy ===== *)
theory Session_Laws
  imports Sessions
begin

text \<open>
  The session map stays well-formed under admission and eviction, every address has at most one owner, and where a client's
  packet goes.
\<close>

section \<open>Well-formedness\<close>

definition route_wf :: "ClientRoute \<Rightarrow> bool" where
  "route_wf r = (case cr_net r of RouteV4 n \<Rightarrow> cr_prefix r \<le> 32 \<and> route_masked_v4 n (cr_prefix r) = n
                               | RouteV6 n \<Rightarrow> cr_prefix r \<le> 128 \<and> route_masked_v6 n (cr_prefix r) = n)"

definition routes_wf :: "(IpAddr \<rightharpoonup> SessionShared) \<Rightarrow> ClientRoute list \<Rightarrow> bool" where
  "routes_wf live rs \<longleftrightarrow> (\<forall>r. r \<in> set rs \<longrightarrow> route_wf r \<and> live (cr_client_ip r) = Some (cr_session r)) \<and>
     distinct (map (\<lambda>r. (cr_net r, cr_prefix r)) rs)"

definition tables_wf :: "SessionMap \<Rightarrow> bool" where
  "tables_wf m \<longleftrightarrow> (\<forall>k s. by_ip m k = Some s \<longrightarrow> client_ip s = k) \<and>
     (\<forall>a s. by_address m a = Some s \<longrightarrow> a \<in> set (assigned_addresses s) \<and> by_ip m (client_ip s) = Some s) \<and>
     (\<forall>t k. by_token m t = Some k \<longrightarrow> (\<exists>s. by_ip m k = Some s \<and> token s = t))"

lemma masked_idem: "route_masked_v4 (route_masked_v4 a p) p = route_masked_v4 a p" "route_masked_v6 (route_masked_v6 b p) p = route_masked_v6 b p"
  by (simp_all add: route_masked_v4_def route_masked_v6_def and.assoc)

lemma parse_route:
  assumes "ClientRoute_parse cidr ip_key s = Some r"
  shows "route_wf r \<and> cr_client_ip r = ip_key \<and> cr_session r = s"
  using assms by (auto simp: ClientRoute_parse_def route_wf_def Let_def masked_idem split: option.split_asm prod.split_asm IpAddr.split_asm if_split_asm)

section \<open>Removing and inserting\<close>

lemma drop_aliases:
  "fold (drop_alias sid) as m a = (if a \<in> set as \<and> (\<exists>c. m a = Some c \<and> session_id c = sid) then None else m a)"
proof (induction as arbitrary: m)
  case (Cons b as)
  show ?case unfolding fold_simps Cons.IH by (auto simp: drop_alias_def split: option.split if_splits)
qed simp

lemma add_aliases: "fold (\<lambda>a am. am(a \<mapsto> s)) as m a = (if a \<in> set as then Some s else m a)"
  by (induction as arbitrary: m) auto

lemma remove_tables:
  assumes "tables_wf m" and "session_remove k m = (r, m')"
  shows "tables_wf m' \<and> by_ip m' = (by_ip m)(k := None) \<and> client_routes m' = client_routes m \<and> r = by_ip m k"
proof (cases "by_ip m k")
  case None
  then show ?thesis using assms by (simp add: session_remove_def fun_upd_idem)
next
  case (Some s)
  have m': "m' = m\<lparr>by_ip := (by_ip m)(k := None), by_token := (by_token m)(token s := None),
      by_address := fold (drop_alias (session_id s)) (assigned_addresses s) (by_address m)\<rparr>" and r: "r = Some s"
    using assms(2) Some by (simp_all add: session_remove_def)
  have ip: "by_ip m' k' = Some s' \<Longrightarrow> client_ip s' = k'" for k' s' using assms(1) by (auto simp: m' tables_wf_def split: if_split_asm)
  have ad: "a \<in> set (assigned_addresses s') \<and> by_ip m' (client_ip s') = Some s'" if "by_address m' a = Some s'" for a s'
  proof -
    have old: "by_address m a = Some s'" and keep: "\<not> (a \<in> set (assigned_addresses s) \<and> session_id s' = session_id s)"
      using that by (auto simp: m' drop_aliases split: if_split_asm)
    have w: "a \<in> set (assigned_addresses s')" "by_ip m (client_ip s') = Some s'" using assms(1) old by (auto simp: tables_wf_def)
    have "client_ip s' \<noteq> k" using w keep Some by auto
    then show ?thesis using w by (simp add: m')
  qed
  have tk: "\<exists>s'. by_ip m' k' = Some s' \<and> token s' = t" if "by_token m' t = Some k'" for t k'
  proof -
    have old: "by_token m t = Some k'" "t \<noteq> token s" using that by (auto simp: m' split: if_split_asm)
    then obtain s' where s': "by_ip m k' = Some s'" "token s' = t" using assms(1) unfolding tables_wf_def by blast
    have "k' \<noteq> k" using s' old Some by auto
    then show ?thesis using s' by (simp add: m')
  qed
  have "tables_wf m'" unfolding tables_wf_def using ip ad tk by blast
  then show ?thesis using r Some by (simp add: m')
qed

lemma insert_tables:
  assumes "tables_wf m" and "session_insert s m = (r, m')"
  shows "tables_wf m' \<and> by_ip m' = (by_ip m)(client_ip s \<mapsto> s) \<and> client_routes m' = client_routes m \<and> r = by_ip m (client_ip s)"
proof -
  obtain q m1 where rm: "session_remove (client_ip s) m = (q, m1)" by fastforce
  note gone = remove_tables [OF assms(1) rm]
  have m': "m' = m1\<lparr>by_ip := (by_ip m1)(client_ip s \<mapsto> s), by_address := fold (\<lambda>a am. am(a \<mapsto> s)) (assigned_addresses s) (by_address m1),
      by_token := (by_token m1)(token s \<mapsto> client_ip s)\<rparr>" and r: "r = q"
    using assms(2) rm by (simp_all add: session_insert_def)
  have none: "by_ip m1 (client_ip s) = None" using gone by simp
  have w1: "tables_wf m1" using gone by simp
  have ip: "by_ip m' k' = Some s' \<Longrightarrow> client_ip s' = k'" for k' s' using w1 by (auto simp: m' tables_wf_def split: if_split_asm)
  have ad: "a \<in> set (assigned_addresses s') \<and> by_ip m' (client_ip s') = Some s'" if "by_address m' a = Some s'" for a s'
  proof (cases "a \<in> set (assigned_addresses s)")
    case True
    then show ?thesis using that by (simp add: m' add_aliases)
  next
    case False
    then have "by_address m1 a = Some s'" using that by (simp add: m' add_aliases)
    then have w: "a \<in> set (assigned_addresses s')" "by_ip m1 (client_ip s') = Some s'" using w1 by (auto simp: tables_wf_def)
    then have "client_ip s' \<noteq> client_ip s" using none by auto
    then show ?thesis using w by (simp add: m')
  qed
  have tk: "\<exists>s'. by_ip m' k' = Some s' \<and> token s' = t" if "by_token m' t = Some k'" for t k'
  proof (cases "t = token s")
    case True
    then show ?thesis using that by (simp add: m')
  next
    case False
    then have "by_token m1 t = Some k'" using that by (simp add: m')
    then obtain s' where s': "by_ip m1 k' = Some s'" "token s' = t" using w1 unfolding tables_wf_def by blast
    have "k' \<noteq> client_ip s" using s' none by auto
    then show ?thesis using s' by (simp add: m')
  qed
  have "tables_wf m'" unfolding tables_wf_def using ip ad tk by blast
  then show ?thesis using gone r by (simp add: m')
qed

section \<open>Routes\<close>

lemma routes_filter:
  assumes "routes_wf live rs" and "\<And>r. r \<in> set rs \<Longrightarrow> P r \<Longrightarrow> live' (cr_client_ip r) = live (cr_client_ip r)"
  shows "routes_wf live' (filter P rs)"
  using assms by (auto simp: routes_wf_def distinct_map_filter)

lemma routes_add:
  assumes "routes_wf live rs" and "route_wf r" and "live (cr_client_ip r) = Some (cr_session r)" and "\<not> list_ex (\<lambda>existing. same_network existing r) rs"
  shows "routes_wf live (rs @ [r])"
proof -
  have "(cr_net r, cr_prefix r) \<notin> set (map (\<lambda>r. (cr_net r, cr_prefix r)) rs)" using assms(4) by (auto simp: list_ex_iff same_network_def)
  then show ?thesis using assms by (auto simp: routes_wf_def)
qed

lemma register_tables:
  assumes "routes_wf (by_ip m) (client_routes m)" and "by_ip m k = Some s" and "register_client_subnets cs k s tun m = (p, m')"
  shows "routes_wf (by_ip m) (client_routes m') \<and> by_ip m' = by_ip m \<and> by_address m' = by_address m \<and> by_token m' = by_token m"
  using assms
proof (induction cs arbitrary: m p)
  case (Cons c cs)
  show ?case
  proof (cases "ClientRoute_parse c k s")
    case None
    then have "register_client_subnets cs k s tun m = (p, m')" using Cons.prems(3) by (simp split: if_split_asm)
    from Cons.IH [OF Cons.prems(1,2) this] show ?thesis .
  next
    case (Some r)
    note pr = parse_route [OF Some]
    show ?thesis
    proof (cases "client_subnet_family_active c (client_ipv4 s \<noteq> None) (client_ipv6 s \<noteq> None) \<and> \<not> (cr_prefix r \<noteq> 0 \<and> list_ex (route_contains r) tun) \<and>
        \<not> list_ex (\<lambda>existing. same_network existing r) (client_routes m)")
      case True
      let ?m1 = "m\<lparr>client_routes := client_routes m @ [r]\<rparr>"
      obtain q where q: "register_client_subnets cs k s tun ?m1 = (q, m')"
        using Cons.prems(3) Some True by (auto simp: Let_def split: prod.split_asm)
      have "routes_wf (by_ip ?m1) (client_routes ?m1)" using routes_add [OF Cons.prems(1)] pr Cons.prems(2) True by simp
      from Cons.IH [OF this _ q] show ?thesis using Cons.prems(2) by simp
    next
      case False
      then have "register_client_subnets cs k s tun m = (p, m')" using Cons.prems(3) Some by (auto simp: Let_def split: if_split_asm)
      from Cons.IH [OF Cons.prems(1,2) this] show ?thesis .
    qed
  qed
qed simp

section \<open>Reachable maps\<close>

definition map_wf :: "SessionMap \<Rightarrow> bool" where
  "map_wf m \<longleftrightarrow> tables_wf m \<and> routes_wf (by_ip m) (client_routes m)"

inductive sessions_reach :: "SessionMap \<Rightarrow> bool" where
  sr_empty: "sessions_reach SessionMap_empty"
| sr_admit: "sessions_reach m \<Longrightarrow> admit s subnets tun m = (rp, pr, m') \<Longrightarrow> sessions_reach m'"
| sr_evict: "sessions_reach m \<Longrightarrow> evict victim m = (routes, m') \<Longrightarrow> sessions_reach m'"

lemma tables_frame: "by_ip m' = by_ip m \<Longrightarrow> by_address m' = by_address m \<Longrightarrow> by_token m' = by_token m \<Longrightarrow> tables_wf m' = tables_wf m"
  by (simp add: tables_wf_def)

lemma admit_wf:
  assumes "map_wf m" and "admit s subnets tun m = (rp, pr, m')"
  shows "map_wf m'"
proof -
  obtain old m1 where ins: "session_insert s m = (old, m1)" by fastforce
  have wf: "tables_wf m" "routes_wf (by_ip m) (client_routes m)" using assms(1) by (simp_all add: map_wf_def)
  note done1 = insert_tables [OF wf(1) ins]
  define m2 where "m2 = snd (case old of None \<Rightarrow> ([], m1) | Some o1 \<Rightarrow> take_client_routes (client_ip o1) m1)"
  have reg: "register_client_subnets subnets (client_ip s) s tun m2 = (pr, m')"
    using assms(2) ins by (auto simp: admit_def m2_def Let_def split: prod.split_asm)
  have same: "by_ip m2 = by_ip m1" "by_address m2 = by_address m1" "by_token m2 = by_token m1" by (simp_all add: m2_def take_client_routes_def split: option.split)
  have "routes_wf (by_ip m2) (client_routes m2)"
  proof (cases old)
    case None
    then have "cr_client_ip r \<noteq> client_ip s" if "r \<in> set (client_routes m)" for r using wf(2) done1 that by (auto simp: routes_wf_def)
    then show ?thesis using wf(2) done1 None same by (auto simp: m2_def routes_wf_def)
  next
    case (Some o1)
    then have "by_ip m (client_ip s) = Some o1" using done1 by simp
    then have "client_ip o1 = client_ip s" using wf(1) unfolding tables_wf_def by blast
    then have "client_routes m2 = filter (\<lambda>r. cr_client_ip r \<noteq> client_ip s) (client_routes m)" using Some done1 by (simp add: m2_def take_client_routes_def)
    then show ?thesis using routes_filter [OF wf(2), of "\<lambda>r. cr_client_ip r \<noteq> client_ip s" "by_ip m2"] same done1 by simp
  qed
  moreover have "by_ip m2 (client_ip s) = Some s" using same done1 by simp
  ultimately have "routes_wf (by_ip m1) (client_routes m')" "by_ip m' = by_ip m1" "by_address m' = by_address m1" "by_token m' = by_token m1"
    using register_tables [OF _ _ reg] same by simp_all
  then show ?thesis using tables_frame [of m' m1] done1 by (simp add: map_wf_def)
qed

lemma evict_wf:
  assumes "map_wf m" and "evict victim m = (routes, m')"
  shows "map_wf m'"
proof (cases "\<exists>current. by_ip m (client_ip victim) = Some current \<and> session_id current = session_id victim")
  case False
  then show ?thesis using assms by (auto simp: evict_def split: option.split_asm)
next
  case True
  have wf: "tables_wf m" "routes_wf (by_ip m) (client_routes m)" using assms(1) by (simp_all add: map_wf_def)
  obtain q m1 where rm: "session_remove (client_ip victim) m = (q, m1)" by fastforce
  note done1 = remove_tables [OF wf(1) rm]
  have m': "m' = m1\<lparr>client_routes := filter (\<lambda>r. cr_client_ip r \<noteq> client_ip victim) (client_routes m1)\<rparr>"
    using assms(2) True rm by (auto simp: evict_def take_client_routes_def)
  have "routes_wf (by_ip m') (client_routes m')"
    using routes_filter [OF wf(2), of "\<lambda>r. cr_client_ip r \<noteq> client_ip victim" "by_ip m'"] done1 by (simp add: m')
  then show ?thesis using tables_frame [of m' m1] done1 by (simp add: map_wf_def m')
qed

lemma reach_wf: "sessions_reach m \<Longrightarrow> map_wf m"
proof (induction rule: sessions_reach.induct)
  case sr_empty
  then show ?case by (simp add: map_wf_def tables_wf_def routes_wf_def SessionMap_empty_def)
qed (auto intro: admit_wf evict_wf)

section \<open>Ownership\<close>

lemma max_by_key_fold:
  "foldl (\<lambda>acc x. case acc of None \<Rightarrow> Some x | Some y \<Rightarrow> if f y \<le> f x then Some x else Some y) (Some z) xs = Some x \<Longrightarrow>
    x \<in> insert z (set xs) \<and> (\<forall>y. y \<in> insert z (set xs) \<longrightarrow> f y \<le> (f x :: 'k::linorder))"
proof (induction xs arbitrary: z)
  case (Cons w xs)
  show ?case
  proof (cases "f z \<le> f w")
    case True
    then show ?thesis using Cons.IH [of w] Cons.prems by auto
  next
    case False
    then show ?thesis using Cons.IH [of z] Cons.prems by auto
  qed
qed simp

lemma max_by_key_total: "foldl (\<lambda>acc x. case acc of None \<Rightarrow> Some x | Some y \<Rightarrow> if f y \<le> f x then Some x else Some y) (Some z) xs \<noteq> None"
  by (induction xs arbitrary: z) auto

lemma max_by_key_Some: "max_by_key f xs = Some x \<Longrightarrow> x \<in> set xs \<and> (\<forall>y. y \<in> set xs \<longrightarrow> f y \<le> f x)"
  by (cases xs) (auto simp: max_by_key_def dest!: max_by_key_fold)

lemma max_by_key_None: "max_by_key f xs = None \<longleftrightarrow> xs = []"
  using max_by_key_total by (cases xs) (auto simp: max_by_key_def)

text \<open>
  The owner of an address: the session it is assigned to, or else the session of the longest route that covers it.
\<close>

definition owns :: "SessionMap \<Rightarrow> SessionShared \<Rightarrow> IpAddr \<Rightarrow> bool" where
  "owns m s a \<longleftrightarrow> by_address m a = Some s \<or>
     by_address m a = None \<and> (\<exists>r. r \<in> set (client_routes m) \<and> cr_session r = s \<and> route_contains r a \<and>
       (\<forall>r'. r' \<in> set (client_routes m) \<longrightarrow> route_contains r' a \<longrightarrow> cr_prefix r' \<le> cr_prefix r))"

lemma contains_net: "route_contains r a \<Longrightarrow> route_contains r' a \<Longrightarrow> cr_prefix r = cr_prefix r' \<Longrightarrow> cr_net r = cr_net r'"
  by (auto simp: route_contains_def split: RouteNetwork.split_asm IpAddr.split_asm)

lemma longest_unique:
  assumes "routes_wf live rs" and "r \<in> set rs" "r' \<in> set rs" and "route_contains r a" "route_contains r' a"
    and "\<And>x. x \<in> set rs \<Longrightarrow> route_contains x a \<Longrightarrow> cr_prefix x \<le> cr_prefix r"
    and "\<And>x. x \<in> set rs \<Longrightarrow> route_contains x a \<Longrightarrow> cr_prefix x \<le> cr_prefix r'"
  shows "r = r'"
proof -
  have p: "cr_prefix r = cr_prefix r'" using assms(2-7) by (meson antisym)
  have n: "cr_net r = cr_net r'" using contains_net [OF assms(4,5) p] .
  have "inj_on (\<lambda>r. (cr_net r, cr_prefix r)) (set rs)" using assms(1) by (simp add: routes_wf_def distinct_map)
  then show ?thesis using assms(2,3) p n by (auto dest: inj_onD)
qed

lemma route_match_iff:
  assumes "map_wf m"
  shows "route_match a m = Some r \<longleftrightarrow> r \<in> set (client_routes m) \<and> route_contains r a \<and>
    (\<forall>x. x \<in> set (client_routes m) \<longrightarrow> route_contains x a \<longrightarrow> cr_prefix x \<le> cr_prefix r)"
proof
  assume "route_match a m = Some r"
  from max_by_key_Some [OF this [unfolded route_match_def]] show "r \<in> set (client_routes m) \<and> route_contains r a \<and> (\<forall>x. x \<in> set (client_routes m) \<longrightarrow> route_contains x a \<longrightarrow> cr_prefix x \<le> cr_prefix r)"
    by simp
next
  assume r: "r \<in> set (client_routes m) \<and> route_contains r a \<and> (\<forall>x. x \<in> set (client_routes m) \<longrightarrow> route_contains x a \<longrightarrow> cr_prefix x \<le> cr_prefix r)"
  then have "filter (\<lambda>r. route_contains r a) (client_routes m) \<noteq> []" by (auto simp: filter_empty_conv)
  then obtain r' where r': "route_match a m = Some r'"
    using max_by_key_None [of cr_prefix "filter (\<lambda>r. route_contains r a) (client_routes m)"] by (cases "route_match a m") (simp_all add: route_match_def)
  have x: "r' \<in> set (client_routes m)" "route_contains r' a" "\<And>x. x \<in> set (client_routes m) \<Longrightarrow> route_contains x a \<Longrightarrow> cr_prefix x \<le> cr_prefix r'"
    using max_by_key_Some [OF r' [unfolded route_match_def]] by simp_all
  have "r = r'" by (rule longest_unique [of "by_ip m" "client_routes m"]) (use r x assms in \<open>auto simp: map_wf_def\<close>)
  then show "route_match a m = Some r" using r' by simp
qed

lemma owns_lookup:
  assumes "map_wf m"
  shows "owns m s a \<longleftrightarrow> (case get_by_address a m of Some s' \<Rightarrow> Some s' | None \<Rightarrow> route_lookup a m) = Some s"
  using route_match_iff [OF assms, of a] unfolding owns_def get_by_address_def route_lookup_def
  by (cases "by_address m a") (auto simp: map_option_eq_Some)

lemma owner_unique: "map_wf m \<Longrightarrow> owns m s a \<Longrightarrow> owns m s' a \<Longrightarrow> s = s'"
  by (simp add: owns_lookup)

lemma owner_live:
  assumes "map_wf m" and "owns m s a"
  shows "by_ip m (client_ip s) = Some s"
proof (cases "by_address m a")
  case None
  then obtain r where "r \<in> set (client_routes m)" "cr_session r = s" using assms(2) by (auto simp: owns_def)
  then have "by_ip m (cr_client_ip r) = Some s" using assms(1) by (auto simp: map_wf_def routes_wf_def)
  moreover from this have "client_ip s = cr_client_ip r" using assms(1) unfolding map_wf_def tables_wf_def by blast
  ultimately show ?thesis by simp
next
  case (Some s')
  then have "s' = s" using assms(2) by (simp add: owns_def)
  then show ?thesis using assms(1) Some unfolding map_wf_def tables_wf_def by blast
qed

lemma source_owned_iff:
  assumes "map_wf m"
  shows "source_owned_by fl sid a m \<longleftrightarrow> (\<exists>s. owns m s a \<and> session_id s = sid \<and> \<not> revoked (fl sid) \<and> \<not> closing (fl sid))"
  using owner_live [OF assms, of _ a] owns_lookup [OF assms, of _ a] unfolding source_owned_by_def
  by (auto split: option.split)

text \<open>The longest route is a default exactly when no other route covers the address.\<close>

lemma direct_iff:
  assumes wf: "map_wf m"
  shows "direct_client_destination fl sid ea a tuns m \<longleftrightarrow> a \<notin> set tuns \<and>
    (\<exists>s. owns m s a \<and> session_id s \<noteq> sid \<and> \<not> revoked (fl (session_id s)) \<and>
      (by_address m a = Some s \<or> exit_allows ea a \<or> (\<exists>r. r \<in> set (client_routes m) \<and> route_contains r a \<and> cr_prefix r \<noteq> 0)))"
proof (cases "by_address m a")
  case (Some s)
  then show ?thesis by (simp add: direct_client_destination_def get_by_address_def owns_def)
next
  case None
  show ?thesis
  proof (cases "route_match a m")
    case none: None
    then show ?thesis using None owns_lookup [OF wf, of _ a]
      by (simp add: direct_client_destination_def get_by_address_def route_lookup_def)
  next
    case (Some r)
    have r: "r \<in> set (client_routes m)" "route_contains r a" "\<And>x. x \<in> set (client_routes m) \<Longrightarrow> route_contains x a \<Longrightarrow> cr_prefix x \<le> cr_prefix r"
      using route_match_iff [OF wf] Some by auto
    have d: "(\<exists>x. x \<in> set (client_routes m) \<and> route_contains x a \<and> cr_prefix x \<noteq> 0) \<longleftrightarrow> cr_prefix r \<noteq> 0"
      using r word_coorder.extremum_unique by metis
    have o: "owns m s a \<longleftrightarrow> s = cr_session r" for s using owns_lookup [OF wf, of s a] None Some
      by (auto simp: get_by_address_def route_lookup_def)
    show ?thesis unfolding d o using None Some by (auto simp: direct_client_destination_def get_by_address_def)
  qed
qed

section \<open>Properties\<close>

text \<open>
  C39. The session map is well-formed after any admissions and evictions: a session stands under its own primary address, every
  alias and every join token leads to a live session that has it, every route leads to a live session and no two routes have
  the same network, and no address has two owners.
\<close>

theorem session_map_well_formed:
  assumes "sessions_reach m"
  shows "(\<forall>k s. by_ip m k = Some s \<longrightarrow> client_ip s = k) \<and>
    (\<forall>a s. by_address m a = Some s \<longrightarrow> a \<in> set (assigned_addresses s) \<and> by_ip m (client_ip s) = Some s) \<and>
    (\<forall>t k. by_token m t = Some k \<longrightarrow> (\<exists>s. by_ip m k = Some s \<and> token s = t)) \<and>
    (\<forall>r. r \<in> set (client_routes m) \<longrightarrow> by_ip m (cr_client_ip r) = Some (cr_session r)) \<and>
    distinct (map (\<lambda>r. (cr_net r, cr_prefix r)) (client_routes m)) \<and>
    (\<forall>a s s'. owns m s a \<longrightarrow> owns m s' a \<longrightarrow> s = s')"
  using reach_wf [OF assms] owner_unique [OF reach_wf [OF assms]] unfolding map_wf_def tables_wf_def routes_wf_def by blast

text \<open>
  C16. Where a client's packet goes, when it parses. It is delivered at all exactly when it does not claim the server's own address
  and comes from an address the sending session owns - by lease, or by the longest route that covers it when nobody has the
  lease - while the session is neither revoked nor closing. It goes straight to another client exactly when that is enabled
  and a different, unrevoked session owns the destination, which is not the server's, a default route counting only for a client
  granted that exit.
\<close>

theorem client_packet_delivery:
  assumes "sessions_reach m" and "parse_ip_packet packet = Ok meta"
  shows "(send_client_packet fl tuns c2c sid ea packet m \<noteq> Dropped \<longleftrightarrow>
      source meta \<notin> set tuns \<and> (\<exists>s. owns m s (source meta) \<and> session_id s = sid) \<and> \<not> revoked (fl sid) \<and> \<not> closing (fl sid)) \<and>
    (send_client_packet fl tuns c2c sid ea packet m = ToClient \<longleftrightarrow>
      send_client_packet fl tuns c2c sid ea packet m \<noteq> Dropped \<and> c2c \<and> destination meta \<notin> set tuns \<and>
      (\<exists>s. owns m s (destination meta) \<and> session_id s \<noteq> sid \<and> \<not> revoked (fl (session_id s)) \<and>
        (by_address m (destination meta) = Some s \<or> exit_allows ea (destination meta) \<or>
         (\<exists>r. r \<in> set (client_routes m) \<and> route_contains r (destination meta) \<and> cr_prefix r \<noteq> 0))))"
proof -
  note wf = reach_wf [OF assms(1)]
  have src: "source_owned_by fl sid (source meta) m \<longleftrightarrow> (\<exists>s. owns m s (source meta) \<and> session_id s = sid) \<and> \<not> revoked (fl sid) \<and> \<not> closing (fl sid)"
    using source_owned_iff [OF wf] by blast
  show ?thesis using direct_iff [OF wf, of fl sid ea "destination meta" tuns] src assms(2)
    by (simp add: send_client_packet_def)
qed

section \<open>Two sessions\<close>

definition demo_alice :: SessionShared where
  "demo_alice = \<lparr>session_id = 1, client_ip = V4 0x0A070003, client_ipv4 = Some 0x0A070003, client_ipv6 = None, token = [1]\<rparr>"

definition demo_bob :: SessionShared where
  "demo_bob = \<lparr>session_id = 2, client_ip = V4 0x0A070004, client_ipv4 = Some 0x0A070004, client_ipv6 = None, token = [2]\<rparr>"

definition demo_map :: SessionMap where
  "demo_map = snd (snd (admit demo_bob [''192.168.5.0/24''] [V4 0x0A070001] (snd (snd (admit demo_alice [] [V4 0x0A070001] SessionMap_empty)))))"

definition demo_client_packet :: bytes where
  "demo_client_packet = [0x45, 0, 0, 20, 0, 0, 0, 0, 64, 17, 0, 0, 10, 7, 0, 3, 192, 168, 5, 9]"

lemma admit_reach: "sessions_reach m \<Longrightarrow> sessions_reach (snd (snd (admit s subnets tun m)))"
  by (rule sr_admit [of m s subnets tun "fst (admit s subnets tun m)" "fst (snd (admit s subnets tun m))"]) simp_all

lemma demo_map_reach: "sessions_reach demo_map"
  unfolding demo_map_def by (intro admit_reach sr_empty)

lemma demo_map_tables:
  "by_address demo_map (V4 0x0A070003) = Some demo_alice \<and> by_address demo_map (V4 0xC0A80509) = None \<and>
    map (\<lambda>r. (cr_net r, cr_prefix r, cr_session r)) (client_routes demo_map) = [(RouteV4 0xC0A80500, 24, demo_bob)]"
  by code_simp

lemma demo_packet_parses:
  "\<exists>meta. parse_ip_packet demo_client_packet = Ok meta \<and> source meta = V4 0x0A070003 \<and> destination meta = V4 0xC0A80509"
proof -
  have b: "be16_at demo_client_packet 2 = 20" "be16_at demo_client_packet 6 = 0" by code_simp+
  have a: "ipv4_new 10 7 0 3 = 0x0A070003" "ipv4_new 192 168 5 9 = 0xC0A80509" by code_simp+
  have len: "length demo_client_packet = 20" by (simp add: demo_client_packet_def)
  have "parse_ip_packet demo_client_packet = parse_ipv4 demo_client_packet" by (simp add: parse_ip_packet_def demo_client_packet_def)
  also have "\<exists>meta. parse_ipv4 demo_client_packet = Ok meta \<and> source meta = V4 0x0A070003 \<and> destination meta = V4 0xC0A80509"
    unfolding parse_ipv4_def len b by (simp add: IPV4_MIN_HEADER_def Let_def demo_client_packet_def a)
  finally show ?thesis .
qed

theorem session_map_well_formed_witness:
  "by_ip demo_map (V4 0x0A070003) = Some demo_alice \<and> distinct (map (\<lambda>r. (cr_net r, cr_prefix r)) (client_routes demo_map))"
proof -
  have "client_ip demo_alice = V4 0x0A070003" by (simp add: demo_alice_def)
  then show ?thesis using session_map_well_formed [OF demo_map_reach] demo_map_tables by metis
qed

theorem client_packet_delivery_witness:
  "send_client_packet (\<lambda>_. \<lparr>ndp_ready = True, revoked = False, closing = False\<rparr>) [V4 0x0A070001] True 1 \<lparr>exit_ipv4 = False, exit_ipv6 = False\<rparr> demo_client_packet demo_map
    = ToClient"
proof -
  obtain meta where meta: "parse_ip_packet demo_client_packet = Ok meta" "source meta = V4 0x0A070003" "destination meta = V4 0xC0A80509"
    using demo_packet_parses by blast
  obtain r where r: "client_routes demo_map = [r]" "cr_net r = RouteV4 0xC0A80500" "cr_prefix r = 24" "cr_session r = demo_bob"
    using demo_map_tables by (auto simp: map_eq_Cons_conv)
  have c: "route_contains r (V4 0xC0A80509)" using r(2,3) by (simp add: route_contains_def) code_simp
  have s: "owns demo_map demo_alice (V4 0x0A070003)" "owns demo_map demo_bob (V4 0xC0A80509)"
    using demo_map_tables r c by (simp_all add: owns_def)
  show ?thesis using client_packet_delivery [OF demo_map_reach meta(1)] meta s r c
    by (auto simp: demo_alice_def demo_bob_def)
qed

end
