(* ===== verification/Ctrl.thy ===== *)
theory Ctrl
  imports Packet_Codec Ip_Packet
begin

unbundle bit_operations_syntax

text \<open>
  The in-tunnel control frames of \<^verbatim>\<open>protocol/ctrl.rs\<close>. A Rust string is the list of its UTF-8 bytes;
  \<open>from_utf8\<close> is the check of the standard library.
\<close>

section \<open>Strings\<close>

definition utf8_tail :: "byte \<Rightarrow> bool" where "utf8_tail b \<longleftrightarrow> 0x80 \<le> b \<and> b \<le> 0xBF"

fun utf8_valid :: "bytes \<Rightarrow> bool" where
  "utf8_valid [] = True"
| "utf8_valid (a # s) =
     (if a < 0x80 then utf8_valid s
      else if 0xC2 \<le> a \<and> a \<le> 0xDF then
        (case s of b # r \<Rightarrow> utf8_tail b \<and> utf8_valid r | _ \<Rightarrow> False)
      else if 0xE0 \<le> a \<and> a \<le> 0xEF then
        (case s of
           b # c # r \<Rightarrow> utf8_tail b \<and> (a = 0xE0 \<longrightarrow> 0xA0 \<le> b) \<and> (a = 0xED \<longrightarrow> b \<le> 0x9F)
             \<and> utf8_tail c \<and> utf8_valid r
         | _ \<Rightarrow> False)
      else if 0xF0 \<le> a \<and> a \<le> 0xF4 then
        (case s of
           b # c # d # r \<Rightarrow> utf8_tail b \<and> (a = 0xF0 \<longrightarrow> 0x90 \<le> b) \<and> (a = 0xF4 \<longrightarrow> b \<le> 0x8F)
             \<and> utf8_tail c \<and> utf8_tail d \<and> utf8_valid r
         | _ \<Rightarrow> False)
      else False)"

definition from_utf8 :: "bytes \<Rightarrow> bytes option" where
  "from_utf8 bs = (if utf8_valid bs then Some bs else None)"

definition text_bytes :: "string \<Rightarrow> bytes" where "text_bytes = map (of_nat \<circ> of_char)"

definition ascii_digit :: "byte \<Rightarrow> bool" where "ascii_digit b \<longleftrightarrow> 0x30 \<le> b \<and> b \<le> 0x39"
definition ascii_lowercase :: "byte \<Rightarrow> bool" where "ascii_lowercase b \<longleftrightarrow> 0x61 \<le> b \<and> b \<le> 0x7A"
definition ascii_uppercase :: "byte \<Rightarrow> bool" where "ascii_uppercase b \<longleftrightarrow> 0x41 \<le> b \<and> b \<le> 0x5A"
definition ascii_alphanumeric :: "byte \<Rightarrow> bool" where
  "ascii_alphanumeric b \<longleftrightarrow> ascii_digit b \<or> ascii_lowercase b \<or> ascii_uppercase b"

section \<open>Constants\<close>

definition CTRL_MAGIC :: bytes where "CTRL_MAGIC = [0xC1, 0x9B]"
definition CTRL_HDR_LEN :: nat where "CTRL_HDR_LEN = 4"
definition CTRL_MTU_REPORT :: u8 where "CTRL_MTU_REPORT = 1"
definition CTRL_CLIENT_INFO :: u8 where "CTRL_CLIENT_INFO = 2"
definition CTRL_UDP_PAYLOAD_BUDGET :: u8 where "CTRL_UDP_PAYLOAD_BUDGET = 3"
definition MAX_CLIENT_VERSION_LEN :: nat where "MAX_CLIENT_VERSION_LEN = 32"
definition MAX_CLIENT_PLATFORM_LEN :: nat where "MAX_CLIENT_PLATFORM_LEN = 16"
definition MIN_REPORTED_MTU :: u16 where "MIN_REPORTED_MTU = 576"
definition MAX_REPORTED_MTU :: u16 where "MAX_REPORTED_MTU = of_nat MAX_TUNNEL_MTU"

lemmas ctrl_consts = CTRL_MAGIC_def CTRL_HDR_LEN_def CTRL_MTU_REPORT_def CTRL_CLIENT_INFO_def
  CTRL_UDP_PAYLOAD_BUDGET_def MAX_CLIENT_VERSION_LEN_def MAX_CLIENT_PLATFORM_LEN_def

section \<open>Frames\<close>

definition is_ctrl :: "bytes \<Rightarrow> bool" where
  "is_ctrl p \<longleftrightarrow> CTRL_HDR_LEN \<le> length p \<and> p ! 0 = CTRL_MAGIC ! 0 \<and> p ! 1 = CTRL_MAGIC ! 1"

definition parse_ctrl :: "bytes \<Rightarrow> (u8 \<times> bytes) option" where
  "parse_ctrl p =
     (if \<not> is_ctrl p then None
      else (let ty = p ! 2; len = unat (p ! 3) in
        if length p \<noteq> CTRL_HDR_LEN + len then None
        else Some (ty, slice CTRL_HDR_LEN (CTRL_HDR_LEN + len) p)))"

definition mtu_report :: "u16 \<Rightarrow> bytes" where
  "mtu_report mtu = CTRL_MAGIC @ [CTRL_MTU_REPORT] @ [2] @ to_be_bytes mtu"

definition udp_payload_budget_report :: "u16 \<Rightarrow> bytes" where
  "udp_payload_budget_report n = CTRL_MAGIC @ [CTRL_UDP_PAYLOAD_BUDGET] @ [2] @ to_be_bytes n"

definition parse_mtu_report :: "bytes \<Rightarrow> u16 option" where
  "parse_mtu_report p =
     (case parse_ctrl p of
        None \<Rightarrow> None
      | Some (ty, body) \<Rightarrow>
          if ty \<noteq> CTRL_MTU_REPORT \<or> length body \<noteq> 2 then None
          else Some (max MIN_REPORTED_MTU (min MAX_REPORTED_MTU (from_be_bytes [body ! 0, body ! 1]))))"

definition parse_udp_payload_budget_report :: "bytes \<Rightarrow> u16 option" where
  "parse_udp_payload_budget_report p =
     (case parse_ctrl p of
        None \<Rightarrow> None
      | Some (ty, body) \<Rightarrow>
          if ty \<noteq> CTRL_UDP_PAYLOAD_BUDGET \<or> length body \<noteq> 2 then None
          else Some (from_be_bytes [body ! 0, body ! 1]))"

section \<open>Client identity\<close>

definition valid_version :: "bytes \<Rightarrow> bool" where
  "valid_version s \<longleftrightarrow> s \<noteq> [] \<and> length s \<le> MAX_CLIENT_VERSION_LEN
     \<and> list_all (\<lambda>b. ascii_alphanumeric b \<or> b \<in> set [0x2E, 0x2D, 0x2B, 0x5F]) s"

definition valid_platform :: "bytes \<Rightarrow> bool" where
  "valid_platform s \<longleftrightarrow> s \<noteq> [] \<and> length s \<le> MAX_CLIENT_PLATFORM_LEN
     \<and> list_all (\<lambda>b. ascii_lowercase b \<or> ascii_digit b \<or> b = 0x2D) s"

definition client_info :: "bytes \<Rightarrow> bytes \<Rightarrow> bytes option" where
  "client_info ver platform =
     (if \<not> valid_version ver \<or> \<not> valid_platform platform then None
      else (let body_len = 1 + length ver + length platform in
        if 255 < body_len then None
        else Some (CTRL_MAGIC @ [CTRL_CLIENT_INFO] @ [of_nat body_len] @ [of_nat (length ver)]
               @ ver @ platform)))"

definition parse_client_info :: "bytes \<Rightarrow> (bytes \<times> bytes) option" where
  "parse_client_info p =
     (case parse_ctrl p of
        None \<Rightarrow> None
      | Some (ty, body) \<Rightarrow>
          if ty \<noteq> CTRL_CLIENT_INFO \<or> body = [] then None
          else (let vlen = unat (body ! 0) in
            if length body < 1 + vlen then None
            else (case from_utf8 (slice 1 (1 + vlen) body) of
               None \<Rightarrow> None
             | Some ver \<Rightarrow>
                 (case from_utf8 (drop (1 + vlen) body) of
                    None \<Rightarrow> None
                  | Some platform \<Rightarrow>
                      if \<not> valid_version ver \<or> \<not> valid_platform platform then None
                      else Some (ver, platform)))))"

definition platform_tag :: "bytes \<Rightarrow> bytes" where
  "platform_tag os =
     (if os \<in> set (map text_bytes [''linux'', ''windows'', ''macos'', ''android'', ''ios'', ''freebsd'']) then os
      else text_bytes ''other'')"

definition this_build :: "bytes \<Rightarrow> bytes \<Rightarrow> bytes option" where
  "this_build pkg_version os = client_info pkg_version (platform_tag os)"

section \<open>Round trips\<close>

lemma parse_frame:
  "length body \<le> 255 \<Longrightarrow> parse_ctrl (CTRL_MAGIC @ [ty] @ [of_nat (length body)] @ body) = Some (ty, body)"
  by (simp add: parse_ctrl_def is_ctrl_def ctrl_consts slice_def unat_of_nat_eq')

lemma report_body: "length (to_be_bytes (m :: u16)) = 2"
    "(from_be_bytes [to_be_bytes m ! 0, to_be_bytes m ! 1] :: u16) = m"
  by (rule u16_be_bytes [of m], simp)+

lemma reports_read_back:
  "parse_mtu_report (mtu_report m) = Some (max MIN_REPORTED_MTU (min MAX_REPORTED_MTU m))"
  "parse_udp_payload_budget_report (udp_payload_budget_report m) = Some m"
  using parse_frame [of "to_be_bytes m" CTRL_MTU_REPORT] parse_frame [of "to_be_bytes m" CTRL_UDP_PAYLOAD_BUDGET]
  by (simp_all add: parse_mtu_report_def mtu_report_def parse_udp_payload_budget_report_def
      udp_payload_budget_report_def report_body [simplified])

lemma ascii_utf8: "list_all (\<lambda>b. b < 0x80) s \<Longrightarrow> utf8_valid s"
  by (induction s) simp_all

lemma ascii_small: "ascii_alphanumeric b \<or> b = 0x2E \<or> b = 0x2D \<or> b = 0x2B \<or> b = 0x5F \<Longrightarrow> b < 0x80"
  by (auto simp: ascii_alphanumeric_def ascii_digit_def ascii_lowercase_def ascii_uppercase_def
      word_le_nat_alt word_less_nat_alt)

lemma valid_texts_utf8:
  assumes "valid_version s \<or> valid_platform s"
  shows "utf8_valid s"
proof (rule ascii_utf8)
  have "list_all (\<lambda>b. ascii_alphanumeric b \<or> b = 0x2E \<or> b = 0x2D \<or> b = 0x2B \<or> b = 0x5F) s"
    using assms by (auto simp: valid_version_def valid_platform_def ascii_alphanumeric_def list_all_iff)
  then show "list_all (\<lambda>b. b < 0x80) s" using ascii_small unfolding list_all_iff by blast
qed

lemma client_info_reads_back:
  assumes "client_info v p = Some f"
  shows "parse_client_info f = Some (v, p)"
proof -
  let ?body = "[of_nat (length v)] @ v @ p"
  have ok: "valid_version v" "valid_platform p" and f: "f = CTRL_MAGIC @ [CTRL_CLIENT_INFO] @ [of_nat (length ?body)] @ ?body"
    using assms by (auto simp: client_info_def Let_def split: if_splits)
  have l: "length v \<le> 32" "length p \<le> 16"
    using ok by (simp_all add: valid_version_def valid_platform_def ctrl_consts)
  have "utf8_valid v" "utf8_valid p" using ok valid_texts_utf8 by blast+
  moreover have "unat (of_nat (length v) :: byte) = length v" using l by (intro unat_of_nat_eq') simp
  ultimately show ?thesis
    using parse_frame [of ?body CTRL_CLIENT_INFO] ok l unfolding f
    by (simp add: parse_client_info_def from_utf8_def slice_def)
qed

text \<open>A control frame is not an IP packet, and an IP packet is not a control frame.\<close>

lemma ctrl_not_ip: "is_ctrl p \<Longrightarrow> parse_ip_packet p = Err (UnsupportedVersion 12)"
  by (cases p) (simp_all add: is_ctrl_def parse_ip_packet_def ctrl_consts)

end
