(* ===== verification/Control_V2.thy ===== *)
theory Control_V2
  imports Crypto_Primitives Ctrl "HOL-Library.AList"
begin

unbundle bit_operations_syntax

text \<open>
  The versioned control frames of \<^verbatim>\<open>protocol/control_v2.rs\<close>: the frame format and its checks,
  fragmentation of a message, and the bounded in-order reassembler with its cache of finished
  messages. The JSON text of a management event is produced and read by a library, so its reader and
  writer are parameters; the texts of the error messages are left out.
\<close>

section \<open>Constants and data\<close>

definition CV2_MAGIC :: bytes where "CV2_MAGIC = [0xC1, 0x9C]"
definition CV2_VERSION :: u8 where "CV2_VERSION = 2"
definition CV2_HEADER_LEN :: nat where "CV2_HEADER_LEN = 15"
definition FLAG_ACK_REQUIRED :: u8 where "FLAG_ACK_REQUIRED = 1"
definition FLAG_ACK :: u8 where "FLAG_ACK = push_bit 1 1"
definition FLAG_ERROR :: u8 where "FLAG_ERROR = push_bit 2 1"
definition KNOWN_FLAGS :: u8 where "KNOWN_FLAGS = FLAG_ACK_REQUIRED OR FLAG_ACK OR FLAG_ERROR"
definition TYPE_ACK :: u8 where "TYPE_ACK = 0x01"
definition TYPE_ERROR :: u8 where "TYPE_ERROR = 0x02"
definition TYPE_NOTICE :: u8 where "TYPE_NOTICE = 0x11"
definition TYPE_CLOSE_SESSION :: u8 where "TYPE_CLOSE_SESSION = 0x25"
definition TYPE_KICK :: u8 where "TYPE_KICK = 0x27"
definition MAX_PART_PAYLOAD :: nat where "MAX_PART_PAYLOAD = 4 * 1024"
definition MAX_PARTS :: u16 where "MAX_PARTS = 16"
definition MAX_MESSAGE_SIZE :: nat where "MAX_MESSAGE_SIZE = MAX_PART_PAYLOAD * unat MAX_PARTS"
definition MAX_INFLIGHT_MESSAGES :: nat where "MAX_INFLIGHT_MESSAGES = 8"
definition COMPLETED_ID_CACHE :: nat where "COMPLETED_ID_CACHE = 64"
definition CV2_REASSEMBLY_TIMEOUT :: duration where "CV2_REASSEMBLY_TIMEOUT = duration_secs 5"
definition MAX_MANAGEMENT_TEXT_BYTES :: nat where "MAX_MANAGEMENT_TEXT_BYTES = 512"

lemmas cv2_consts = CV2_MAGIC_def CV2_VERSION_def CV2_HEADER_LEN_def TYPE_ACK_def TYPE_ERROR_def
  TYPE_NOTICE_def TYPE_CLOSE_SESSION_def TYPE_KICK_def MAX_PART_PAYLOAD_def MAX_PARTS_def MAX_MESSAGE_SIZE_def
  MAX_INFLIGHT_MESSAGES_def COMPLETED_ID_CACHE_def

datatype ControlV2Error = NotControlV2 | CvTruncated | UnsupportedCvVersion u8 | CvInvalidFlags u8
  | InvalidStatusFrame | CvInvalidLength | CvInvalidFragment | PartTooLarge | MessageTooLarge | TooManyParts
  | CvResourceLimit | OutOfOrder | CvConflict | InvalidManagementPayload

record CvFrame =
  fr_message_type :: u8
  fr_flags :: u8
  fr_message_id :: u32
  fr_part_index :: u16
  fr_part_count :: u16
  fr_payload :: bytes

record CvMessage =
  msg_message_type :: u8
  msg_flags :: u8
  msg_message_id :: u32
  msg_payload :: bytes

section \<open>The frame format\<close>

definition validate_metadata :: "CvFrame \<Rightarrow> (ControlV2Error, unit) result" where
  "validate_metadata frame =
     (let unknown = fr_flags frame AND NOT KNOWN_FLAGS in
      if unknown \<noteq> 0 then Err (CvInvalidFlags unknown)
      else if MAX_PART_PAYLOAD < length (fr_payload frame) \<or> u16_max < length (fr_payload frame) then Err PartTooLarge
      else if fr_part_count frame = 0 \<or> fr_part_count frame \<le> fr_part_index frame then Err CvInvalidFragment
      else if MAX_PARTS < fr_part_count frame then Err TooManyParts
      else (let ack = (fr_flags frame AND FLAG_ACK \<noteq> 0); error = (fr_flags frame AND FLAG_ERROR \<noteq> 0) in
        if ack \<and> error
          \<or> ack \<noteq> (fr_message_type frame = TYPE_ACK)
          \<or> error \<noteq> (fr_message_type frame = TYPE_ERROR)
          \<or> (ack \<or> error) \<and> fr_flags frame AND FLAG_ACK_REQUIRED \<noteq> 0
          \<or> (ack \<or> error) \<and> fr_part_count frame \<noteq> 1
          \<or> ack \<and> fr_payload frame \<noteq> []
        then Err InvalidStatusFrame else Ok ()))"

definition frame_encode :: "CvFrame \<Rightarrow> (ControlV2Error, bytes) result" where
  "frame_encode frame =
     (case validate_metadata frame of
        Inl e \<Rightarrow> Err e
      | Inr _ \<Rightarrow> Ok (CV2_MAGIC @ [CV2_VERSION] @ [fr_message_type frame] @ [fr_flags frame]
          @ to_be_bytes (fr_message_id frame) @ to_be_bytes (fr_part_index frame)
          @ to_be_bytes (fr_part_count frame)
          @ to_be_bytes (of_nat (length (fr_payload frame)) :: u16) @ fr_payload frame))"

definition is_control_v2 :: "bytes \<Rightarrow> bool" where
  "is_control_v2 bs \<longleftrightarrow> length CV2_MAGIC \<le> length bs \<and> take (length CV2_MAGIC) bs = CV2_MAGIC"

definition cv2_decode :: "bytes \<Rightarrow> (ControlV2Error, CvFrame) result" where
  "cv2_decode bs =
     (if \<not> is_control_v2 bs then Err NotControlV2
      else if length bs < CV2_HEADER_LEN then Err CvTruncated
      else if bs ! 2 \<noteq> CV2_VERSION then Err (UnsupportedCvVersion (bs ! 2))
      else (let payload_len = unat (from_be_bytes [bs ! 13, bs ! 14] :: u16) in
        case checked_add CV2_HEADER_LEN payload_len of
          None \<Rightarrow> Err CvInvalidLength
        | Some total_len \<Rightarrow>
            if total_len \<noteq> length bs then Err (if length bs < total_len then CvTruncated else CvInvalidLength)
            else (let frame = \<lparr>fr_message_type = bs ! 3, fr_flags = bs ! 4,
                     fr_message_id = from_be_bytes (slice 5 9 bs), fr_part_index = from_be_bytes (slice 9 11 bs),
                     fr_part_count = from_be_bytes (slice 11 13 bs), fr_payload = drop CV2_HEADER_LEN bs\<rparr>
                  in case validate_metadata frame of Inl e \<Rightarrow> Err e | Inr _ \<Rightarrow> Ok frame)))"

section \<open>Messages\<close>

fun encode_parts :: "u8 \<Rightarrow> u8 \<Rightarrow> u32 \<Rightarrow> nat \<Rightarrow> nat \<Rightarrow> bytes list \<Rightarrow> (ControlV2Error, bytes list) result" where
  "encode_parts ty flags mid count i [] = Ok []"
| "encode_parts ty flags mid count i (part # parts) =
     (case frame_encode \<lparr>fr_message_type = ty, fr_flags = flags, fr_message_id = mid,
          fr_part_index = of_nat i, fr_part_count = of_nat count, fr_payload = part\<rparr> of
        Inl e \<Rightarrow> Err e
      | Inr frame \<Rightarrow> (case encode_parts ty flags mid count (i + 1) parts of
           Inl e \<Rightarrow> Err e
         | Inr frames \<Rightarrow> Ok (frame # frames)))"

definition fragment_message :: "u8 \<Rightarrow> u8 \<Rightarrow> u32 \<Rightarrow> bytes \<Rightarrow> (ControlV2Error, bytes list) result" where
  "fragment_message ty flags mid payload =
     (if MAX_MESSAGE_SIZE < length payload then Err MessageTooLarge
      else (let part_count = div_ceil (max (length payload) 1) MAX_PART_PAYLOAD in
        if unat MAX_PARTS < part_count then Err TooManyParts
        else if payload = [] then encode_parts ty flags mid 1 0 [payload]
        else encode_parts ty flags mid part_count 0 (chunks MAX_PART_PAYLOAD payload)))"

text \<open>The two fixed frames; \<^verbatim>\<open>expect\<close> on an invalid frame would panic, which is \<open>None\<close>.\<close>

definition expect_ok :: "('e, 'a) result \<Rightarrow> 'a option" where
  "expect_ok r = (case r of Inl _ \<Rightarrow> None | Inr a \<Rightarrow> Some a)"

definition ack_frame :: "u32 \<Rightarrow> bytes option" where
  "ack_frame mid = expect_ok (frame_encode \<lparr>fr_message_type = TYPE_ACK, fr_flags = FLAG_ACK,
     fr_message_id = mid, fr_part_index = 0, fr_part_count = 1, fr_payload = []\<rparr>)"

definition close_session :: "u32 \<Rightarrow> bytes option" where
  "close_session mid = expect_ok (frame_encode \<lparr>fr_message_type = TYPE_CLOSE_SESSION, fr_flags = 0,
     fr_message_id = mid, fr_part_index = 0, fr_part_count = 1, fr_payload = []\<rparr>)"

definition is_close_session :: "CvFrame \<Rightarrow> bool" where
  "is_close_session frame \<longleftrightarrow> fr_message_type frame = TYPE_CLOSE_SESSION \<and> fr_flags frame = 0
     \<and> fr_part_index frame = 0 \<and> fr_part_count frame = 1 \<and> fr_payload frame = []"


section \<open>Management events\<close>

datatype KickReason = KickAdministrative | KickQuotaExceeded | KickAccountExpired | KickSessionSuperseded
  | KickProfileDisabled

record Kick =
  kick_reason :: KickReason
  kick_message :: bytes
  reconnect_allowed :: bool

datatype NoticeKind = NoticeAdministrative | QuotaWarning | ExpiryWarning

datatype NoticeSeverity = NoticeInfo | NoticeWarning

record Notice =
  notice_kind :: NoticeKind
  notice_severity :: NoticeSeverity
  notice_message :: bytes
  notice_value :: "u64 option"
  deadline_unix :: "int option"

datatype ManagementEvent = NoticeEvent Notice | KickEvent Kick

record ManagementJson =
  notice_to_json :: "Notice \<Rightarrow> bytes option"
  notice_from_json :: "bytes \<Rightarrow> Notice option"
  kick_to_json :: "Kick \<Rightarrow> bytes option"
  kick_from_json :: "bytes \<Rightarrow> Kick option"

text \<open>A UTF-8 text has a control character: one below \<open>0x20\<close>, \<open>0x7F\<close>, or \<open>U+0080 .. U+009F\<close>.\<close>

fun has_control :: "bytes \<Rightarrow> bool" where
  "has_control [] = False"
| "has_control (a # s) = (a < 0x20 \<or> a = 0x7F
     \<or> a = 0xC2 \<and> (case s of b # _ \<Rightarrow> 0x80 \<le> b \<and> b \<le> 0x9F | [] \<Rightarrow> False) \<or> has_control s)"

definition validate_management_text :: "bytes \<Rightarrow> (ControlV2Error, unit) result" where
  "validate_management_text t =
     (if t = [] \<or> MAX_MANAGEMENT_TEXT_BYTES < length t \<or> has_control t then Err InvalidManagementPayload
      else Ok ())"

definition event_message :: "ManagementEvent \<Rightarrow> bytes" where
  "event_message event = (case event of NoticeEvent n \<Rightarrow> notice_message n | KickEvent k \<Rightarrow> kick_message k)"

definition management_frames ::
  "ManagementJson \<Rightarrow> ManagementEvent \<Rightarrow> u32 \<Rightarrow> (ControlV2Error, bytes list) result" where
  "management_frames J event mid =
     (case validate_management_text (event_message event) of
        Inl e \<Rightarrow> Err e
      | Inr _ \<Rightarrow>
          (let (ty, flags, payload) = (case event of
                 NoticeEvent n \<Rightarrow> (TYPE_NOTICE, 0, notice_to_json J n)
               | KickEvent k \<Rightarrow> (TYPE_KICK, FLAG_ACK_REQUIRED, kick_to_json J k)) in
           case payload of
             None \<Rightarrow> Err InvalidManagementPayload
           | Some payload \<Rightarrow> fragment_message ty flags mid payload))"

definition decode_management ::
  "ManagementJson \<Rightarrow> CvMessage \<Rightarrow> (ControlV2Error, ManagementEvent option) result" where
  "decode_management J m =
     (let ty = msg_message_type m; flags = msg_flags m;
          valid_flags = (if ty = TYPE_NOTICE then flags = 0
                         else if ty = TYPE_KICK then flags = 0 \<or> flags = FLAG_ACK_REQUIRED else True) in
      if \<not> valid_flags then
        (if ty = TYPE_NOTICE \<or> ty = TYPE_KICK then Err InvalidManagementPayload else Ok None)
      else if ty \<noteq> TYPE_NOTICE \<and> ty \<noteq> TYPE_KICK then Ok None
      else (case (if ty = TYPE_NOTICE then map_option NoticeEvent (notice_from_json J (msg_payload m))
                  else map_option KickEvent (kick_from_json J (msg_payload m))) of
         None \<Rightarrow> Err InvalidManagementPayload
       | Some event \<Rightarrow> (case validate_management_text (event_message event) of
            Inl e \<Rightarrow> Err e
          | Inr _ \<Rightarrow> Ok (Some event))))"

section \<open>Reassembly\<close>

datatype ReassemblyOutcome = CvPending | CvDuplicate | CvComplete CvMessage

record Assembly =
  as_message_type :: u8
  as_flags :: u8
  as_part_count :: u16
  as_parts :: "bytes list"
  as_total_len :: nat
  as_started_at :: instant

record Completed =
  cp_message_id :: u32
  cp_message_type :: u8
  cp_flags :: u8
  cp_parts :: "bytes list"
  management_validated :: bool

record CvReassembler =
  inflight :: "(u32 \<times> Assembly) list"
  completed :: "Completed list"

definition CvReassembler_new :: CvReassembler where
  "CvReassembler_new = \<lparr>inflight = [], completed = []\<rparr>"

definition cp_matches :: "Primitives \<Rightarrow> Completed \<Rightarrow> CvFrame \<Rightarrow> bool" where
  "cp_matches P c frame \<longleftrightarrow> cp_message_type c = fr_message_type frame \<and> cp_flags c = fr_flags frame
     \<and> length (cp_parts c) = unat (fr_part_count frame)
     \<and> cp_parts c ! unat (fr_part_index frame) = sha256 P (fr_payload frame)"

definition cv2_expire :: "instant \<Rightarrow> CvReassembler \<Rightarrow> nat \<times> CvReassembler" where
  "cv2_expire now s =
     (let kept = filter (\<lambda>(_, a). now - as_started_at a < CV2_REASSEMBLY_TIMEOUT) (inflight s) in
      (length (inflight s) - length kept, s\<lparr>inflight := kept\<rparr>))"

definition remember_completed :: "Completed \<Rightarrow> CvReassembler \<Rightarrow> CvReassembler" where
  "remember_completed c s =
     s\<lparr>completed := (if length (completed s) = COMPLETED_ID_CACHE then tl (completed s) else completed s) @ [c]\<rparr>"

definition message_of :: "CvFrame \<Rightarrow> bytes \<Rightarrow> CvMessage" where
  "message_of frame payload = \<lparr>msg_message_type = fr_message_type frame, msg_flags = fr_flags frame,
     msg_message_id = fr_message_id frame, msg_payload = payload\<rparr>"

definition add_part ::
  "Primitives \<Rightarrow> CvFrame \<Rightarrow> Assembly \<Rightarrow> CvReassembler \<Rightarrow> (ControlV2Error, ReassemblyOutcome) result \<times> CvReassembler" where
  "add_part P frame a s =
     (let mid = fr_message_id frame; index = unat (fr_part_index frame) in
      if as_message_type a \<noteq> fr_message_type frame \<or> as_flags a \<noteq> fr_flags frame
          \<or> as_part_count a \<noteq> fr_part_count frame then (Err CvConflict, s)
      else if index < length (as_parts a) then
        (if as_parts a ! index = fr_payload frame then (Ok CvPending, s) else (Err CvConflict, s))
      else if index \<noteq> length (as_parts a) then (Err OutOfOrder, s)
      else (case checked_add (as_total_len a) (length (fr_payload frame)) of
         None \<Rightarrow> (Err MessageTooLarge, s)
       | Some next_total \<Rightarrow>
           if MAX_MESSAGE_SIZE < next_total then (Err MessageTooLarge, s)
           else (let a' = a\<lparr>as_total_len := next_total, as_parts := as_parts a @ [fr_payload frame]\<rparr> in
             if length (as_parts a') \<noteq> unat (as_part_count a') then
               (Ok CvPending, s\<lparr>inflight := AList.update mid a' (inflight s)\<rparr>)
             else (Ok (CvComplete \<lparr>msg_message_type = as_message_type a', msg_flags = as_flags a',
                     msg_message_id = mid, msg_payload = concat (as_parts a')\<rparr>),
                   remember_completed \<lparr>cp_message_id = mid, cp_message_type = as_message_type a',
                       cp_flags = as_flags a', cp_parts = map (sha256 P) (as_parts a'), management_validated = False\<rparr>
                     (s\<lparr>inflight := AList.delete mid (inflight s)\<rparr>)))))"

definition cv2_push ::
  "Primitives \<Rightarrow> CvReassembler \<Rightarrow> instant \<Rightarrow> CvFrame \<Rightarrow> (ControlV2Error, ReassemblyOutcome) result \<times> CvReassembler" where
  "cv2_push P s0 now frame =
     (case validate_metadata frame of
        Inl e \<Rightarrow> (Err e, s0)
      | Inr _ \<Rightarrow>
          (let s = snd (cv2_expire now s0); mid = fr_message_id frame in
           case find (\<lambda>c. cp_message_id c = mid) (completed s) of
             Some c \<Rightarrow> (if cp_matches P c frame then Ok CvDuplicate else Err CvConflict, s)
           | None \<Rightarrow>
               if fr_part_count frame = 1 then
                 (if map_of (inflight s) mid \<noteq> None then (Err CvConflict, s)
                  else (Ok (CvComplete (message_of frame (fr_payload frame))),
                        remember_completed \<lparr>cp_message_id = mid, cp_message_type = fr_message_type frame,
                            cp_flags = fr_flags frame, cp_parts = [sha256 P (fr_payload frame)],
                            management_validated = False\<rparr> s))
               else (case map_of (inflight s) mid of
                  None \<Rightarrow>
                    if fr_part_index frame \<noteq> 0 then (Err OutOfOrder, s)
                    else if MAX_INFLIGHT_MESSAGES \<le> length (inflight s) then (Err CvResourceLimit, s)
                    else (let a = \<lparr>as_message_type = fr_message_type frame, as_flags = fr_flags frame,
                              as_part_count = fr_part_count frame, as_parts = [], as_total_len = 0,
                              as_started_at = now\<rparr>
                          in add_part P frame a (s\<lparr>inflight := AList.update mid a (inflight s)\<rparr>))
                | Some a \<Rightarrow> add_part P frame a s)))"

text \<open>The first entry of a message is marked as validated (\<^verbatim>\<open>iter_mut().find\<close>).\<close>

fun mark_validated :: "u32 \<Rightarrow> Completed list \<Rightarrow> Completed list" where
  "mark_validated mid [] = []"
| "mark_validated mid (c # cs) =
     (if cp_message_id c = mid then c\<lparr>management_validated := True\<rparr> # cs else c # mark_validated mid cs)"

definition push_management ::
  "Primitives \<Rightarrow> ManagementJson \<Rightarrow> CvReassembler \<Rightarrow> instant \<Rightarrow> CvFrame
     \<Rightarrow> (ControlV2Error, ReassemblyOutcome) result \<times> CvReassembler" where
  "push_management P J s now frame =
     (if fr_message_type frame \<noteq> TYPE_NOTICE \<and> fr_message_type frame \<noteq> TYPE_KICK
      then (Err InvalidManagementPayload, s)
      else (case cv2_push P s now frame of
         (Inl e, s') \<Rightarrow> (Err e, s')
       | (Inr (CvComplete m), s') \<Rightarrow>
           (case decode_management J m of
              Inl e \<Rightarrow> (Err e, s'\<lparr>completed := filter (\<lambda>c. cp_message_id c \<noteq> msg_message_id m) (completed s')\<rparr>)
            | Inr _ \<Rightarrow> (Ok (CvComplete m), s'\<lparr>completed := mark_validated (msg_message_id m) (completed s')\<rparr>))
       | (Inr CvDuplicate, s') \<Rightarrow>
           if list_ex (\<lambda>c. cp_message_id c = fr_message_id frame \<and> management_validated c) (completed s')
           then (Ok CvDuplicate, s') else (Err InvalidManagementPayload, s')
       | (Inr CvPending, s') \<Rightarrow> (Ok CvPending, s')))"

end
