(* ===== verification/Control_V2_Laws.thy ===== *)
theory Control_V2_Laws
  imports Control_V2
begin

unbundle bit_operations_syntax

text \<open>
  Laws of the control frames: the format is canonical, a fragmented message is reassembled from its
  parts with any repeats, and the reassembler stays within its limits under any input.
\<close>

section \<open>The frame format is canonical\<close>

lemma validated_frame:
  assumes "validate_metadata f = Ok ()"
  shows "length (fr_payload f) \<le> 4096" "fr_part_index f < fr_part_count f" "fr_part_count f \<le> 16"
    "0 < unat (fr_part_count f)" "unat (fr_part_count f) \<le> 16" "unat (fr_part_index f) < unat (fr_part_count f)"
proof -
  show "length (fr_payload f) \<le> 4096" and i: "fr_part_index f < fr_part_count f" and c: "fr_part_count f \<le> 16"
    using assms by (auto simp: validate_metadata_def Let_def cv2_consts not_le not_less split: if_splits)
  show "unat (fr_part_index f) < unat (fr_part_count f)" using i by (simp add: word_less_nat_alt)
  then show "0 < unat (fr_part_count f)" by linarith
  show "unat (fr_part_count f) \<le> 16" using c by (simp add: word_le_nat_alt)
qed

lemma frame_encode_Ok:
  "frame_encode f = Ok bs \<longleftrightarrow> validate_metadata f = Ok () \<and>
     bs = CV2_MAGIC @ [CV2_VERSION] @ [fr_message_type f] @ [fr_flags f]
          @ to_be_bytes (fr_message_id f) @ to_be_bytes (fr_part_index f) @ to_be_bytes (fr_part_count f)
          @ to_be_bytes (of_nat (length (fr_payload f)) :: u16) @ fr_payload f"
  by (auto simp: frame_encode_def split: sum.splits)

lemma decode_encoded:
  assumes "frame_encode f = Ok bs"
  shows "cv2_decode bs = Ok f"
proof -
  obtain a b where ab: "to_be_bytes (of_nat (length (fr_payload f)) :: u16) = [a, b]"
      "(from_be_bytes [a, b] :: u16) = of_nat (length (fr_payload f))"
    by (rule u16_be_bytes)
  have v: "validate_metadata f = Ok ()"
    and bs: "bs = [0xC1, 0x9C, 2, fr_message_type f, fr_flags f] @ to_be_bytes (fr_message_id f)
          @ to_be_bytes (fr_part_index f) @ to_be_bytes (fr_part_count f) @ [a, b] @ fr_payload f"
    using assms ab(1) by (auto simp: frame_encode_Ok cv2_consts)
  have n: "unat (of_nat (length (fr_payload f)) :: u16) = length (fr_payload f)"
    using validated_frame(1) [OF v] by (intro unat_of_nat_eq') simp
  have "bs ! 13 = a" "bs ! 14 = b" "slice 5 9 bs = to_be_bytes (fr_message_id f)"
      "slice 9 11 bs = to_be_bytes (fr_part_index f)" "slice 11 13 bs = to_be_bytes (fr_part_count f)"
      "drop 15 bs = fr_payload f" "take (Suc (Suc 0)) bs = [0xC1, 0x9C]" "length bs = 15 + length (fr_payload f)"
      "bs ! 2 = 2" "bs ! 3 = fr_message_type f" "bs ! 4 = fr_flags f"
    by (simp_all add: bs slice_def nth_append drop_Cons' numeral_2_eq_2)
  then show ?thesis
    using v n validated_frame(1) [OF v]
    by (cases f) (simp add: cv2_decode_def is_control_v2_def cv2_consts ab(2) checked_add_def usize_max_def from_to_be_bytes)
qed


lemma split_header:
  assumes "15 \<le> length (bs :: bytes)"
  shows "bs = take 2 bs @ [bs ! 2, bs ! 3, bs ! 4] @ slice 5 9 bs @ slice 9 11 bs @ slice 11 13 bs
    @ [bs ! 13, bs ! 14] @ drop 15 bs"
proof -
  have "bs = slice 0 2 bs @ slice 2 5 bs @ slice 5 9 bs @ slice 9 11 bs @ slice 11 13 bs @ slice 13 15 bs @ drop 15 bs"
    using slice_split [of 0 2 15 bs] by (simp add: slice_split slice_0 append_assoc [symmetric] del: append_assoc)
  moreover have "slice 2 5 bs = [bs ! 2, bs ! 3, bs ! 4]" "slice 13 15 bs = [bs ! 13, bs ! 14]"
    using assms by (simp_all add: slice_def list_eq_iff_nth_eq nth_Cons' less_Suc_eq eval_nat_numeral)
  ultimately show ?thesis by (simp add: slice_0)
qed

lemma decoded_encodes:
  assumes "cv2_decode bs = Ok f"
  shows "frame_encode f = Ok bs"
proof -
  have l: "15 \<le> length bs" and h: "take 2 bs = CV2_MAGIC" "bs ! 2 = CV2_VERSION" and v: "validate_metadata f = Ok ()"
    and n: "15 + unat (from_be_bytes [bs ! 13, bs ! 14] :: u16) = length bs"
    and f: "f = \<lparr>fr_message_type = bs ! 3, fr_flags = bs ! 4,
       fr_message_id = from_be_bytes (slice 5 9 bs), fr_part_index = from_be_bytes (slice 9 11 bs),
       fr_part_count = from_be_bytes (slice 11 13 bs), fr_payload = drop 15 bs\<rparr>"
    using assms by (auto simp: cv2_decode_def is_control_v2_def Let_def cv2_consts checked_add_def numeral_2_eq_2
        split: if_splits option.splits sum.splits)
  have "of_nat (length (drop 15 bs)) = (from_be_bytes [bs ! 13, bs ! 14] :: u16)"
    unfolding length_drop n [symmetric] by simp
  then have "to_be_bytes (of_nat (length (fr_payload f)) :: u16) = [bs ! 13, bs ! 14]"
    by (simp add: f to_from_be_bytes)
  then show ?thesis
    using v h split_header [OF l] l by (simp add: frame_encode_Ok f to_from_be_bytes)
qed


section \<open>The parts of a message\<close>

definition part_frame :: "u8 \<Rightarrow> u8 \<Rightarrow> u32 \<Rightarrow> bytes list \<Rightarrow> nat \<Rightarrow> CvFrame" where
  "part_frame ty flags mid parts k = \<lparr>fr_message_type = ty, fr_flags = flags, fr_message_id = mid,
     fr_part_index = of_nat k, fr_part_count = of_nat (length parts), fr_payload = parts ! k\<rparr>"

lemma encode_parts_Ok:
  assumes "encode_parts ty flags mid n i parts = Ok frames"
  shows "length frames = length parts \<and> (\<forall>k < length parts. frame_encode \<lparr>fr_message_type = ty, fr_flags = flags,
     fr_message_id = mid, fr_part_index = of_nat (i + k), fr_part_count = of_nat n, fr_payload = parts ! k\<rparr>
     = Ok (frames ! k))"
  using assms
proof (induction parts arbitrary: i frames)
  case (Cons part parts)
  then obtain f fs where f: "frames = f # fs" "encode_parts ty flags mid n (i + 1) parts = Ok fs"
      "frame_encode \<lparr>fr_message_type = ty, fr_flags = flags, fr_message_id = mid, fr_part_index = of_nat i,
         fr_part_count = of_nat n, fr_payload = part\<rparr> = Ok f"
    by (auto split: sum.splits)
  show ?case
    using Cons.IH [OF f(2)] f(1,3) by (auto simp: less_Suc_eq_0_disj add_ac)
qed simp

lemma fragment_parts:
  assumes "fragment_message ty flags mid payload = Ok frames"
  obtains parts where "length frames = length parts" "parts \<noteq> []" "length parts \<le> 16" "concat parts = payload"
    "length payload \<le> MAX_MESSAGE_SIZE"
    "\<forall>k < length parts. validate_metadata (part_frame ty flags mid parts k) = Ok ()
       \<and> cv2_decode (frames ! k) = Ok (part_frame ty flags mid parts k)"
proof -
  define parts where "parts = (if payload = [] then [[]] else chunks MAX_PART_PAYLOAD payload)"
  have n: "length parts = div_ceil (max (length payload) 1) MAX_PART_PAYLOAD" and c: "concat parts = payload"
    by (auto simp: parts_def length_chunks concat_chunks cv2_consts max_def div_ceil_def Suc_le_eq)
  have one: "payload = [] \<Longrightarrow> length parts = 1" by (simp add: parts_def)
  have l: "length parts \<le> 16" "length payload \<le> MAX_MESSAGE_SIZE"
    and e: "encode_parts ty flags mid (length parts) 0 parts = Ok frames"
    using assms one unfolding fragment_message_def n [symmetric] Let_def by (auto simp: parts_def MAX_PARTS_def split: if_splits)
  have "parts \<noteq> []" using c by (auto simp: parts_def cv2_consts)
  moreover have "length frames = length parts"
    "\<forall>k < length parts. frame_encode (part_frame ty flags mid parts k) = Ok (frames ! k)"
    using encode_parts_Ok [OF e] by (simp_all add: part_frame_def)
  ultimately show thesis
    using that [of parts] l c decode_encoded frame_encode_Ok by metis
qed

definition cv2_message :: "u8 \<Rightarrow> u8 \<Rightarrow> u32 \<Rightarrow> bytes \<Rightarrow> CvMessage" where
  "cv2_message ty flags mid payload =
     \<lparr>msg_message_type = ty, msg_flags = flags, msg_message_id = mid, msg_payload = payload\<rparr>"

definition partial :: "u8 \<Rightarrow> u8 \<Rightarrow> bytes list \<Rightarrow> instant \<Rightarrow> nat \<Rightarrow> Assembly" where
  "partial ty flags parts t0 k = \<lparr>as_message_type = ty, as_flags = flags, as_part_count = of_nat (length parts),
     as_parts = take k parts, as_total_len = length (concat (take k parts)), as_started_at = t0\<rparr>"

text \<open>The reassembler holds the first \<open>k\<close> parts of a message and has not finished it.\<close>

definition cv2_holds :: "u8 \<Rightarrow> u8 \<Rightarrow> u32 \<Rightarrow> bytes list \<Rightarrow> instant \<Rightarrow> nat \<Rightarrow> CvReassembler \<Rightarrow> bool" where
  "cv2_holds ty flags mid parts t0 k s \<longleftrightarrow> find (\<lambda>c. cp_message_id c = mid) (completed s) = None \<and>
     (if k = 0 then map_of (inflight s) mid = None \<and> length (inflight s) < MAX_INFLIGHT_MESSAGES
      else map_of (inflight s) mid = Some (partial ty flags parts t0 k))"

definition cv2_done :: "Primitives \<Rightarrow> u8 \<Rightarrow> u8 \<Rightarrow> u32 \<Rightarrow> bytes list \<Rightarrow> CvReassembler \<Rightarrow> bool" where
  "cv2_done P ty flags mid parts s \<longleftrightarrow> (\<exists>c. find (\<lambda>c. cp_message_id c = mid) (completed s) = Some c
     \<and> cp_message_type c = ty \<and> cp_flags c = flags \<and> cp_parts c = map (sha256 P) parts)"

lemma expire_holds:
  assumes "cv2_holds ty flags mid parts t0 k s" and "k = 0 \<or> now - t0 < CV2_REASSEMBLY_TIMEOUT"
  shows "cv2_holds ty flags mid parts t0 k (snd (cv2_expire now s))"
proof -
  have "map_of xs mid = Some a \<Longrightarrow> p (mid, a) \<Longrightarrow> map_of (filter p xs) mid = Some a"
      "map_of xs mid = None \<Longrightarrow> map_of (filter p xs) mid = None" for xs :: "(u32 \<times> Assembly) list" and p a
    by (induction xs) (auto split: if_splits)
  then show ?thesis
    using assms le_less_trans [OF length_filter_le]
    by (auto simp: cv2_holds_def cv2_expire_def Let_def partial_def)
qed


lemma part_frame_fields:
  assumes "length parts \<le> 16" "k < length parts"
  shows "unat (fr_part_index (part_frame ty flags mid parts k)) = k"
    "unat (fr_part_count (part_frame ty flags mid parts k)) = length parts"
    "unat (of_nat (length parts) :: u16) = length parts"
    "fr_part_count (part_frame ty flags mid parts k) = 1 \<longleftrightarrow> length parts = 1"
proof -
  show "unat (fr_part_index (part_frame ty flags mid parts k)) = k"
    using assms by (simp add: part_frame_def unat_of_nat_eq')
  show c: "unat (of_nat (length parts) :: u16) = length parts" using assms by (simp add: unat_of_nat_eq')
  then show "unat (fr_part_count (part_frame ty flags mid parts k)) = length parts" by (simp add: part_frame_def)
  show "fr_part_count (part_frame ty flags mid parts k) = 1 \<longleftrightarrow> length parts = 1"
    using c by (auto simp: part_frame_def word_eq_iff_unsigned [where 'a = nat])
qed

definition finished :: "Primitives \<Rightarrow> u8 \<Rightarrow> u8 \<Rightarrow> u32 \<Rightarrow> bytes list \<Rightarrow> Completed" where
  "finished P ty flags mid parts = \<lparr>cp_message_id = mid, cp_message_type = ty, cp_flags = flags,
     cp_parts = map (sha256 P) parts, management_validated = False\<rparr>"

lemma add_known_part:
  assumes "length parts \<le> 16" "j < k" "k < length parts"
  shows "add_part P (part_frame ty flags mid parts j) (partial ty flags parts t0 k) s = (Ok CvPending, s)"
  using assms part_frame_fields(1) [of parts j ty flags mid]
  by (simp add: add_part_def partial_def part_frame_def)

lemma add_next_part:
  assumes "length parts \<le> 16" "k < length parts" "length (concat parts) \<le> MAX_MESSAGE_SIZE"
  shows "add_part P (part_frame ty flags mid parts k) (partial ty flags parts t0 k) s =
    (if Suc k \<noteq> length parts
     then (Ok CvPending, s\<lparr>inflight := AList.update mid (partial ty flags parts t0 (Suc k)) (inflight s)\<rparr>)
     else (Ok (CvComplete (cv2_message ty flags mid (concat parts))),
           remember_completed (finished P ty flags mid parts) (s\<lparr>inflight := AList.delete mid (inflight s)\<rparr>)))"
proof -
  have t: "take (Suc k) parts = take k parts @ [parts ! k]" using assms(2) by (rule take_Suc_conv_app_nth)
  have "concat parts = concat (take (Suc k) parts) @ concat (drop (Suc k) parts)"
    by (metis append_take_drop_id concat_append)
  then have le: "length (concat (take k parts)) + length (parts ! k) \<le> MAX_MESSAGE_SIZE"
    using assms(3) by (simp add: t)
  moreover have "MAX_MESSAGE_SIZE \<le> usize_max" by (simp add: cv2_consts usize_max_def)
  ultimately have c: "checked_add (length (concat (take k parts))) (length (parts ! k))
      = Some (length (concat (take k parts)) + length (parts ! k))" by (simp add: checked_add_def)
  have i: "unat (of_nat k :: u16) = k" using part_frame_fields(1) [OF assms(1,2)] by (simp add: part_frame_def)
  have all: "take k parts @ [parts ! k] = parts" "concat (take k parts) @ parts ! k = concat parts"
      "map (sha256 P) (take k parts) @ [sha256 P (parts ! k)] = map (sha256 P) parts" if "Suc k = length parts"
    using that t by (metis take_all order_refl, metis take_all order_refl concat_append concat.simps append_Nil2,
        metis take_all order_refl map_append list.map)
  show ?thesis
    using assms(2) le all c i part_frame_fields(3) [OF assms(1,2)]
    by (cases "Suc k = length parts")
      (simp_all add: add_part_def partial_def part_frame_def t Let_def cv2_message_def finished_def)
qed


definition cv2_parts :: "u8 \<Rightarrow> u8 \<Rightarrow> u32 \<Rightarrow> bytes list \<Rightarrow> bool" where
  "cv2_parts ty flags mid parts \<longleftrightarrow> parts \<noteq> [] \<and> length parts \<le> 16 \<and> length (concat parts) \<le> MAX_MESSAGE_SIZE
     \<and> (\<forall>k < length parts. validate_metadata (part_frame ty flags mid parts k) = Ok ())"

lemma done_remember:
  assumes "find (\<lambda>c. cp_message_id c = mid) (completed s) = None"
  shows "cv2_done P ty flags mid parts (remember_completed (finished P ty flags mid parts) s)"
proof -
  have "find (\<lambda>c. cp_message_id c = mid) (tl (completed s)) = None"
    using assms by (cases "completed s") (auto split: if_splits)
  moreover have "find p (xs @ ys) = (case find p xs of None \<Rightarrow> find p ys | Some a \<Rightarrow> Some a)"
    for p and xs ys :: "Completed list"
    by (induction xs) simp_all
  ultimately show ?thesis using assms by (simp add: cv2_done_def remember_completed_def finished_def)
qed

lemma push_repeated_part:
  assumes "cv2_parts ty flags mid parts" "j < length parts" "cv2_done P ty flags mid parts s"
  shows "\<exists>s'. cv2_push P s now (part_frame ty flags mid parts j) = (Ok CvDuplicate, s') \<and> cv2_done P ty flags mid parts s'"
proof -
  let ?s = "snd (cv2_expire now s)"
  have d: "cv2_done P ty flags mid parts ?s" using assms(3) by (simp add: cv2_done_def cv2_expire_def Let_def)
  then obtain c where c: "find (\<lambda>c. cp_message_id c = mid) (completed ?s) = Some c"
      "cp_message_type c = ty" "cp_flags c = flags" "cp_parts c = map (sha256 P) parts"
    unfolding cv2_done_def by blast
  have "cp_matches P c (part_frame ty flags mid parts j)"
    using c assms(1,2) part_frame_fields(1,2) [of parts j ty flags mid]
    by (simp add: cp_matches_def cv2_parts_def part_frame_def)
  moreover have "fr_message_id (part_frame ty flags mid parts j) = mid" by (simp add: part_frame_def)
  moreover have "validate_metadata (part_frame ty flags mid parts j) = Ok ()" using assms(1,2) by (simp add: cv2_parts_def)
  ultimately show ?thesis using d c(1) by (simp add: cv2_push_def Let_def)
qed

lemma push_known_part:
  assumes "cv2_parts ty flags mid parts" "j < k" "k < length parts" "cv2_holds ty flags mid parts t0 k s"
    and "now - t0 < CV2_REASSEMBLY_TIMEOUT"
  shows "\<exists>s'. cv2_push P s now (part_frame ty flags mid parts j) = (Ok CvPending, s') \<and> cv2_holds ty flags mid parts t0 k s'"
proof -
  let ?s = "snd (cv2_expire now s)" and ?f = "part_frame ty flags mid parts j"
  have h: "cv2_holds ty flags mid parts t0 k ?s" using assms(4,5) by (intro expire_holds) simp_all
  have "validate_metadata ?f = Ok ()" "fr_message_id ?f = mid" "fr_part_count ?f \<noteq> 1" "length parts \<le> 16"
    using assms(1-3) part_frame_fields(4) [of parts j ty flags mid] by (simp_all add: cv2_parts_def) (simp add: part_frame_def)
  then have "cv2_push P s now ?f = (Ok CvPending, ?s)"
    using h assms(2,3) add_known_part [of parts j k P ty flags mid t0 ?s]
    by (simp add: cv2_push_def Let_def cv2_holds_def)
  with h show ?thesis by blast
qed

lemma push_next_part:
  assumes w: "cv2_parts ty flags mid parts" and k: "k < length parts" and s: "cv2_holds ty flags mid parts t0 k s"
    and t: "if k = 0 then now = t0 else now - t0 < CV2_REASSEMBLY_TIMEOUT"
  shows "\<exists>s'. cv2_push P s now (part_frame ty flags mid parts k) =
      (Ok (if Suc k = length parts then CvComplete (cv2_message ty flags mid (concat parts)) else CvPending), s')
    \<and> (if Suc k = length parts then cv2_done P ty flags mid parts s' else cv2_holds ty flags mid parts t0 (Suc k) s')"
proof -
  let ?s = "snd (cv2_expire now s)" and ?f = "part_frame ty flags mid parts k"
  have h: "cv2_holds ty flags mid parts t0 k ?s" using s t by (intro expire_holds) (auto split: if_splits)
  have v: "validate_metadata ?f = Ok ()" "fr_message_id ?f = mid" "length parts \<le> 16"
      "length (concat parts) \<le> MAX_MESSAGE_SIZE" "fr_part_count ?f = 1 \<longleftrightarrow> length parts = 1"
    using w k part_frame_fields(4) [of parts k ty flags mid] by (simp_all add: cv2_parts_def) (simp add: part_frame_def)
  note next_part = add_next_part [OF v(3) k v(4), of P ty flags mid t0]
  have i: "fr_part_index ?f = 0 \<longleftrightarrow> k = 0"
    using part_frame_fields(1) [OF v(3) k, of ty flags mid] by (metis unsigned_0 unsigned_eq_0_iff)
  have fresh: "find (\<lambda>c. cp_message_id c = mid) (completed ?s) = None" using h by (simp add: cv2_holds_def)
  have pushed: "cv2_push P s now ?f = add_part P ?f (partial ty flags parts t0 k)
      (if k = 0 then ?s\<lparr>inflight := AList.update mid (partial ty flags parts t0 0) (inflight ?s)\<rparr> else ?s)"
    if "length parts \<noteq> 1"
  proof (cases k)
    case 0
    have "\<lparr>as_message_type = fr_message_type ?f, as_flags = fr_flags ?f, as_part_count = fr_part_count ?f,
        as_parts = [], as_total_len = 0, as_started_at = now\<rparr> = partial ty flags parts t0 0"
      using t 0 by (simp add: partial_def part_frame_def)
    with 0 that h v i fresh show ?thesis by (simp add: cv2_push_def Let_def cv2_holds_def)
  next
    case Suc
    with that h v fresh show ?thesis by (simp add: cv2_push_def Let_def cv2_holds_def)
  qed
  show ?thesis
  proof (cases "length parts = 1")
    case True
    then obtain x where x: "parts = [x]" by (auto simp: length_Suc_conv)
    with k h v fresh have "cv2_push P s now ?f =
        (Ok (CvComplete (cv2_message ty flags mid x)), remember_completed (finished P ty flags mid parts) ?s)"
      by (simp add: cv2_push_def Let_def cv2_holds_def finished_def cv2_message_def message_of_def) (simp add: part_frame_def)
    with x k done_remember [OF fresh] show ?thesis by simp
  next
    case False
    show ?thesis
      using done_remember [of mid "?s\<lparr>inflight := AList.delete mid (inflight ?s)\<rparr>" P ty flags parts] fresh False k
      unfolding pushed [OF False] next_part
      by (auto simp: cv2_holds_def update_conv' AList.update_Some_unfold)
  qed
qed


section \<open>Receiving a message\<close>

fun cv2_run :: "Primitives \<Rightarrow> CvReassembler \<Rightarrow> (bytes \<times> instant) list
    \<Rightarrow> (ControlV2Error, ReassemblyOutcome) result list \<times> CvReassembler" where
  "cv2_run P s [] = ([], s)"
| "cv2_run P s ((bs, t) # rest) =
     (let (r, s') = (case cv2_decode bs of Inl e \<Rightarrow> (Err e, s) | Inr f \<Rightarrow> cv2_push P s t f);
          (rs, s'') = cv2_run P s' rest in (r # rs, s''))"

lemma cv2_run_append:
  "cv2_run P s (xs @ ys) = (let (rs, s') = cv2_run P s xs; (rs', s'') = cv2_run P s' ys in (rs @ rs', s''))"
proof (induction xs arbitrary: s)
  case (Cons x xs)
  then show ?case by (cases x) (simp add: Let_def split_beta)
qed simp

definition arrive :: "bytes list \<Rightarrow> (nat \<times> instant) list \<Rightarrow> (bytes \<times> instant) list" where
  "arrive frames as = map (\<lambda>(k, t). (frames ! k, t)) as"

text \<open>Every part comes after all the parts before it have come once.\<close>

definition no_gaps :: "(nat \<times> instant) list \<Rightarrow> bool" where
  "no_gaps as \<longleftrightarrow> (\<forall>i < length as. \<forall>j < fst (as ! i). j \<in> fst ` set (take i as))"

lemma no_gaps_snoc: "no_gaps (as @ [a]) \<longleftrightarrow> no_gaps as \<and> (\<forall>j < fst a. j \<in> fst ` set as)"
  by (auto simp: no_gaps_def nth_append less_Suc_eq)

lemma run_incomplete:
  assumes w: "cv2_parts ty flags mid parts"
    and d: "\<forall>k < length parts. cv2_decode (frames ! k) = Ok (part_frame ty flags mid parts k)"
    and s: "cv2_holds ty flags mid parts t0 0 s"
  shows "no_gaps as \<Longrightarrow> fst ` set as \<subseteq> {0..<length parts - 1} \<Longrightarrow>
    (\<forall>t \<in> snd ` set as. t - t0 < CV2_REASSEMBLY_TIMEOUT) \<Longrightarrow> (as \<noteq> [] \<longrightarrow> snd (hd as) = t0) \<Longrightarrow>
    \<exists>s' k. cv2_run P s (arrive frames as) = (replicate (length as) (Ok CvPending), s')
      \<and> fst ` set as = {0..<k} \<and> k < length parts \<and> cv2_holds ty flags mid parts t0 k s'"
proof (induction as rule: rev_induct)
  case Nil
  then show ?case using s w by (auto simp: arrive_def cv2_parts_def)
next
  case (snoc a as)
  obtain j t where a: "a = (j, t)" by (cases a)
  have "as \<noteq> [] \<longrightarrow> snd (hd as) = t0" using snoc.prems(4) by (auto simp: hd_append)
  then obtain s' k where IH: "cv2_run P s (arrive frames as) = (replicate (length as) (Ok CvPending), s')"
      "fst ` set as = {0..<k}" "k < length parts" "cv2_holds ty flags mid parts t0 k s'"
    using snoc by (auto simp: no_gaps_snoc)
  have j: "j \<le> k" "j < length parts - 1" and t: "t - t0 < CV2_REASSEMBLY_TIMEOUT"
    using snoc.prems IH(2) a by (auto simp: no_gaps_snoc) (meson not_le_imp_less order_less_irrefl)
  have j2: "j < length parts" and dj: "cv2_decode (frames ! j) = Ok (part_frame ty flags mid parts j)" using j d by auto
  let ?run = "\<lambda>s''. cv2_run P s (arrive frames (as @ [a])) = (replicate (length (as @ [a])) (Ok CvPending), s'')"
  have run: "?run s''" if "cv2_push P s' t (part_frame ty flags mid parts j) = (Ok CvPending, s'')" for s''
    using that IH(1) dj a by (simp add: arrive_def cv2_run_append replicate_append_same)
  show ?case
  proof (cases "j < k")
    case True
    then have "insert j (fst ` set as) = {0..<k}" using IH(2) by auto
    with True push_known_part [OF w True IH(3,4) t, of P] run a IH(3) show ?thesis by fastforce
  next
    case False
    with j have jk: "j = k" by simp
    have "if k = 0 then t = t0 else t - t0 < CV2_REASSEMBLY_TIMEOUT"
    proof (cases "k = 0")
      case True
      with IH(2) have "as = []" by (cases as) auto
      with snoc.prems(4) a True show ?thesis by simp
    qed (use t in simp)
    from push_next_part [OF w IH(3,4) this, of P] obtain s'' where
      "cv2_push P s' t (part_frame ty flags mid parts j) = (Ok CvPending, s'')" "cv2_holds ty flags mid parts t0 (Suc k) s''"
      using j jk by (auto split: if_splits)
    moreover have "fst ` set (as @ [a]) = {0..<Suc k}" using IH(2) a jk by auto
    ultimately show ?thesis using run j jk by (intro exI [of _ s''] exI [of _ "Suc k"]) simp
  qed
qed

lemma run_repeats:
  assumes w: "cv2_parts ty flags mid parts"
    and d: "\<forall>k < length parts. cv2_decode (frames ! k) = Ok (part_frame ty flags mid parts k)"
  shows "cv2_done P ty flags mid parts s \<Longrightarrow> fst ` set as \<subseteq> {0..<length parts} \<Longrightarrow>
    fst (cv2_run P s (arrive frames as)) = replicate (length as) (Ok CvDuplicate)"
proof (induction as arbitrary: s)
  case (Cons a as)
  obtain j t where a: "a = (j, t)" "j < length parts" using Cons.prems(2) by (cases a) auto
  obtain s' where s': "cv2_push P s t (part_frame ty flags mid parts j) = (Ok CvDuplicate, s')"
      "cv2_done P ty flags mid parts s'"
    using push_repeated_part [OF w a(2) Cons.prems(1)] by blast
  show ?case using Cons.IH [OF s'(2)] Cons.prems(2) a s'(1) d by (simp add: arrive_def Let_def split_beta)
qed (simp add: arrive_def)


section \<open>Limits under any input\<close>

definition assembly_wf :: "Assembly \<Rightarrow> bool" where
  "assembly_wf a \<longleftrightarrow> as_total_len a = length (concat (as_parts a)) \<and> as_total_len a \<le> MAX_MESSAGE_SIZE
     \<and> length (as_parts a) < unat (as_part_count a) \<and> unat (as_part_count a) \<le> 16"

definition cv2_inv :: "CvReassembler \<Rightarrow> bool" where
  "cv2_inv s \<longleftrightarrow> distinct (map fst (inflight s)) \<and> length (inflight s) \<le> MAX_INFLIGHT_MESSAGES
     \<and> length (completed s) \<le> COMPLETED_ID_CACHE \<and> (\<forall>(mid, a) \<in> set (inflight s). assembly_wf a)"

lemma cv2_inv_expire: "cv2_inv s \<Longrightarrow> cv2_inv (snd (cv2_expire now s))"
  by (auto simp: cv2_inv_def cv2_expire_def Let_def distinct_map_filter intro: order_trans [OF length_filter_le])

lemma cv2_inv_remember: "cv2_inv s \<Longrightarrow> cv2_inv (remember_completed c s)"
  by (auto simp: cv2_inv_def remember_completed_def cv2_consts)

lemma cv2_inv_delete: "cv2_inv s \<Longrightarrow> cv2_inv (s\<lparr>inflight := AList.delete mid (inflight s)\<rparr>)"
  using length_delete_le' [of mid "inflight s"] set_delete_subset [of mid "inflight s"]
  by (auto simp: cv2_inv_def distinct_delete)

lemma cv2_inv_update:
  assumes "cv2_inv s" "assembly_wf a" "map_of (inflight s) mid \<noteq> None \<or> length (inflight s) < MAX_INFLIGHT_MESSAGES"
  shows "cv2_inv (s\<lparr>inflight := AList.update mid a (inflight s)\<rparr>)"
proof -
  have "length (AList.update mid a (inflight s)) \<le> MAX_INFLIGHT_MESSAGES"
    using assms by (cases "map_of (inflight s) mid") (simp_all add: cv2_inv_def length_update_present length_update_new)
  then show ?thesis
    using assms set_update_subset [of mid a "inflight s"] by (auto simp: cv2_inv_def distinct_update)
qed


lemma cv2_inv_assembly: "cv2_inv s \<Longrightarrow> map_of (inflight s) mid = Some a \<Longrightarrow> assembly_wf a"
  unfolding cv2_inv_def using map_of_SomeD [of "inflight s" mid a] by blast

lemma add_part_inv:
  assumes "cv2_inv s" "assembly_wf a" "validate_metadata f = Ok ()" "map_of (inflight s) (fr_message_id f) = Some a"
  shows "cv2_inv (snd (add_part P f a s))"
proof -
  let ?a = "a\<lparr>as_total_len := as_total_len a + length (fr_payload f), as_parts := as_parts a @ [fr_payload f]\<rparr>"
  have "assembly_wf ?a" if "as_total_len a + length (fr_payload f) \<le> MAX_MESSAGE_SIZE"
      "Suc (length (as_parts a)) \<noteq> unat (as_part_count a)"
    using that assms(2) by (simp add: assembly_wf_def)
  then have "cv2_inv (s\<lparr>inflight := AList.update (fr_message_id f) ?a (inflight s)\<rparr>)"
    if "as_total_len a + length (fr_payload f) \<le> MAX_MESSAGE_SIZE" "Suc (length (as_parts a)) \<noteq> unat (as_part_count a)"
    using that assms by (intro cv2_inv_update) simp_all
  then show ?thesis
    using assms(1) by (auto simp: add_part_def Let_def checked_add_def split: option.splits
        intro!: cv2_inv_remember cv2_inv_delete)
qed

lemma cv2_push_inv: "cv2_inv s \<Longrightarrow> cv2_inv (snd (cv2_push P s now f))"
proof (cases "validate_metadata f")
  case (Inr u)
  assume "cv2_inv s"
  let ?s = "snd (cv2_expire now s)" and ?mid = "fr_message_id f"
  let ?a = "\<lparr>as_message_type = fr_message_type f, as_flags = fr_flags f, as_part_count = fr_part_count f,
      as_parts = [], as_total_len = 0, as_started_at = now\<rparr>"
  have i: "cv2_inv ?s" using \<open>cv2_inv s\<close> by (rule cv2_inv_expire)
  have v: "validate_metadata f = Ok ()" using Inr by simp
  have "assembly_wf ?a" using validated_frame(4,5) [OF v] by (simp add: assembly_wf_def)
  then have "cv2_inv (snd (add_part P f ?a (?s\<lparr>inflight := AList.update ?mid ?a (inflight ?s)\<rparr>)))"
    if "length (inflight ?s) < MAX_INFLIGHT_MESSAGES"
    using that i v by (intro add_part_inv cv2_inv_update) (simp_all add: update_conv')
  moreover have "cv2_inv (snd (add_part P f a ?s))" if "map_of (inflight ?s) ?mid = Some a" for a
    using that i v cv2_inv_assembly by (intro add_part_inv) blast+
  ultimately show ?thesis
    using i by (auto simp: cv2_push_def v Let_def cv2_inv_remember split: option.splits)
qed (simp add: cv2_push_def)

lemma mark_validated_length [simp]: "length (mark_validated mid cs) = length cs"
  by (induction cs) simp_all

lemma push_management_inv: "cv2_inv s \<Longrightarrow> cv2_inv (snd (push_management P J s now f))"
proof -
  assume "cv2_inv s"
  then have "cv2_inv (snd (cv2_push P s now f))" by (rule cv2_push_inv)
  moreover have "cv2_inv s' \<Longrightarrow> length cs \<le> length (completed s') \<Longrightarrow> cv2_inv (s'\<lparr>completed := cs\<rparr>)" for s' cs
    by (auto simp: cv2_inv_def)
  ultimately show ?thesis
    using \<open>cv2_inv s\<close> by (auto simp: push_management_def split: prod.splits sum.splits ReassemblyOutcome.splits)
qed


section \<open>Any arrivals\<close>

text \<open>A push removes what has timed out before it looks at the frame.\<close>

lemma push_expired:
  assumes "validate_metadata f = Ok ()"
  shows "cv2_push P s now f = cv2_push P (snd (cv2_expire now s)) now f"
proof -
  have "snd (cv2_expire now (snd (cv2_expire now s))) = snd (cv2_expire now s)" by (simp add: cv2_expire_def Let_def)
  then show ?thesis using assms by (simp add: cv2_push_def)
qed

lemma expired_forgotten:
  assumes "cv2_inv s" "cv2_holds ty flags mid parts t0 k s" "0 < k" "CV2_REASSEMBLY_TIMEOUT \<le> now - t0"
  shows "cv2_holds ty flags mid parts now 0 (snd (cv2_expire now s))"
proof -
  let ?p = "\<lambda>(_, a). now - as_started_at a < CV2_REASSEMBLY_TIMEOUT"
  have m: "map_of (inflight s) mid = Some (partial ty flags parts t0 k)" and d: "distinct (map fst (inflight s))"
    and l: "length (inflight s) \<le> MAX_INFLIGHT_MESSAGES"
    using assms(1-3) by (simp_all add: cv2_holds_def cv2_inv_def)
  have e: "(mid, partial ty flags parts t0 k) \<in> set (inflight s)" "\<not> ?p (mid, partial ty flags parts t0 k)"
    using map_of_SomeD [OF m] assms(4) by (simp_all add: partial_def)
  then have "length (filter ?p (inflight s)) < length (inflight s)" by (rule length_filter_less)
  moreover have "map_of (filter ?p (inflight s)) mid = None"
    using e(2) m map_of_is_SomeI [OF d] by (auto simp: map_of_eq_None_iff)
  ultimately show ?thesis using assms(2) l by (simp add: cv2_holds_def cv2_expire_def Let_def)
qed

lemma push_early_part:
  assumes w: "cv2_parts ty flags mid parts" and j: "k < j" "j < length parts" and s: "cv2_holds ty flags mid parts t0 k s"
    and t: "k = 0 \<or> now - t0 < CV2_REASSEMBLY_TIMEOUT"
  shows "\<exists>s'. cv2_push P s now (part_frame ty flags mid parts j) = (Err OutOfOrder, s') \<and> cv2_holds ty flags mid parts t0 k s'"
proof -
  let ?s = "snd (cv2_expire now s)" and ?f = "part_frame ty flags mid parts j"
  have h: "cv2_holds ty flags mid parts t0 k ?s" using s t by (rule expire_holds)
  have v: "validate_metadata ?f = Ok ()" "fr_message_id ?f = mid" "length parts \<le> 16" "fr_part_count ?f \<noteq> 1" "unat (fr_part_index ?f) = j"
    using w j part_frame_fields(1,4) [of parts j ty flags mid] by (simp_all add: cv2_parts_def) (simp add: part_frame_def)
  have "fr_part_index ?f \<noteq> 0" using v(5) j(1) by auto
  moreover have "add_part P ?f (partial ty flags parts t0 k) ?s = (Err OutOfOrder, ?s)"
    using v(5) j by (simp add: add_part_def partial_def Let_def) (simp add: part_frame_def)
  ultimately have "cv2_push P s now ?f = (Err OutOfOrder, ?s)"
    using h v by (cases "k = 0") (simp_all add: cv2_push_def Let_def cv2_holds_def)
  with h show ?thesis by blast
qed

text \<open>
  What a receiver answers to an arriving part of one message, from the number of the part and the time alone: it
  has the first \<open>k\<close> of \<open>n\<close> parts, of which the first came at \<open>t0\<close>. A started message is forgotten when it
  times out; a part that comes before its turn is refused; a part it has is pending; the last part completes the
  message; after that every part is a duplicate.
\<close>

definition cv2_verdict :: "nat \<Rightarrow> CvMessage \<Rightarrow> instant \<Rightarrow> nat \<Rightarrow> nat \<times> instant
    \<Rightarrow> (ControlV2Error, ReassemblyOutcome) result \<times> instant \<times> nat" where
  "cv2_verdict n msg t0 k a =
     (let (j, t) = a; k' = (if 0 < k \<and> CV2_REASSEMBLY_TIMEOUT \<le> t - t0 then 0 else k) in
      if k = n then (Ok CvDuplicate, t0, n)
      else if k' < j then (Err OutOfOrder, t0, k')
      else if j < k' then (Ok CvPending, t0, k')
      else if Suc k' = n then (Ok (CvComplete msg), t0, n)
      else (Ok CvPending, if k' = 0 then t else t0, Suc k'))"

fun cv2_verdicts :: "nat \<Rightarrow> CvMessage \<Rightarrow> instant \<Rightarrow> nat \<Rightarrow> (nat \<times> instant) list
    \<Rightarrow> (ControlV2Error, ReassemblyOutcome) result list" where
  "cv2_verdicts n msg t0 k [] = []"
| "cv2_verdicts n msg t0 k (a # as) =
     (let (r, t0', k') = cv2_verdict n msg t0 k a in r # cv2_verdicts n msg t0' k' as)"

text \<open>A finished message is completed no second time.\<close>

definition completions :: "(ControlV2Error, ReassemblyOutcome) result list \<Rightarrow> nat" where
  "completions rs = length (filter (\<lambda>r. \<exists>m. r = Ok (CvComplete m)) rs)"

lemma verdicts_complete_once: "completions (cv2_verdicts n msg t0 k as) \<le> (if k = n then 0 else 1)"
proof (induction as arbitrary: t0 k)
  case (Cons a as)
  obtain r t1 k1 where v: "cv2_verdict n msg t0 k a = (r, t1, k1)" by (metis prod_cases3)
  have "(\<exists>m. r = Ok (CvComplete m)) \<longrightarrow> k \<noteq> n \<and> k1 = n" "k = n \<longrightarrow> k1 = n"
    using v by (auto simp: cv2_verdict_def Let_def split: prod.splits if_splits)
  then show ?case using Cons.IH [of t1 k1] v by (auto simp: completions_def split: if_splits)
qed (simp add: completions_def)

text \<open>The reassembler has \<open>k\<close> parts of the message, or has finished it.\<close>

definition cv2_at :: "Primitives \<Rightarrow> u8 \<Rightarrow> u8 \<Rightarrow> u32 \<Rightarrow> bytes list \<Rightarrow> instant \<Rightarrow> nat \<Rightarrow> CvReassembler \<Rightarrow> bool" where
  "cv2_at P ty flags mid parts t0 k s \<longleftrightarrow> cv2_inv s \<and>
     (if k = length parts then cv2_done P ty flags mid parts s else k < length parts \<and> cv2_holds ty flags mid parts t0 k s)"

text \<open>When the first parts timed out, a push works on a state without them.\<close>

lemma unexpired_state:
  fixes t t0 :: instant and k :: nat
  defines "k' \<equiv> (if 0 < k \<and> CV2_REASSEMBLY_TIMEOUT \<le> t - t0 then 0 else k)"
  assumes "cv2_at P ty flags mid parts t0 k s" "k \<noteq> length parts" "validate_metadata f = Ok ()"
  shows "\<exists>s1. cv2_push P s t f = cv2_push P s1 t f \<and> k' < length parts
    \<and> cv2_holds ty flags mid parts (if k' = 0 then t else t0) k' s1 \<and> (k' = 0 \<or> t - t0 < CV2_REASSEMBLY_TIMEOUT)"
proof -
  have h: "cv2_inv s" "k < length parts" "cv2_holds ty flags mid parts t0 k s" using assms(2,3) by (simp_all add: cv2_at_def)
  show ?thesis
  proof (cases "0 < k \<and> CV2_REASSEMBLY_TIMEOUT \<le> t - t0")
    case True
    then have k: "k' = 0" and "cv2_holds ty flags mid parts t 0 (snd (cv2_expire t s))"
      using expired_forgotten [OF h(1,3)] by (simp_all add: k'_def)
    with push_expired [OF assms(4), of P s t] h(2) show ?thesis unfolding k by auto
  next
    case False
    then have "k' = k" by (auto simp: k'_def)
    moreover have "k = 0 \<Longrightarrow> cv2_holds ty flags mid parts t 0 s" using h(3) by (simp add: cv2_holds_def)
    ultimately show ?thesis using False h by (intro exI [of _ s]) auto
  qed
qed

lemma push_verdict:
  assumes w: "cv2_parts ty flags mid parts" and j: "j < length parts" and at: "cv2_at P ty flags mid parts t0 k s"
    and v: "cv2_verdict (length parts) (cv2_message ty flags mid (concat parts)) t0 k (j, t) = (r, t1, k1)"
  shows "\<exists>s'. cv2_push P s t (part_frame ty flags mid parts j) = (r, s') \<and> cv2_at P ty flags mid parts t1 k1 s'"
proof -
  let ?f = "part_frame ty flags mid parts j" and ?msg = "cv2_message ty flags mid (concat parts)"
  have inv: "cv2_inv s'" if "cv2_push P s t ?f = (x, s')" for x s'
    using cv2_push_inv [of s P t ?f] at that by (simp add: cv2_at_def)
  show ?thesis
  proof (cases "k = length parts")
    case True
    then have "cv2_done P ty flags mid parts s" using at by (simp add: cv2_at_def)
    from push_repeated_part [OF w j this, of t] show ?thesis using v True inv by (auto simp: cv2_verdict_def cv2_at_def Let_def)
  next
    case False
    define k' where "k' = (if 0 < k \<and> CV2_REASSEMBLY_TIMEOUT \<le> t - t0 then 0 else k)"
    define t' where "t' = (if k' = 0 then t else t0)"
    have "validate_metadata ?f = Ok ()" using w j by (simp add: cv2_parts_def)
    then obtain s1 where s1: "cv2_push P s t ?f = cv2_push P s1 t ?f" "k' < length parts" "cv2_holds ty flags mid parts t' k' s1"
        "k' = 0 \<or> t - t0 < CV2_REASSEMBLY_TIMEOUT"
      using unexpired_state [OF at False, of ?f t] unfolding k'_def t'_def by blast
    have t: "k' = 0 \<or> t - t' < CV2_REASSEMBLY_TIMEOUT" "if k' = 0 then t = t' else t - t' < CV2_REASSEMBLY_TIMEOUT"
      using s1(4) by (auto simp: t'_def)
    have same: "cv2_holds ty flags mid parts t' k' s' = cv2_holds ty flags mid parts t0 k' s'" for s'
      by (simp add: t'_def cv2_holds_def)
    have v': "(r, t1, k1) = (if k' < j then (Err OutOfOrder, t0, k') else if j < k' then (Ok CvPending, t0, k')
        else if Suc k' = length parts then (Ok (CvComplete ?msg), t0, length parts) else (Ok CvPending, t', Suc k'))"
      unfolding v [symmetric] cv2_verdict_def Let_def prod.case k'_def t'_def by (simp only: False if_False)
    consider (early) "k' < j" | (known) "j < k'" | (turn) "j = k'" by linarith
    then show ?thesis
    proof cases
      case early
      from push_early_part [OF w early j s1(3) t(1), of P] show ?thesis
        using early v' s1(1,2) inv same by (auto simp: cv2_at_def)
    next
      case known
      then have "t - t' < CV2_REASSEMBLY_TIMEOUT" using t(1) by simp
      from push_known_part [OF w known s1(2,3) this, of P] show ?thesis
        using known v' s1(1,2) inv same by (auto simp: cv2_at_def)
    next
      case turn
      from push_next_part [OF w s1(2,3) t(2), of P] show ?thesis
        using turn v' s1(1,2) inv by (cases "Suc k' = length parts") (auto simp: cv2_at_def)
    qed
  qed
qed

lemma run_verdicts:
  assumes w: "cv2_parts ty flags mid parts"
    and d: "\<forall>k < length parts. cv2_decode (frames ! k) = Ok (part_frame ty flags mid parts k)"
  shows "cv2_at P ty flags mid parts t0 k s \<Longrightarrow> fst ` set as \<subseteq> {0..<length parts} \<Longrightarrow>
    fst (cv2_run P s (arrive frames as)) = cv2_verdicts (length parts) (cv2_message ty flags mid (concat parts)) t0 k as"
proof (induction as arbitrary: s t0 k)
  case (Cons a as)
  obtain j t where a: "a = (j, t)" "j < length parts" using Cons.prems(2) by (cases a) auto
  obtain r t1 k1 where v: "cv2_verdict (length parts) (cv2_message ty flags mid (concat parts)) t0 k (j, t) = (r, t1, k1)"
    by (metis prod_cases3)
  obtain s' where s': "cv2_push P s t (part_frame ty flags mid parts j) = (r, s')" "cv2_at P ty flags mid parts t1 k1 s'"
    using push_verdict [OF w a(2) Cons.prems(1) v] by blast
  show ?case using Cons.IH [OF s'(2)] Cons.prems(2) a s'(1) d v by (simp add: arrive_def Let_def split_beta)
qed (simp add: arrive_def)

section \<open>Properties\<close>

text \<open>The usual arrival: in order, with repeats.\<close>

lemma run_in_order:
  assumes frag: "fragment_message ty flags mid payload = Ok frames"
    and fresh: "\<forall>c \<in> set (completed s). cp_message_id c \<noteq> mid" "map_of (inflight s) mid = None"
      "length (inflight s) < MAX_INFLIGHT_MESSAGES"
    and before: "no_gaps pre" "fst ` set pre = {0..<length frames - 1}"
    and time: "\<forall>t \<in> insert now (snd ` set pre). t - snd (hd (pre @ [(0, now)])) < CV2_REASSEMBLY_TIMEOUT"
    and after: "fst ` set post \<subseteq> {0..<length frames}"
  shows "fst (cv2_run P s (arrive frames (pre @ (length frames - 1, now) # post))) =
    replicate (length pre) (Ok CvPending) @ Ok (CvComplete (cv2_message ty flags mid payload))
      # replicate (length post) (Ok CvDuplicate)"
proof -
  obtain parts where p: "length frames = length parts" "parts \<noteq> []" "length parts \<le> 16" "concat parts = payload"
      "length payload \<le> MAX_MESSAGE_SIZE"
    and v: "\<forall>k < length parts. validate_metadata (part_frame ty flags mid parts k) = Ok ()
       \<and> cv2_decode (frames ! k) = Ok (part_frame ty flags mid parts k)"
    by (rule fragment_parts [OF frag])
  let ?n = "length parts - 1" and ?t0 = "snd (hd (pre @ [(0, now)]))"
  have w: "cv2_parts ty flags mid parts" using p v by (simp add: cv2_parts_def)
  have d: "\<forall>k < length parts. cv2_decode (frames ! k) = Ok (part_frame ty flags mid parts k)" using v by blast
  have h: "cv2_holds ty flags mid parts ?t0 0 s" using fresh by (auto simp: cv2_holds_def find_None_iff)
  have sub: "fst ` set pre \<subseteq> {0..<?n}" using before(2) p(1) by simp
  have ts: "\<forall>t \<in> snd ` set pre. t - ?t0 < CV2_REASSEMBLY_TIMEOUT" using time by blast
  have hd: "pre \<noteq> [] \<longrightarrow> snd (hd pre) = ?t0" by simp
  obtain s1 k where r: "cv2_run P s (arrive frames pre) = (replicate (length pre) (Ok CvPending), s1)"
      "fst ` set pre = {0..<k}" "k < length parts" "cv2_holds ty flags mid parts ?t0 k s1"
    using run_incomplete [OF w d h before(1) sub ts hd, of P] by blast
  have "{0..<k} = {0..<?n}" using r(2) before(2) p(1) by simp
  then have k: "k = ?n" by (metis card_atLeastLessThan diff_zero)
  have "if k = 0 then now = ?t0 else now - ?t0 < CV2_REASSEMBLY_TIMEOUT"
    using time r(2) by (cases pre) auto
  from push_next_part [OF w r(3,4) this, of P] obtain s2 where
    s2: "cv2_push P s1 now (part_frame ty flags mid parts ?n) = (Ok (CvComplete (cv2_message ty flags mid payload)), s2)"
      "cv2_done P ty flags mid parts s2"
    using k p(2,4) by auto
  have "fst (cv2_run P s2 (arrive frames post)) = replicate (length post) (Ok CvDuplicate)"
    using run_repeats [OF w d s2(2)] after p(1) by simp
  then show ?thesis
    using r(1) s2(1) d p(1,2) by (simp add: arrive_def cv2_run_append Let_def split_beta)
qed

text \<open>
  C13. A control message over a carrier that repeats, delays and reorders its frames. The answer to every arrival is
  determined by the numbers of the parts and the times: parts are taken in order, a part that overtakes an
  earlier one is refused as out of order and changes nothing, a part already held is pending, a message not
  finished in time starts over, the part that finishes it delivers exactly the message sent, and every
  later arrival is a duplicate; so it is delivered at most once. And it is delivered when its parts come in order
  within the timeout of the first, whatever is repeated in between. This holds from any state the reassembler can be
  in that has room for a message and does not know this one.
\<close>

theorem control_message_round_trip:
  assumes frag: "fragment_message ty flags mid payload = Ok frames"
    and fresh: "cv2_inv s" "\<forall>c \<in> set (completed s). cp_message_id c \<noteq> mid" "map_of (inflight s) mid = None"
      "length (inflight s) < MAX_INFLIGHT_MESSAGES"
  shows "(\<forall>as. fst ` set as \<subseteq> {0..<length frames} \<longrightarrow>
      fst (cv2_run P s (arrive frames as)) = cv2_verdicts (length frames) (cv2_message ty flags mid payload) 0 0 as
      \<and> completions (fst (cv2_run P s (arrive frames as))) \<le> 1)
    \<and> (\<forall>pre now post. no_gaps pre \<and> fst ` set pre = {0..<length frames - 1} \<and> fst ` set post \<subseteq> {0..<length frames}
      \<and> (\<forall>t \<in> insert now (snd ` set pre). t - snd (hd (pre @ [(0, now)])) < CV2_REASSEMBLY_TIMEOUT) \<longrightarrow>
      fst (cv2_run P s (arrive frames (pre @ (length frames - 1, now) # post))) =
      replicate (length pre) (Ok CvPending) @ Ok (CvComplete (cv2_message ty flags mid payload))
        # replicate (length post) (Ok CvDuplicate))"
proof -
  obtain parts where p: "length frames = length parts" "parts \<noteq> []" "length parts \<le> 16" "concat parts = payload"
      "length payload \<le> MAX_MESSAGE_SIZE"
    and v: "\<forall>k < length parts. validate_metadata (part_frame ty flags mid parts k) = Ok ()
       \<and> cv2_decode (frames ! k) = Ok (part_frame ty flags mid parts k)"
    by (rule fragment_parts [OF frag])
  have w: "cv2_parts ty flags mid parts" using p v by (simp add: cv2_parts_def)
  have d: "\<forall>k < length parts. cv2_decode (frames ! k) = Ok (part_frame ty flags mid parts k)" using v by blast
  have at: "cv2_at P ty flags mid parts 0 0 s" using fresh p(2) by (auto simp: cv2_at_def cv2_holds_def find_None_iff)
  have run: "fst (cv2_run P s (arrive frames as)) = cv2_verdicts (length frames) (cv2_message ty flags mid payload) 0 0 as"
    if "fst ` set as \<subseteq> {0..<length frames}" for as
    using run_verdicts [OF w d at] that p(1,4) by simp
  moreover have "completions (cv2_verdicts n msg 0 0 as) \<le> 1" for n msg as
    using verdicts_complete_once [of n msg 0 0 as] by (simp split: if_splits)
  ultimately show ?thesis using run_in_order [OF frag fresh(2-4)] by metis
qed

text \<open>
  C40. Under any sequence of frames, messages and management messages included, the reassembler keeps
  at most 8 unfinished messages, each of at most 64 KiB and fewer parts than announced, and at most
  64 finished ones.
\<close>

theorem control_reassembler_bounded:
  "cv2_inv (fold (\<lambda>(management, now, f) s. snd (if management then push_management P J s now f else cv2_push P s now f))
     frames CvReassembler_new)"
proof -
  have "cv2_inv s \<Longrightarrow> cv2_inv (fold (\<lambda>(management, now, f) s.
      snd (if management then push_management P J s now f else cv2_push P s now f)) frames s)" for s
    by (induction frames arbitrary: s) (auto simp: cv2_push_inv push_management_inv)
  moreover have "cv2_inv CvReassembler_new" by (simp add: cv2_inv_def CvReassembler_new_def)
  ultimately show ?thesis by blast
qed


definition demo_notice :: bytes where "demo_notice = replicate 5000 7"

lemma demo_notice_parts: "chunks 4096 demo_notice = [replicate 4096 7, replicate 904 7]"
  by (simp add: demo_notice_def chunks.simps)

lemma demo_notice_frames:
  "\<exists>a b. fragment_message 0x11 0 5 demo_notice = Ok [a, b]"
proof -
  have d: "div_ceil 5000 4096 = 2" "length demo_notice = 5000" "demo_notice \<noteq> []"
    by (simp_all add: div_ceil_def demo_notice_def)
  have e: "\<exists>bs. frame_encode \<lparr>fr_message_type = 0x11, fr_flags = 0, fr_message_id = 5, fr_part_index = i,
      fr_part_count = 2, fr_payload = replicate n 7\<rparr> = Ok bs" if "n \<le> 4096" "i < 2" for i n
    using that by (simp add: frame_encode_def validate_metadata_def cv2_consts u16_max_def Let_def not_le
        KNOWN_FLAGS_def FLAG_ACK_def FLAG_ERROR_def FLAG_ACK_REQUIRED_def)
  obtain x y where "frame_encode \<lparr>fr_message_type = 0x11, fr_flags = 0, fr_message_id = 5, fr_part_index = 0,
      fr_part_count = 2, fr_payload = replicate 4096 7\<rparr> = Ok x"
    "frame_encode \<lparr>fr_message_type = 0x11, fr_flags = 0, fr_message_id = 5, fr_part_index = 1,
      fr_part_count = 2, fr_payload = replicate 904 7\<rparr> = Ok y"
    using e [of 4096 0] e [of 904 1] by auto
  with d demo_notice_parts show ?thesis by (simp add: fragment_message_def cv2_consts)
qed


theorem control_message_round_trip_witness:
  "\<exists>a b. fst (cv2_run plain_primitives CvReassembler_new
      (arrive [a, b] [(1, 6), (0, 7), (0, 8), (1, 9), (0, 10), (1, 11)])) =
    [Err OutOfOrder, Ok CvPending, Ok CvPending, Ok (CvComplete (cv2_message 0x11 0 5 demo_notice)), Ok CvDuplicate, Ok CvDuplicate]"
proof -
  obtain a b where f: "fragment_message 0x11 0 5 demo_notice = Ok [a, b]" using demo_notice_frames by blast
  let ?as = "[(1, 6), (0, 7), (0, 8), (1, 9), (0, 10), (1, 11)] :: (nat \<times> instant) list"
  have s: "cv2_inv CvReassembler_new" "\<forall>c \<in> set (completed CvReassembler_new). cp_message_id c \<noteq> 5"
      "map_of (inflight CvReassembler_new) 5 = None" "length (inflight CvReassembler_new) < MAX_INFLIGHT_MESSAGES"
    by (simp_all add: cv2_inv_def CvReassembler_new_def cv2_consts)
  have "fst ` set ?as \<subseteq> {0..<length [a, b]}" by simp
  from control_message_round_trip [OF f s, of plain_primitives, THEN conjunct1, rule_format, OF this, THEN conjunct1]
  show ?thesis by (intro exI [of _ a] exI [of _ b]) (simp add: cv2_verdict_def CV2_REASSEMBLY_TIMEOUT_def numeral_2_eq_2)
qed

end
