(* ===== verification/Obfuscate.thy ===== *)
theory Obfuscate
  imports Qeli_Prelude Floats
begin

text \<open>
  The traffic obfuscator of \<^verbatim>\<open>protocol/obfuscate.rs\<close>: random and normalising padding and the splitting
  of a handshake record. The thread's random generator is a parameter: its draws are functions of the
  number of the call.
\<close>

section \<open>Operations\<close>

record ObfRng =
  ob_sample :: "nat \<Rightarrow> rat"
  ob_range :: "nat \<Rightarrow> nat \<Rightarrow> nat \<Rightarrow> nat"
  ob_fill :: "nat \<Rightarrow> nat \<Rightarrow> bytes"

definition obf_rng_law :: "ObfRng \<Rightarrow> bool" where
  "obf_rng_law R \<longleftrightarrow> (\<forall>i lo hi. lo \<le> hi \<longrightarrow> lo \<le> ob_range R i lo hi \<and> ob_range R i lo hi \<le> hi)
     \<and> (\<forall>i n. length (ob_fill R i n) = n)"

definition padding_selected :: "f64 \<Rightarrow> rat \<Rightarrow> bool" where
  "padding_selected probability sample = (is_finite probability \<and> f64_less (Finite sample) probability)"

definition generate_padding_into :: "ObfRng \<Rightarrow> u16 \<Rightarrow> u16 \<Rightarrow> bytes" where
  "generate_padding_into R lo hi =
     (let len = (if hi \<le> lo then lo else of_nat (ob_range R 0 (unat lo) (unat hi))) in ob_fill R 0 (unat len))"

definition generate_padding :: "ObfRng \<Rightarrow> u16 \<Rightarrow> u16 \<Rightarrow> bytes" where
  "generate_padding R lo hi = generate_padding_into R lo hi"

definition generate_padding_opts_into :: "ObfRng \<Rightarrow> bool \<Rightarrow> u16 \<Rightarrow> u16 \<Rightarrow> bool \<Rightarrow> f64 \<Rightarrow> bytes" where
  "generate_padding_opts_into R enabled lo hi randomize probability =
     (if \<not> enabled \<or> hi = 0 then []
      else if \<not> padding_selected probability (ob_sample R 0) then []
      else (let lo = min lo hi in
        if randomize then generate_padding_into R lo hi else generate_padding_into R lo lo))"

definition generate_padding_opts :: "ObfRng \<Rightarrow> bool \<Rightarrow> u16 \<Rightarrow> u16 \<Rightarrow> bool \<Rightarrow> f64 \<Rightarrow> bytes" where
  "generate_padding_opts R enabled lo hi randomize probability =
     generate_padding_opts_into R enabled lo hi randomize probability"

function obf_fragment_loop ::
  "ObfRng \<Rightarrow> bytes \<Rightarrow> nat \<Rightarrow> nat \<Rightarrow> nat \<Rightarrow> nat \<Rightarrow> bytes list \<Rightarrow> nat \<times> bytes list" where
  "obf_fragment_loop R data max_frags min_chunk_size chunk_size offset fragments =
     (if offset < length data \<and> length fragments < max_frags then
        (let remaining = length data - offset;
             current_chunk = (if length fragments = max_frags - 1 then remaining
               else (let upper = min chunk_size remaining;
                         sz = (if upper \<le> min_chunk_size then min_chunk_size
                               else ob_range R (length fragments) min_chunk_size upper)
                     in min sz remaining))
         in obf_fragment_loop R data max_frags min_chunk_size chunk_size (offset + current_chunk)
              (fragments @ [slice offset (offset + current_chunk) data]))
      else (offset, fragments))"
  by pat_completeness auto
termination
  by (relation "measure (\<lambda>(R, data, max_frags, lo, sz, offset, fragments). max_frags - length fragments)") auto

declare obf_fragment_loop.simps [simp del]

definition obf_fragment_packet :: "ObfRng \<Rightarrow> bytes \<Rightarrow> u16 \<Rightarrow> u16 \<Rightarrow> u16 \<Rightarrow> bytes list" where
  "obf_fragment_packet R data min_chunk max_chunk max_fragments =
     (let max_frags = unat max_fragments in
      if max_frags = 0 then [data]
      else (let min_chunk_size = unat min_chunk; max_chunk_size = unat max_chunk in
        if length data \<le> min_chunk_size then [data]
        else (let optimal_chunk = div_ceil (length data) max_frags;
                  chunk_size = min (max optimal_chunk min_chunk_size) max_chunk_size;
                  (offset, fragments) = obf_fragment_loop R data max_frags min_chunk_size chunk_size 0 []
              in if offset < length data \<and> fragments \<noteq> []
                 then butlast fragments @ [last fragments @ drop offset data] else fragments)))"

fun normalization_padding_len :: "nat \<Rightarrow> u16 list \<Rightarrow> nat \<Rightarrow> nat" where
  "normalization_padding_len data_len [] max_len = 0"
| "normalization_padding_len data_len (sz # round_sizes) max_len =
     (if max_len < unat sz then normalization_padding_len data_len round_sizes max_len
      else if data_len \<le> unat sz then unat sz - data_len
      else normalization_padding_len data_len round_sizes max_len)"

text \<open>The padding drawn so far is extended by the second fill of the generator.\<close>

definition append_normalization_padding_into :: "ObfRng \<Rightarrow> nat \<Rightarrow> u16 list \<Rightarrow> nat \<Rightarrow> bytes \<Rightarrow> bytes" where
  "append_normalization_padding_into R data_len round_sizes max_len out =
     (let count = normalization_padding_len (saturating_add data_len (length out)) round_sizes max_len in
      if count \<noteq> 0 then out @ ob_fill R 1 count else out)"

section \<open>Padding stays inside its bounds\<close>

lemma generated_padding_length:
  assumes "obf_rng_law R" "lo \<le> hi"
  shows "unat lo \<le> length (generate_padding_into R lo hi)" "length (generate_padding_into R lo hi) \<le> unat hi"
proof -
  have le: "unat lo \<le> unat hi" using assms(2) by (simp add: word_le_nat_alt)
  then have r: "unat lo \<le> ob_range R 0 (unat lo) (unat hi)" "ob_range R 0 (unat lo) (unat hi) \<le> unat hi"
    using assms(1) by (simp_all add: obf_rng_law_def)
  moreover have "unat (of_nat (ob_range R 0 (unat lo) (unat hi)) :: u16) = ob_range R 0 (unat lo) (unat hi)"
    using le_less_trans [OF r(2) unsigned_less] by (intro unat_of_nat_eq') simp
  ultimately show "unat lo \<le> length (generate_padding_into R lo hi)" "length (generate_padding_into R lo hi) \<le> unat hi"
    using assms le by (auto simp: generate_padding_into_def obf_rng_law_def Let_def)
qed

lemma padding_opts_length: "obf_rng_law R \<Longrightarrow> length (generate_padding_opts_into R e lo hi r p) \<le> unat hi"
proof -
  assume R: "obf_rng_law R"
  have m: "min lo hi \<le> hi" by simp
  have "length (generate_padding_into R (min lo hi) (min lo hi)) \<le> unat (min lo hi)"
    by (rule generated_padding_length [OF R order_refl])
  also have "\<dots> \<le> unat hi" using m by (simp only: word_le_nat_alt)
  finally show ?thesis
    using generated_padding_length(2) [OF R m] by (simp add: generate_padding_opts_into_def Let_def)
qed

lemma normalization_rounds:
  "normalization_padding_len n sizes max_len = 0 \<or> n + normalization_padding_len n sizes max_len \<le> max_len
     \<and> (\<exists>sz \<in> set sizes. n + normalization_padding_len n sizes max_len = unat sz)"
  by (induction sizes) auto

section \<open>Splitting loses nothing\<close>

lemma obf_fragment_loop_concat:
  assumes "offset \<le> length data" "concat fragments = take offset data" "length fragments \<le> max_frags"
    and "obf_fragment_loop R data max_frags lo sz offset fragments = (off', frags')"
  shows "concat frags' = take off' data \<and> length frags' \<le> max_frags
    \<and> (length fragments < max_frags \<or> offset = length data \<longrightarrow> off' = length data)"
  using assms
proof (induction R data max_frags lo sz offset fragments rule: obf_fragment_loop.induct)
  case (1 R data max_frags lo sz offset fragments)
  show ?case
  proof (cases "offset < length data \<and> length fragments < max_frags")
    case True
    define remaining where "remaining = length data - offset"
    define cur where "cur = (if length fragments = max_frags - 1 then remaining
               else (let upper = min sz remaining;
                         sz = (if upper \<le> lo then lo else ob_range R (length fragments) lo upper)
                     in min sz remaining))"
    have cur: "cur \<le> length data - offset" "length fragments = max_frags - 1 \<longrightarrow> cur = length data - offset"
      by (simp_all add: cur_def remaining_def Let_def)
    have rec: "obf_fragment_loop R data max_frags lo sz (offset + cur) (fragments @ [slice offset (offset + cur) data])
        = (off', frags')"
      using 1(5) unfolding obf_fragment_loop.simps [of R data max_frags lo sz offset fragments] if_P [OF True]
        cur_def remaining_def Let_def .
    have "concat (fragments @ [slice offset (offset + cur) data]) = take (offset + cur) data"
      using 1(3) by (simp add: slice_def take_add)
    then show ?thesis
      using 1(1) [OF True refl refl, folded remaining_def, folded cur_def, OF _ _ _ rec] cur True by auto
  next
    case False
    with 1 show ?thesis by (auto simp: obf_fragment_loop.simps [of R data max_frags lo sz offset fragments])
  qed
qed

lemma obf_fragments_concat:
  "concat (obf_fragment_packet R data lo hi n) = data"
  "length (obf_fragment_packet R data lo hi n) \<le> max 1 (unat n)"
proof -
  obtain off frags where l: "obf_fragment_loop R data (unat n) (unat lo)
      (min (max (div_ceil (length data) (unat n)) (unat lo)) (unat hi)) 0 [] = (off, frags)"
    by (metis surj_pair)
  have "concat frags = take off data" "length frags \<le> unat n" "0 < unat n \<longrightarrow> off = length data"
    using obf_fragment_loop_concat [OF _ _ _ l] by simp_all
  then show "concat (obf_fragment_packet R data lo hi n) = data" "length (obf_fragment_packet R data lo hi n) \<le> max 1 (unat n)"
    by (auto simp: obf_fragment_packet_def l Let_def)
qed

end
