(* ===== verification/Udp_Framing.thy ===== *)
theory Udp_Framing
  imports Quic Crypto_Primitives
begin

unbundle bit_operations_syntax

text \<open>
  The outer framing of a UDP datagram after authentication: the eight-byte-locator short header of
  \<^verbatim>\<open>protocol/roaming.rs\<close> and the framing choice of \<^verbatim>\<open>transport_core/udp_client_framing.rs\<close>.
\<close>

section \<open>The locator header\<close>

definition CID_LEN :: nat where "CID_LEN = 8"
definition UDP_SHORT_FLAGS :: u8 where "UDP_SHORT_FLAGS = 0x43"
definition UDP_SHORT_HEADER_LEN :: nat where "UDP_SHORT_HEADER_LEN = 1 + CID_LEN + 4"
definition CID_LABEL :: bytes where "CID_LABEL = map (of_nat \<circ> of_char) ''qeli-udp-cid-v1''"

datatype RoamingWireError = RwTruncated | RwUnsupported | RwInvalidLength | UnknownPathType u8

record UdpShortHeader =
  sh_destination_cid :: bytes
  sh_packet_number :: u32

definition derive_udp_cid :: "Primitives \<Rightarrow> bytes \<Rightarrow> u64 \<Rightarrow> u64 \<Rightarrow> bytes" where
  "derive_udp_cid P cid_secret session_id epoch =
     take CID_LEN (hmac_sha256 P cid_secret (CID_LABEL @ to_be_bytes session_id @ to_be_bytes epoch))"

definition short_encode_into :: "UdpShortHeader \<Rightarrow> bytes \<Rightarrow> bytes" where
  "short_encode_into h encrypted_record =
     [UDP_SHORT_FLAGS] @ sh_destination_cid h @ to_be_bytes (sh_packet_number h) @ encrypted_record"

definition decode_udp_short :: "bytes \<Rightarrow> (RoamingWireError, UdpShortHeader \<times> bytes) result" where
  "decode_udp_short bs =
     (if length bs < UDP_SHORT_HEADER_LEN then Err RwTruncated
      else if bs ! 0 \<noteq> UDP_SHORT_FLAGS then Err RwUnsupported
      else Ok (\<lparr>sh_destination_cid = slice 1 9 bs, sh_packet_number = from_be_bytes (slice 9 13 bs)\<rparr>,
               drop UDP_SHORT_HEADER_LEN bs))"

section \<open>The framing of a path\<close>

datatype UdpClientFraming = Unmasked | LegacyQuic bytes | RoamingCid bytes bytes

datatype UdpClientFramingError = LegacyQuicError QuicError | RoamingCidError RoamingWireError
  | UnexpectedDestinationCid

definition framing_legacy :: "bool \<Rightarrow> bytes \<Rightarrow> UdpClientFraming" where
  "framing_legacy quic_enabled connection_id = (if quic_enabled then LegacyQuic connection_id else Unmasked)"

definition uses_packet_number :: "UdpClientFraming \<Rightarrow> bool" where
  "uses_packet_number f \<longleftrightarrow> f \<noteq> Unmasked"

fun wrapper_len :: "UdpClientFraming \<Rightarrow> nat" where
  "wrapper_len Unmasked = 0"
| "wrapper_len (LegacyQuic _) = QUIC_SHORT_HEADER_MIN"
| "wrapper_len (RoamingCid _ _) = UDP_SHORT_HEADER_LEN"

fun wrap_into :: "UdpClientFraming \<Rightarrow> bytes \<Rightarrow> u32 \<Rightarrow> bytes" where
  "wrap_into Unmasked rec pn = rec"
| "wrap_into (LegacyQuic connection_id) rec pn = wrap_quic_short_into rec connection_id pn"
| "wrap_into (RoamingCid transmit_cid _) rec pn =
     short_encode_into \<lparr>sh_destination_cid = transmit_cid, sh_packet_number = pn\<rparr> rec"

fun framing_unwrap :: "UdpClientFraming \<Rightarrow> bytes \<Rightarrow> (UdpClientFramingError, bytes) result" where
  "framing_unwrap Unmasked datagram = Ok datagram"
| "framing_unwrap (LegacyQuic _) datagram =
     (case unwrap_quic_payload datagram of Inl e \<Rightarrow> Err (LegacyQuicError e) | Inr p \<Rightarrow> Ok p)"
| "framing_unwrap (RoamingCid _ receive_cid) datagram =
     (case decode_udp_short datagram of
        Inl e \<Rightarrow> Err (RoamingCidError e)
      | Inr (header, rec) \<Rightarrow>
          if sh_destination_cid header \<noteq> receive_cid then Err UnexpectedDestinationCid else Ok rec)"

definition wrap_next_udp_record :: "UdpClientFraming \<Rightarrow> bytes \<Rightarrow> u32 \<Rightarrow> bytes \<times> u32" where
  "wrap_next_udp_record f rec packet_number =
     (wrap_into f rec packet_number, if uses_packet_number f then packet_number + 1 else packet_number)"

section \<open>Round trips\<close>

lemma locator_round_trip:
  assumes "length cid = 8"
  shows "decode_udp_short (short_encode_into \<lparr>sh_destination_cid = cid, sh_packet_number = pn\<rparr> rec)
    = Ok (\<lparr>sh_destination_cid = cid, sh_packet_number = pn\<rparr>, rec)"
  using assms by (simp add: decode_udp_short_def short_encode_into_def UDP_SHORT_HEADER_LEN_def CID_LEN_def
      UDP_SHORT_FLAGS_def slice_def from_to_be_bytes)

lemma legacy_payload: "length cid = 4 \<Longrightarrow> unwrap_quic_payload (wrap_quic_short_into rec cid pn) = Ok rec"
  using short_envelope [of cid rec pn] by (simp add: unwrap_quic_payload_def wrap_quic_short_def)

text \<open>A path unwraps what its peer wraps, and the wrapper has the length the budgets use.\<close>

definition framings_meet :: "UdpClientFraming \<Rightarrow> UdpClientFraming \<Rightarrow> bool" where
  "framings_meet a b \<longleftrightarrow> a = Unmasked \<and> b = Unmasked
     \<or> (\<exists>c d. a = LegacyQuic c \<and> b = LegacyQuic d \<and> length c = 4)
     \<or> (\<exists>x y z. a = RoamingCid x y \<and> b = RoamingCid z x \<and> length x = 8)"

lemma unwrap_wrapped: "framings_meet a b \<Longrightarrow> framing_unwrap b (wrap_into a rec pn) = Ok rec"
  by (auto simp: framings_meet_def legacy_payload locator_round_trip)

lemma length_wrapped: "framings_meet a b \<Longrightarrow> length (wrap_into a rec pn) = wrapper_len a + length rec"
  by (auto simp: framings_meet_def wrap_quic_short_into_def quic_flags short_encode_into_def UDP_SHORT_HEADER_LEN_def
      CID_LEN_def)

end
