(* ===== verification/Udp_Uplink.thy ===== *)
theory Udp_Uplink
  imports Packet_Codec Data_Frag Obfuscate Udp_Framing
begin

text \<open>
  The client's UDP sender, \<^verbatim>\<open>send_client_udp_payloads\<close> and \<^verbatim>\<open>flush_client_udp_datagrams\<close> of
  \<^verbatim>\<open>client/mod.rs\<close>: padding, sealing, fragmentation, framing and batched sending of a list of payloads.
  The socket is a parameter: its batch call takes its state and a batch and answers how many datagrams it
  accepted, or \<open>None\<close> for an error. The model records the accepted datagrams; the path counters, the log
  and the reuse of buffers are left out.
\<close>

section \<open>Configuration and state\<close>

record PaddingConfig =
  pad_enabled :: bool
  pad_min_bytes :: u16
  pad_max_bytes :: u16
  pad_randomize :: bool
  pad_probability :: f64

record TrafficNormalizationConfig =
  norm_enabled :: bool
  norm_round_sizes :: "u16 list"

datatype ClientUdpPayloadSendOutcome = Sent | EncodeFailed | CarrierFailed

definition MAX_BATCH :: nat where "MAX_BATCH = 32"

type_synonym 's send_batch = "'s \<Rightarrow> bytes list \<Rightarrow> nat option \<times> 's"

record 's UdpTx =
  tx_codec :: PacketCodec
  tx_record_id :: u64
  quic_pn :: u32
  datagrams :: "bytes list"
  sock :: 's
  wire :: "bytes list"

section \<open>Batched sending\<close>

function flush_loop :: "'s send_batch \<Rightarrow> bytes list \<Rightarrow> nat \<Rightarrow> 's \<Rightarrow> bytes list \<Rightarrow> bool \<times> 's \<times> bytes list" where
  "flush_loop send ds offset sk out =
     (if offset < length ds then
        (let chunk = take MAX_BATCH (drop offset ds) in
         case send sk chunk of
           (None, sk') \<Rightarrow> (False, sk', out)
         | (Some sent, sk') \<Rightarrow>
             if sent = 0 then (False, sk', out)
             else flush_loop send ds (offset + sent) sk' (out @ take sent chunk))
      else (True, sk, out))"
  by pat_completeness auto
termination
  by (relation "measure (\<lambda>(send, ds, offset, sk, out). length ds - offset)") auto

declare flush_loop.simps [simp del]

definition flush_client_udp_datagrams :: "'s send_batch \<Rightarrow> 's UdpTx \<Rightarrow> bool \<times> 's UdpTx" where
  "flush_client_udp_datagrams send st =
     (let (ok, sk, out) = flush_loop send (datagrams st) 0 (sock st) (wire st) in
      (ok, st\<lparr>sock := sk, wire := out, datagrams := (if ok then [] else datagrams st)\<rparr>))"

text \<open>One wrapped record joins the batch, which is flushed when it is full.\<close>

definition enqueue :: "'s send_batch \<Rightarrow> UdpClientFraming \<Rightarrow> bytes \<Rightarrow> 's UdpTx \<Rightarrow> bool \<times> 's UdpTx" where
  "enqueue send f rec st =
     (let (send_data, pn) = wrap_next_udp_record f rec (quic_pn st);
          st' = st\<lparr>quic_pn := pn, datagrams := datagrams st @ [send_data]\<rparr> in
      if length (datagrams st') = MAX_BATCH then flush_client_udp_datagrams send st' else (True, st'))"

fun enqueue_all :: "'s send_batch \<Rightarrow> UdpClientFraming \<Rightarrow> bytes list \<Rightarrow> 's UdpTx \<Rightarrow> bool \<times> 's UdpTx" where
  "enqueue_all send f [] st = (True, st)"
| "enqueue_all send f (rec # recs) st =
     (case enqueue send f rec st of
        (True, st') \<Rightarrow> enqueue_all send f recs st'
      | (False, st') \<Rightarrow> (False, st'))"

section \<open>Payloads\<close>

definition payload_padding :: "ObfRng \<Rightarrow> PaddingConfig \<Rightarrow> TrafficNormalizationConfig \<Rightarrow> nat \<Rightarrow> nat \<Rightarrow> bytes" where
  "payload_padding R pc nc payload_budget len =
     (let normalize = (norm_enabled nc \<and> norm_round_sizes nc \<noteq> []);
          normalization_padding =
            (if normalize then normalization_padding_len len (norm_round_sizes nc) payload_budget else 0);
          pad_cap = of_nat (min (unat (pad_max_bytes pc)) (payload_budget - saturating_add len normalization_padding));
          padding = generate_padding_opts_into R (pad_enabled pc) (pad_min_bytes pc) pad_cap (pad_randomize pc)
                      (pad_probability pc)
      in if normalize then append_normalization_padding_into R len (norm_round_sizes nc) payload_budget padding
         else padding)"

definition after_failed_encode :: "'s send_batch \<Rightarrow> 's UdpTx \<Rightarrow> ClientUdpPayloadSendOutcome \<times> 's UdpTx" where
  "after_failed_encode send st =
     (let (ok, st') = flush_client_udp_datagrams send st in (if ok then EncodeFailed else CarrierFailed, st'))"

text \<open>The loop over the payloads. The subtraction of the fragment header from the budget would
  overflow, and the thread panic, for a budget below that header: the value \<open>None\<close>.\<close>

fun send_client_udp_payloads ::
  "Primitives \<Rightarrow> (nat \<Rightarrow> ObfRng) \<Rightarrow> 's send_batch \<Rightarrow> PaddingConfig \<Rightarrow> TrafficNormalizationConfig \<Rightarrow> nat \<Rightarrow> nat \<Rightarrow> bool
     \<Rightarrow> bytes \<Rightarrow> UdpClientFraming \<Rightarrow> bytes list \<Rightarrow> nat \<Rightarrow> 's UdpTx
     \<Rightarrow> (ClientUdpPayloadSendOutcome \<times> 's UdpTx) option" where
  "send_client_udp_payloads P R send pc nc payload_budget record_budget frag_enabled key f [] i st =
     (case flush_client_udp_datagrams send st of
        (True, st') \<Rightarrow> Some (Sent, st')
      | (False, st') \<Rightarrow> Some (CarrierFailed, st'))"
| "send_client_udp_payloads P R send pc nc payload_budget record_budget frag_enabled key f (payload # payloads) i st =
     (case encrypt_packet_into P (tx_codec st) payload
             (payload_padding (R i) pc nc payload_budget (length payload)) [] of
        (Inl _, _, codec) \<Rightarrow> Some (after_failed_encode send (st\<lparr>tx_codec := codec\<rparr>))
      | (Inr _, rec, codec) \<Rightarrow>
          (let st = st\<lparr>tx_codec := codec\<rparr> in
           if frag_enabled \<and> record_budget < length rec then
             (let rid = tx_record_id st; st = st\<lparr>tx_record_id := rid + 1\<rparr> in
              case checked_sub record_budget HEADER_LEN of
                None \<Rightarrow> None
              | Some max_payload \<Rightarrow>
                  (case fragment_record P rec key rid max_payload of
                     Inl _ \<Rightarrow> Some (after_failed_encode send st)
                   | Inr fragments \<Rightarrow>
                       (case enqueue_all send f fragments st of
                          (False, st') \<Rightarrow> Some (CarrierFailed, st')
                        | (True, st') \<Rightarrow> send_client_udp_payloads P R send pc nc payload_budget record_budget
                            frag_enabled key f payloads (i + 1) st')))
           else (case enqueue_all send f [rec] st of
                   (False, st') \<Rightarrow> Some (CarrierFailed, st')
                 | (True, st') \<Rightarrow> send_client_udp_payloads P R send pc nc payload_budget record_budget
                     frag_enabled key f payloads (i + 1) st')))"


section \<open>A live socket sends everything in order\<close>

definition socket_live :: "'s send_batch \<Rightarrow> bool" where
  "socket_live send \<longleftrightarrow> (\<forall>sk chunk. chunk \<noteq> [] \<longrightarrow>
     (\<exists>n sk'. send sk chunk = (Some n, sk') \<and> 0 < n \<and> n \<le> length chunk))"

lemma flush_loop_live:
  assumes live: "socket_live send" and "offset \<le> length ds"
  shows "\<exists>sk'. flush_loop send ds offset sk out = (True, sk', out @ drop offset ds)"
  using assms(2)
proof (induction "length ds - offset" arbitrary: offset sk out rule: less_induct)
  case less
  show ?case
  proof (cases "offset < length ds")
    case True
    let ?chunk = "take MAX_BATCH (drop offset ds)"
    have "?chunk \<noteq> []" using True by (simp add: MAX_BATCH_def)
    then obtain n sk' where n: "send sk ?chunk = (Some n, sk')" "0 < n" "n \<le> length ?chunk"
      using live unfolding socket_live_def by blast
    have "take n ?chunk @ drop (offset + n) ds = drop offset ds"
      using n(3) by (simp add: min_absorb1 add.commute flip: drop_drop)
    moreover have "\<exists>sk''. flush_loop send ds (offset + n) sk' (out @ take n ?chunk)
        = (True, sk'', (out @ take n ?chunk) @ drop (offset + n) ds)"
      using n True by (intro less.hyps) auto
    ultimately show ?thesis
      using True n by (simp add: flush_loop.simps [of send ds offset sk out])
  next
    case False
    with less.prems show ?thesis by (subst flush_loop.simps) simp
  qed
qed

definition queued :: "'s UdpTx \<Rightarrow> bytes list" where
  "queued st = wire st @ datagrams st"

lemma flush_live:
  assumes "socket_live send"
  shows "\<exists>st'. flush_client_udp_datagrams send st = (True, st') \<and> wire st' = queued st \<and> queued st' = queued st
    \<and> tx_codec st' = tx_codec st \<and> tx_record_id st' = tx_record_id st"
  using flush_loop_live [OF assms, of 0 "datagrams st" "sock st" "wire st"]
  by (auto simp: flush_client_udp_datagrams_def queued_def)

lemma enqueue_live:
  assumes "socket_live send" "framings_meet f g"
  shows "\<exists>st' w. enqueue send f rec st = (True, st') \<and> queued st' = queued st @ [w] \<and> framing_unwrap g w = Ok rec
    \<and> tx_codec st' = tx_codec st \<and> tx_record_id st' = tx_record_id st"
proof -
  let ?w = "wrap_into f rec (quic_pn st)"
  let ?st = "st\<lparr>quic_pn := snd (wrap_next_udp_record f rec (quic_pn st)), datagrams := datagrams st @ [?w]\<rparr>"
  have e: "enqueue send f rec st = (if length (datagrams ?st) = MAX_BATCH then flush_client_udp_datagrams send ?st else (True, ?st))"
    by (simp add: enqueue_def wrap_next_udp_record_def Let_def)
  have "queued ?st = queued st @ [?w]" by (simp add: queued_def)
  then show ?thesis
    using flush_live [OF assms(1), of ?st] unwrap_wrapped [OF assms(2), of rec "quic_pn st"] unfolding e by auto
qed

lemma enqueue_all_live:
  assumes "socket_live send" "framings_meet f g"
  shows "\<exists>st' ws. enqueue_all send f recs st = (True, st') \<and> queued st' = queued st @ ws
    \<and> map (framing_unwrap g) ws = map Ok recs \<and> tx_codec st' = tx_codec st \<and> tx_record_id st' = tx_record_id st"
proof (induction recs arbitrary: st)
  case (Cons rec recs)
  obtain st1 w where w: "enqueue send f rec st = (True, st1)" "queued st1 = queued st @ [w]" "framing_unwrap g w = Ok rec"
      "tx_codec st1 = tx_codec st" "tx_record_id st1 = tx_record_id st"
    using enqueue_live [OF assms] by blast
  obtain st' ws where "enqueue_all send f recs st1 = (True, st')" "queued st' = queued st1 @ ws"
      "map (framing_unwrap g) ws = map Ok recs" "tx_codec st' = tx_codec st1" "tx_record_id st' = tx_record_id st1"
    using Cons.IH by blast
  with w show ?case by (intro exI [of _ st'] exI [of _ "w # ws"]) simp
qed simp


section \<open>What the sender puts on the wire\<close>

text \<open>Padding never takes a payload over its budget.\<close>

lemma payload_padding_fits:
  assumes R: "obf_rng_law R" and len: "len \<le> budget" "budget \<le> MAX_TUNNEL_MTU"
  shows "len + length (payload_padding R pc nc budget len) \<le> budget"
proof -
  define nrm where "nrm = (norm_enabled nc \<and> norm_round_sizes nc \<noteq> [])"
  define cap where "cap = min (unat (pad_max_bytes pc)) (budget - saturating_add len
    (if nrm then normalization_padding_len len (norm_round_sizes nc) budget else 0))"
  define pad where "pad = generate_padding_opts_into R (pad_enabled pc) (pad_min_bytes pc) (of_nat cap)
    (pad_randomize pc) (pad_probability pc)"
  have p: "payload_padding R pc nc budget len = (if nrm
      then append_normalization_padding_into R len (norm_round_sizes nc) budget pad else pad)"
    by (simp add: payload_padding_def nrm_def cap_def pad_def Let_def)
  have small: "len \<le> usize_max" "budget \<le> usize_max" "cap \<le> 65535"
    using len unat_u16_le [of "pad_max_bytes pc"] by (auto simp: cap_def packet_consts usize_max_def)
  then have "cap \<le> budget - len" by (auto simp: cap_def saturating_add_def)
  moreover have "length pad \<le> cap"
    using padding_opts_length [OF R, of "pad_enabled pc" "pad_min_bytes pc" "of_nat cap" "pad_randomize pc" "pad_probability pc"]
      small(3) unat_of_nat_eq' [of cap, where 'a = 16] by (simp add: pad_def)
  ultimately have l: "len + length pad \<le> budget" using len by linarith
  have fill: "length (ob_fill R (Suc 0) n) = n" for n using R by (simp add: obf_rng_law_def)
  have "saturating_add len (length pad) = len + length pad" using l small by (simp add: saturating_add_def)
  then show ?thesis
    using normalization_rounds [of "len + length pad" "norm_round_sizes nc" budget] l
    by (auto simp: p append_normalization_padding_into_def Let_def fill)
qed

definition uplink_record ::
  "Primitives \<Rightarrow> bool \<Rightarrow> nat \<Rightarrow> bytes \<Rightarrow> PacketCodec \<Rightarrow> u64 \<Rightarrow> bytes \<Rightarrow> bytes list \<Rightarrow> u64 \<Rightarrow> bool" where
  "uplink_record P frag budget key s rid payload ds rid' \<longleftrightarrow> (\<exists>rec. sealed_record P s payload rec \<and>
     (if frag \<and> budget < length rec then fragment_record P rec key rid (budget - HEADER_LEN) = Ok ds \<and> rid' = rid + 1
      else ds = [rec] \<and> rid' = rid))"

text \<open>The datagrams of a list of payloads, before the outer framing: payload by payload.\<close>

inductive uplink_stream ::
  "Primitives \<Rightarrow> bool \<Rightarrow> nat \<Rightarrow> bytes \<Rightarrow> PacketCodec \<Rightarrow> u64 \<Rightarrow> bytes list \<Rightarrow> bytes list list \<Rightarrow> bool"
  for P frag budget key where
  none: "uplink_stream P frag budget key s rid [] []"
| more: "uplink_record P frag budget key s rid p ds rid' \<Longrightarrow>
    uplink_stream P frag budget key (s\<lparr>counter := counter s + 1\<rparr>) rid' ps dss \<Longrightarrow>
    uplink_stream P frag budget key s rid (p # ps) (ds # dss)"

inductive_cases uplink_stream_Cons: "uplink_stream P frag budget key s rid (p # ps) dss"
inductive_cases uplink_stream_Nil: "uplink_stream P frag budget key s rid [] dss"

lemma record_splits:
  assumes "length rec \<le> 43 + payload_budget" "record_budget < length rec" "HEADER_LEN < record_budget"
    and "payload_budget \<le> MAX_TUNNEL_MTU" "43 + payload_budget \<le> MAX_FRAGMENTS * (record_budget - HEADER_LEN)"
  shows "\<exists>ds. fragment_record P rec key rid (record_budget - HEADER_LEN) = Ok ds"
proof -
  have "splittable rec (record_budget - HEADER_LEN)"
    using assms by (simp add: splittable_def piece_count_def div_ceil_le_iff MAX_REASSEMBLED_RECORD_def packet_consts)
  then show ?thesis using fragment_record_pieces by blast
qed


lemma encrypt_into_sealed:
  assumes laws: "aead_laws P" and wf: "codec_wf s" and cnt: "unat (counter s) < 2 ^ 64 - 1 - 1000"
    and fits: "length data + length padding \<le> MAX_TUNNEL_MTU"
  obtains rec where "encrypt_packet_into P s data padding [] = (Ok (), rec, s\<lparr>counter := counter s + 1\<rparr>)"
    and "sealed_record P s data rec" and "length rec \<le> 43 + length data + length padding"
proof -
  have fits': "length data + min (length padding) 65535 \<le> MAX_TUNNEL_MTU" using fits by simp
  obtain rec where rec: "encrypt_packet P s data padding = (Ok rec, s\<lparr>counter := counter s + 1\<rparr>)"
    "sealed_record P s data rec" "length rec = header_len (framing s) + 38 + length data + min (length padding) 65535"
    by (rule encrypt_then_decrypt [OF laws wf cnt fits'])
  have "encrypt_packet_into P s data padding [] = (Ok (), rec, s\<lparr>counter := counter s + 1\<rparr>)"
    using rec(1) by (auto simp: encrypt_packet_def split: prod.splits sum.splits)
  moreover have "length rec \<le> 43 + length data + length padding" using rec(3) header_len_le(1) [of "framing s"] by linarith
  ultimately show thesis using that rec(2) by blast
qed

text \<open>With a live socket and payloads within the budget the sender reports success, and the wire holds
  the framed datagrams of the payloads, one payload after the other.\<close>

lemma payloads_sent:
  assumes laws: "aead_laws P" and R: "\<And>i. obf_rng_law (R i)" and live: "socket_live send" and meet: "framings_meet f g"
    and budget: "payload_budget \<le> MAX_TUNNEL_MTU" "HEADER_LEN < record_budget"
      "43 + payload_budget \<le> MAX_FRAGMENTS * (record_budget - HEADER_LEN)"
  shows "codec_wf (tx_codec st) \<Longrightarrow> unat (counter (tx_codec st)) + length ps \<le> 2 ^ 64 - 1001 \<Longrightarrow>
    (\<forall>p \<in> set ps. length p \<le> payload_budget) \<Longrightarrow>
    \<exists>st' ws dss. send_client_udp_payloads P R send pc nc payload_budget record_budget frag key f ps i st = Some (Sent, st')
      \<and> wire st' = queued st @ ws \<and> map (framing_unwrap g) ws = map Ok (concat dss)
      \<and> uplink_stream P frag record_budget key (tx_codec st) (tx_record_id st) ps dss"
proof (induction ps arbitrary: i st)
  case Nil
  obtain st' where "flush_client_udp_datagrams send st = (True, st')" "wire st' = queued st"
    using flush_live [OF live] by blast
  then show ?case by (intro exI [of _ st'] exI [of _ "[]"]) (simp add: uplink_stream.none)
next
  case (Cons p ps)
  let ?pad = "payload_padding (R i) pc nc payload_budget (length p)" and ?s = "tx_codec st" and ?rid = "tx_record_id st"
  let ?s1 = "?s\<lparr>counter := counter ?s + 1\<rparr>"
  have fits: "length p + length ?pad \<le> payload_budget"
    using Cons.prems(3) budget(1) by (intro payload_padding_fits [OF R]) simp_all
  obtain rec where rec: "encrypt_packet_into P ?s p ?pad [] = (Ok (), rec, ?s1)" "sealed_record P ?s p rec"
      "length rec \<le> 43 + length p + length ?pad"
    using encrypt_into_sealed [OF laws Cons.prems(1), of p ?pad] Cons.prems(2) fits budget(1) by auto
  let ?frag = "frag \<and> record_budget < length rec"
  obtain ds where ds: "if ?frag then fragment_record P rec key ?rid (record_budget - HEADER_LEN) = Ok ds else ds = [rec]"
    using record_splits [OF _ _ budget(2,1,3), of rec P key ?rid] rec(3) fits by (cases ?frag) auto
  let ?rid' = "if ?frag then ?rid + 1 else ?rid"
  let ?st1 = "st\<lparr>tx_codec := ?s1, tx_record_id := ?rid'\<rparr>"
  have up: "uplink_record P frag record_budget key ?s ?rid p ds ?rid'"
    unfolding uplink_record_def using rec(2) ds by (intro exI [of _ rec]) (simp split: if_splits)
  obtain st2 ws where st2: "enqueue_all send f ds ?st1 = (True, st2)" "queued st2 = queued ?st1 @ ws"
      "map (framing_unwrap g) ws = map Ok ds" "tx_codec st2 = ?s1" "tx_record_id st2 = ?rid'"
    using enqueue_all_live [OF live meet, of ds ?st1] by auto
  have "codec_wf (tx_codec st2)" "unat (counter (tx_codec st2)) + length ps \<le> 2 ^ 64 - 1001"
    using Cons.prems(1,2) st2(4) by (simp_all add: codec_wf_def unat_plus_if')
  then obtain st' ws' dss where IH: "send_client_udp_payloads P R send pc nc payload_budget record_budget frag key f ps (i + 1) st2
        = Some (Sent, st')" "wire st' = queued st2 @ ws'" "map (framing_unwrap g) ws' = map Ok (concat dss)"
      "uplink_stream P frag record_budget key ?s1 ?rid' ps dss"
    using Cons.IH [of st2 "i + 1"] Cons.prems(3) st2(4,5) by auto
  have "send_client_udp_payloads P R send pc nc payload_budget record_budget frag key f (p # ps) i st = Some (Sent, st')"
  proof (cases ?frag)
    case True
    then have "enqueue_all send f ds (st\<lparr>tx_codec := ?s1, tx_record_id := ?rid + 1\<rparr>) = (True, st2)"
      "fragment_record P rec key ?rid (record_budget - HEADER_LEN) = Ok ds"
      using st2(1) ds by simp_all
    with True budget(2) IH(1) show ?thesis by (simp add: rec(1) checked_sub_def)
  next
    case False
    have "st\<lparr>tx_codec := ?s1, tx_record_id := ?rid\<rparr> = st\<lparr>tx_codec := ?s1\<rparr>" by (cases st) simp
    then have "enqueue_all send f [rec] (st\<lparr>tx_codec := ?s1\<rparr>) = (True, st2)" using st2(1) ds False by simp
    with False IH(1) show ?thesis by (auto simp: rec(1) Let_def simp del: enqueue_all.simps)
  qed
  moreover have "wire st' = queued st @ ws @ ws'" using IH(2) st2(2) by (simp add: queued_def)
  moreover have "map (framing_unwrap g) (ws @ ws') = map Ok (concat (ds # dss))" using st2(3) IH(3) by simp
  ultimately show ?case using uplink_stream.more [OF up IH(4)] by blast
qed

end
