(* ===== verification/Udp_Ingress.thy ===== *)
theory Udp_Ingress
  imports Udp_Frag Recordizer Acl Sessions Control_V2 Udp_Framing
begin

unbundle bit_operations_syntax

text \<open>
  The server's UDP receive path for a source that has a session: \<^verbatim>\<open>handle_udp_datagram\<close> of
  \<^verbatim>\<open>server/udp_handler.rs\<close> up to the branch for a new source, with \<^verbatim>\<open>forward_udp_uplink_packet\<close>. What the
  handler does outside the session's own entry is a list of actions. The clock, the buffer pool and the
  pacing queue answer through \<open>IngressEnv\<close>; the counters of dropped packets are left out.
\<close>

section \<open>State, environment, actions\<close>

datatype UdpSessionState = AwaitingAuth | Authenticated u64

record UdpClient =
  uc_rx_codec :: PacketCodec
  uc_rx_data_frag_key :: bytes
  uc_data_frag_enabled :: bool
  uc_data_reassembler :: DataReassembler
  uc_rx_recordizer :: "RzReassembler option"
  uc_state :: UdpSessionState
  uc_auth_active :: bool
  uc_last_activity :: instant
  uc_bytes_recv :: u64
  uc_bandwidth_limit :: "u32 option"
  uc_has_upload_tx :: bool
  uc_connection_id :: bytes
  uc_quic_enabled :: bool
  uc_packet_counter :: u32
  uc_server_hello :: bytes
  uc_hello_frag_mode :: bool
  uc_auth_request :: bytes
  uc_auth_ok :: "bytes list"
  uc_dst_acl :: DstAcl
  uc_src_guard :: "SrcGuard option"
  uc_exit_access :: ExitAccess
  uc_revoked :: "bool option"
  uc_path_mtu :: "u32 option"
  uc_has_payload_budget :: bool
  uc_client_info :: "(bytes \<times> bytes) option option"
  uc_amp_received :: nat
  uc_amp_sent :: nat
  uc_auth_ok_reemits :: u8
  uc_auth_ok_sent :: bool

definition MAX_AUTH_OK_REEMITS :: u8 where "MAX_AUTH_OK_REEMITS = 5"

text \<open>The answers of the \<open>n\<close>-th \<^verbatim>\<open>try_acquire\<close> and of the \<open>n\<close>-th \<^verbatim>\<open>try_send\<close> while one datagram is
  handled, and what the delivery of a packet reads.\<close>

record IngressEnv =
  env_now :: instant
  env_acquire :: "nat \<Rightarrow> bool"
  env_slot_capacity :: nat
  env_try_send :: "nat \<Rightarrow> bool"
  env_probe_path :: bool
  env_flags :: "u64 \<Rightarrow> SessionFlags"
  env_tun_addresses :: "IpAddr list"
  env_client_to_client :: bool
  env_sessions :: SessionMap

datatype UdpAction = AckDownlinkProbe u128 u16 | Reply bytes | ReemitHello "bytes list" | ReemitAuthOk "bytes list"
  | Forget | StartAuth bytes bytes | ManagementAck u32 | ScheduleProbe u16 | Forward bytes delivery | Pace bytes

section \<open>Checks on a session\<close>

definition is_client_hello_fragment :: "bytes \<Rightarrow> bool" where
  "is_client_hello_fragment p \<longleftrightarrow> is_fragment p \<and> p ! 3 = MSG_CLIENT_HELLO \<and> 1 \<le> p ! 5 \<and> p ! 5 \<le> MAX_FRAGS
     \<and> p ! 4 < p ! 5 \<and> 1 \<le> length p - FRAG_HDR_LEN \<and> length p - FRAG_HDR_LEN \<le> MAX_CHUNK_ACCEPT"

definition can_reemit_auth_response :: "bool \<Rightarrow> bool \<Rightarrow> bool" where
  "can_reemit_auth_response initial_response_sent rev_now \<longleftrightarrow> initial_response_sent \<and> \<not> rev_now"

definition authenticated_session_id :: "UdpClient \<Rightarrow> u64 option" where
  "authenticated_session_id c = (case uc_state c of Authenticated sid \<Rightarrow> Some sid | AwaitingAuth \<Rightarrow> None)"

definition session_expired :: "UdpSessionState \<Rightarrow> bool \<Rightarrow> instant \<Rightarrow> instant \<Rightarrow> instant \<Rightarrow> duration \<Rightarrow> duration option \<Rightarrow> bool" where
  "session_expired st auth_active created last_activity now handshake_timeout reap_after =
     (if auth_active then False
      else (case st of
         AwaitingAuth \<Rightarrow> handshake_timeout < now - created
       | Authenticated _ \<Rightarrow> (case reap_after of None \<Rightarrow> False | Some limit \<Rightarrow> limit < now - last_activity)))"

definition evictable_half_open :: "UdpSessionState \<Rightarrow> bool \<Rightarrow> bool" where
  "evictable_half_open st auth_active \<longleftrightarrow> st = AwaitingAuth \<and> \<not> auth_active"

definition pmtu_reply :: "UdpSessionState \<Rightarrow> bool \<Rightarrow> bool \<Rightarrow> bytes \<Rightarrow> bytes option" where
  "pmtu_reply st auth_ok_sent rev_now payload =
     (if st = AwaitingAuth \<or> \<not> auth_ok_sent \<or> rev_now then None
      else (case parse_mtu_probe_v2_request payload of
         Some (tok, sz) \<Rightarrow> Some (mtu_probe_v2_ack_datagram tok sz)
       | None \<Rightarrow> map_option (\<lambda>(i, sz). mtu_probe_ack_datagram i sz) (parse_mtu_probe_request payload)))"

definition revoked_now :: "UdpClient \<Rightarrow> bool" where
  "revoked_now c = (case uc_revoked c of None \<Rightarrow> False | Some r \<Rightarrow> r)"

section \<open>One decrypted packet\<close>

definition handle_ctrl :: "bytes \<Rightarrow> UdpClient \<Rightarrow> UdpAction list \<times> UdpClient" where
  "handle_ctrl packet c =
     (case (uc_path_mtu c, parse_mtu_report packet) of
        (Some _, Some mtu) \<Rightarrow> ([], c\<lparr>uc_path_mtu := Some (ucast mtu)\<rparr>)
      | _ \<Rightarrow>
          (case (uc_has_payload_budget c, parse_udp_payload_budget_report packet) of
             (True, Some budget) \<Rightarrow> ([ScheduleProbe budget], c)
           | _ \<Rightarrow>
               (case (uc_client_info c, parse_client_info packet) of
                  (Some _, Some info) \<Rightarrow> ([], c\<lparr>uc_client_info := Some (Some info)\<rparr>)
                | _ \<Rightarrow> ([], c))))"

text \<open>The guards and the hand-over of an inner packet; \<open>i\<close> counts the uses of the pacing queue.\<close>

definition judge_packet :: "IngressEnv \<Rightarrow> nat \<Rightarrow> u64 \<Rightarrow> bytes \<Rightarrow> UdpClient \<Rightarrow> UdpAction list \<times> UdpClient" where
  "judge_packet env i sid packet c =
     (if (case uc_src_guard c of None \<Rightarrow> False | Some g \<Rightarrow> \<not> src_allows_packet g packet) then ([], c)
      else if \<not> is_unrestricted (uc_dst_acl c) \<and> \<not> dst_allows_packet (uc_dst_acl c) packet then ([], c)
      else (let limit = (case uc_bandwidth_limit c of None \<Rightarrow> 0 | Some l \<Rightarrow> l) in
        if limit = 0 then
          ([Forward packet (send_client_packet (env_flags env) (env_tun_addresses env) (env_client_to_client env)
              sid (uc_exit_access c) packet (env_sessions env))],
           c\<lparr>uc_bytes_recv := uc_bytes_recv c + of_nat (length packet)\<rparr>)
        else if \<not> uc_has_upload_tx c \<or> \<not> env_try_send env i then ([], c)
        else ([Pace packet], c)))"

definition forward_udp_uplink_packet :: "IngressEnv \<Rightarrow> nat \<Rightarrow> u64 \<Rightarrow> bytes \<Rightarrow> UdpClient \<Rightarrow> UdpAction list \<times> UdpClient" where
  "forward_udp_uplink_packet env i sid packet c =
     (if is_control_v2 packet then
        (case cv2_decode packet of
           Inr frame \<Rightarrow> if fr_message_type frame = TYPE_ACK then ([ManagementAck (fr_message_id frame)], c) else ([], c)
         | Inl _ \<Rightarrow> ([], c))
      else if is_ctrl packet then handle_ctrl packet c
      else if packet = [] then ([], c)
      else judge_packet env i sid packet c)"

fun forward_all :: "IngressEnv \<Rightarrow> nat \<Rightarrow> u64 \<Rightarrow> bytes list \<Rightarrow> UdpClient \<Rightarrow> UdpAction list \<times> UdpClient" where
  "forward_all env i sid [] c = ([], c)"
| "forward_all env i sid (packet # packets) c =
     (let (as, c') = forward_udp_uplink_packet env i sid packet c;
          (as', c'') = forward_all env (i + 1) sid packets c'
      in (as @ as', c''))"

text \<open>The packets of a decoded record that get a buffer of the pool; the first buffer of the datagram
  holds the record itself.\<close>

fun pooled :: "IngressEnv \<Rightarrow> nat \<Rightarrow> bytes list \<Rightarrow> bytes list" where
  "pooled env n [] = []"
| "pooled env n (p # ps) =
     (if \<not> env_acquire env n \<or> env_slot_capacity env < length p then pooled env (n + 1) ps
      else p # pooled env (n + 1) ps)"


section \<open>One datagram of a session\<close>

text \<open>A decrypted record of an established session.\<close>

definition dispatch_plaintext :: "IngressEnv \<Rightarrow> bytes \<Rightarrow> bytes \<Rightarrow> UdpClient \<Rightarrow> UdpAction list \<times> UdpClient" where
  "dispatch_plaintext env rec plaintext c =
     (case (uc_state c, if is_control_v2 plaintext then None else uc_rx_recordizer c) of
        (Authenticated sid, Some rz) \<Rightarrow>
          if plaintext = [] then ([], c\<lparr>uc_last_activity := env_now env\<rparr>)
          else (case decode_with rz plaintext (env_now env) of
             (Inl _, rz') \<Rightarrow> ([], c\<lparr>uc_rx_recordizer := Some rz'\<rparr>)
           | (Inr packets, rz') \<Rightarrow>
               forward_all env 0 sid (pooled env 1 packets)
                 (c\<lparr>uc_rx_recordizer := Some rz', uc_last_activity := env_now env\<rparr>))
      | (Authenticated sid, None) \<Rightarrow>
          (let c = c\<lparr>uc_last_activity := env_now env\<rparr> in
           if is_ctrl plaintext then handle_ctrl plaintext c
           else if plaintext \<noteq> [] then judge_packet env 0 sid plaintext c
           else ([], c))
      | (AwaitingAuth, _) \<Rightarrow>
          (let c = c\<lparr>uc_last_activity := env_now env\<rparr> in
           if uc_auth_active c then ([], c)
           else ([StartAuth plaintext rec], c\<lparr>uc_auth_active := True\<rparr>)))"

definition receive_record :: "Primitives \<Rightarrow> IngressEnv \<Rightarrow> bytes \<Rightarrow> UdpClient \<Rightarrow> UdpAction list \<times> UdpClient" where
  "receive_record P env rec c =
     (if \<not> env_acquire env 0 then ([], c)
      else if env_slot_capacity env < length rec then ([], c)
      else (case decrypt_packet_in_place P (uc_rx_codec c) rec of
         (Inl _, _, rx) \<Rightarrow> ([], c\<lparr>uc_rx_codec := rx\<rparr>)
       | (Inr _, plaintext, rx) \<Rightarrow> dispatch_plaintext env rec plaintext (c\<lparr>uc_rx_codec := rx\<rparr>)))"

definition receive_payload :: "Primitives \<Rightarrow> IngressEnv \<Rightarrow> bytes \<Rightarrow> UdpClient \<Rightarrow> UdpAction list \<times> UdpClient" where
  "receive_payload P env payload c =
     (let is_awaiting_auth = (uc_state c = AwaitingAuth) in
      if \<not> is_awaiting_auth \<and> \<not> uc_auth_ok_sent c then ([], c)
      else if is_data_fragment payload then
        (if is_awaiting_auth \<or> \<not> uc_data_frag_enabled c then ([], c)
         else (case push_at P (uc_data_reassembler c) payload (uc_rx_data_frag_key c) (env_now env) of
            (Inr (Some rec), ra) \<Rightarrow> receive_record P env rec (c\<lparr>uc_data_reassembler := ra\<rparr>)
          | (_, ra) \<Rightarrow> ([], c\<lparr>uc_data_reassembler := ra\<rparr>)))
      else receive_record P env payload c)"

text \<open>The datagrams of a ServerHello: one, or its fragments, each with the long header on a masked path. A
  message that is too large to fragment is not sent.\<close>

definition send_handshake_response :: "bytes \<Rightarrow> bool \<Rightarrow> bytes \<Rightarrow> bool \<Rightarrow> bytes list" where
  "send_handshake_response raw quic_enabled connection_id fragment_it =
     (if fragment_it then
        (case fragment MSG_SERVER_HELLO raw of
           Inl _ \<Rightarrow> []
         | Inr frags \<Rightarrow> map (\<lambda>(i, frag). if quic_enabled then wrap_quic_long frag connection_id (of_nat i) else frag)
             (enumerate 0 frags))
      else [if quic_enabled then wrap_quic_long raw connection_id 0 else raw])"

text \<open>A retransmitted handshake message is answered from the cache, within the budget of its kind.\<close>

definition reemit_handshake :: "IngressEnv \<Rightarrow> bool \<Rightarrow> UdpClient \<Rightarrow> UdpAction list \<times> UdpClient" where
  "reemit_handshake env reemit_hello c =
     (let reply_len = (if reemit_hello then length (uc_server_hello c) else sum_list (map length (uc_auth_ok c)));
          sent = c\<lparr>uc_last_activity := env_now env, uc_amp_sent := saturating_add (uc_amp_sent c) reply_len\<rparr> in
      if reemit_hello then
        (if min (uc_amp_received c * 3) usize_max < saturating_add (uc_amp_sent c) reply_len then ([], c)
         else ((if uc_server_hello c \<noteq> [] then [ReemitHello (send_handshake_response (uc_server_hello c) (uc_quic_enabled c)
                 (uc_connection_id c) (uc_hello_frag_mode c))] else []), sent))
      else if MAX_AUTH_OK_REEMITS \<le> uc_auth_ok_reemits c then ([], c)
      else ([ReemitAuthOk (uc_auth_ok c)],
            sent\<lparr>uc_auth_ok_reemits := (if uc_auth_ok_reemits c = 255 then 255 else uc_auth_ok_reemits c + 1)\<rparr>))"

definition session_payload :: "Primitives \<Rightarrow> IngressEnv \<Rightarrow> nat \<Rightarrow> bytes \<Rightarrow> UdpClient \<Rightarrow> UdpAction list \<times> UdpClient" where
  "session_payload P env data_len payload c0 =
     (if revoked_now c0 then (if \<not> uc_auth_active c0 then [Forget] else [], c0)
      else (let c = c0\<lparr>uc_amp_received := saturating_add (uc_amp_received c0) data_len\<rparr>;
                matches_auth_request = (uc_auth_ok c \<noteq> [] \<and> payload = uc_auth_request c) in
        if matches_auth_request \<and> \<not> can_reemit_auth_response (uc_auth_ok_sent c) (revoked_now c0) then ([], c)
        else (let reemit_hello = (\<not> matches_auth_request \<and> uc_state c = AwaitingAuth \<and> uc_server_hello c \<noteq> []
                    \<and> is_client_hello_fragment payload) in
          if reemit_hello \<or> matches_auth_request then reemit_handshake env reemit_hello c
          else receive_payload P env payload c)))"

definition handle_session_datagram :: "Primitives \<Rightarrow> IngressEnv \<Rightarrow> bytes \<Rightarrow> UdpClient \<Rightarrow> UdpAction list \<times> UdpClient" where
  "handle_session_datagram P env datagram c =
     (case (if uc_quic_enabled c then unwrap_quic_payload datagram else Ok datagram) of
        Inl _ \<Rightarrow> ([], c)
      | Inr payload \<Rightarrow>
          if is_junk payload then ([], c)
          else if is_mtu_probe_ack_v2 payload then
            (case parse_mtu_probe_v2_ack payload of
               Some (tok, sz) \<Rightarrow> (if env_probe_path env then [AckDownlinkProbe tok sz] else [], c)
             | None \<Rightarrow> ([], c))
          else if is_mtu_probe_ack payload then ([], c)
          else if is_mtu_probe_v2 payload \<or> is_mtu_probe payload then
            (case pmtu_reply (uc_state c) (uc_auth_ok_sent c) (revoked_now c) payload of
               None \<Rightarrow> ([], c)
             | Some ack \<Rightarrow>
                 if uc_quic_enabled c
                 then ([Reply (wrap_quic_short ack (uc_connection_id c) (uc_packet_counter c))],
                       c\<lparr>uc_packet_counter := uc_packet_counter c + 1\<rparr>)
                 else ([Reply ack], c))
          else session_payload P env (length datagram) payload c)"

end
