(* ===== verification/Ingress_Laws.thy ===== *)
theory Ingress_Laws
  imports Udp_Ingress
begin

text \<open>
  What the server's UDP receive path lets through: which packets of a session's datagrams reach the
  tunnel or the pacing queue, and how much a handshake retransmission can make the server send.
\<close>

section \<open>Packets that pass\<close>

definition rights :: "UdpClient \<Rightarrow> SrcGuard option \<times> DstAcl \<times> ExitAccess \<times> u32 option" where
  "rights c = (uc_src_guard c, uc_dst_acl c, uc_exit_access c, uc_bandwidth_limit c)"

text \<open>An action that hands a packet over respects the guards and the user's cap, and goes where the
  delivery sends it.\<close>

definition permitted :: "IngressEnv \<Rightarrow> u64 \<Rightarrow> UdpClient \<Rightarrow> bytes \<Rightarrow> UdpAction \<Rightarrow> bool" where
  "permitted env sid c p a \<longleftrightarrow> p \<noteq> [] \<and> \<not> is_ctrl p
     \<and> (case uc_src_guard c of None \<Rightarrow> True | Some g \<Rightarrow> src_allows_packet g p)
     \<and> (is_unrestricted (uc_dst_acl c) \<or> dst_allows_packet (uc_dst_acl c) p)
     \<and> (let limit = (case uc_bandwidth_limit c of None \<Rightarrow> 0 | Some l \<Rightarrow> l) in
        if limit = 0 then a = Forward p (send_client_packet (env_flags env) (env_tun_addresses env) (env_client_to_client env)
          sid (uc_exit_access c) p (env_sessions env))
        else a = Pace p)"

definition hands_over :: "UdpAction \<Rightarrow> bytes \<Rightarrow> bool" where
  "hands_over a p \<longleftrightarrow> (\<exists>d. a = Forward p d) \<or> a = Pace p"

lemma handle_ctrl_rights: "rights (snd (handle_ctrl p c)) = rights c"
  "a \<in> set (fst (handle_ctrl p c)) \<Longrightarrow> \<not> hands_over a q"
  by (auto simp: handle_ctrl_def rights_def hands_over_def split: option.splits bool.splits)

lemma judge_packet_rights: "rights (snd (judge_packet env i sid p c)) = rights c"
  by (simp add: judge_packet_def rights_def Let_def)

lemma judge_packet_permitted:
  assumes "a \<in> set (fst (judge_packet env i sid p c))" "hands_over a q" "p \<noteq> []" "\<not> is_ctrl p"
  shows "q = p \<and> permitted env sid c p a"
  using assms unfolding judge_packet_def permitted_def hands_over_def
  by (auto simp: Let_def split: if_splits option.splits)

lemma forward_permitted:
  "rights (snd (forward_udp_uplink_packet env i sid p c)) = rights c"
  "a \<in> set (fst (forward_udp_uplink_packet env i sid p c)) \<Longrightarrow> hands_over a q \<Longrightarrow> q = p \<and> permitted env sid c p a"
proof -
  show "rights (snd (forward_udp_uplink_packet env i sid p c)) = rights c"
    by (simp add: forward_udp_uplink_packet_def handle_ctrl_rights(1) judge_packet_rights split: sum.split)
  assume "a \<in> set (fst (forward_udp_uplink_packet env i sid p c))" "hands_over a q"
  then show "q = p \<and> permitted env sid c p a"
    using handle_ctrl_rights(2) [of a p c q] judge_packet_permitted [of a env i sid p c q]
    by (auto simp: forward_udp_uplink_packet_def hands_over_def split: if_splits sum.splits)
qed

lemma permitted_rights: "rights c = rights d \<Longrightarrow> permitted env sid c p a = permitted env sid d p a"
  by (simp add: rights_def permitted_def)

lemma forward_all_permitted:
  "a \<in> set (fst (forward_all env i sid ps c)) \<Longrightarrow> hands_over a q \<Longrightarrow> q \<in> set ps \<and> permitted env sid c q a"
proof (induction ps arbitrary: i c)
  case (Cons p ps)
  show ?case
  proof (cases "a \<in> set (fst (forward_udp_uplink_packet env i sid p c))")
    case True
    then show ?thesis using forward_permitted(2) [OF True Cons.prems(2)] by auto
  next
    case False
    then have "a \<in> set (fst (forward_all env (i + 1) sid ps (snd (forward_udp_uplink_packet env i sid p c))))"
      using Cons.prems(1) by (simp add: split_beta Let_def)
    from Cons.IH [OF this Cons.prems(2)] show ?thesis
      using permitted_rights [OF forward_permitted(1)] by simp
  qed
qed simp

lemma pooled_subset: "set (pooled env n ps) \<subseteq> set ps"
  by (induction env n ps rule: pooled.induct) auto

text \<open>The packets a decrypted record carries: itself, or what the recordizer decodes from it.\<close>

definition carried :: "UdpClient \<Rightarrow> instant \<Rightarrow> bytes \<Rightarrow> bytes list" where
  "carried c now plaintext =
     (case (if is_control_v2 plaintext then None else uc_rx_recordizer c) of
        None \<Rightarrow> [plaintext]
      | Some rz \<Rightarrow> (case fst (decode_with rz plaintext now) of Inl _ \<Rightarrow> [] | Inr ps \<Rightarrow> ps))"

lemma dispatch_permitted:
  assumes "a \<in> set (fst (dispatch_plaintext env rec plaintext c))" "hands_over a p"
  shows "\<exists>sid. uc_state c = Authenticated sid \<and> p \<in> set (carried c (env_now env) plaintext) \<and> permitted env sid c p a"
proof (cases "uc_state c")
  case AwaitingAuth
  then show ?thesis using assms by (auto simp: dispatch_plaintext_def Let_def hands_over_def split: if_splits option.splits)
next
  case (Authenticated sid)
  let ?c = "c\<lparr>uc_last_activity := env_now env\<rparr>"
  show ?thesis
  proof (cases "if is_control_v2 plaintext then None else uc_rx_recordizer c")
    case None
    then have "a \<in> set (if is_ctrl plaintext then fst (handle_ctrl plaintext ?c)
        else if plaintext \<noteq> [] then fst (judge_packet env 0 sid plaintext ?c) else [])"
      using assms(1) Authenticated by (simp add: dispatch_plaintext_def Let_def split: if_splits)
    then have "p = plaintext \<and> permitted env sid ?c plaintext a"
      using handle_ctrl_rights(2) [of a plaintext ?c p] judge_packet_permitted [of a env 0 sid plaintext ?c p] assms(2)
      by (auto split: if_splits)
    then show ?thesis using Authenticated None by (simp add: carried_def permitted_def)
  next
    case (Some rz)
    obtain r rz' where dec: "decode_with rz plaintext (env_now env) = (r, rz')" by fastforce
    then obtain ps where ps: "r = Inr ps" "a \<in> set (fst (forward_all env 0 sid (pooled env 1 ps)
        (c\<lparr>uc_rx_recordizer := Some rz', uc_last_activity := env_now env\<rparr>)))"
      using assms(1) Authenticated Some by (cases r) (auto simp: dispatch_plaintext_def Let_def split: if_splits)
    from forward_all_permitted [OF this(2) assms(2)] show ?thesis
      using Authenticated Some dec ps(1) pooled_subset [of env 1 ps] by (auto simp: carried_def permitted_def)
  qed
qed


text \<open>The record a payload brings: itself, or the one its fragment completes.\<close>

definition brings_record :: "Primitives \<Rightarrow> IngressEnv \<Rightarrow> UdpClient \<Rightarrow> bytes \<Rightarrow> bytes \<Rightarrow> bool" where
  "brings_record P env c payload rec \<longleftrightarrow>
     (if is_data_fragment payload
      then fst (push_at P (uc_data_reassembler c) payload (uc_rx_data_frag_key c) (env_now env)) = Ok (Some rec)
      else rec = payload)"

text \<open>A packet handed over came out of a record that the session's codec accepted.\<close>

definition accepted_packet :: "Primitives \<Rightarrow> IngressEnv \<Rightarrow> UdpClient \<Rightarrow> bytes \<Rightarrow> bytes \<Rightarrow> UdpAction \<Rightarrow> bool" where
  "accepted_packet P env c rec p a \<longleftrightarrow> (\<exists>sid plaintext rx. uc_state c = Authenticated sid
     \<and> decrypt_packet_in_place P (uc_rx_codec c) rec = (Ok (), plaintext, rx)
     \<and> p \<in> set (carried c (env_now env) plaintext) \<and> permitted env sid c p a)"

lemma carried_frame: "uc_rx_recordizer d = uc_rx_recordizer c \<Longrightarrow> carried d = carried c"
  by (simp add: carried_def fun_eq_iff)

lemma accepted_frame:
  assumes "rights d = rights c" "uc_rx_recordizer d = uc_rx_recordizer c" "uc_state d = uc_state c"
    "uc_rx_codec d = uc_rx_codec c" "accepted_packet P env d rec p a"
  shows "accepted_packet P env c rec p a"
  using assms(5) unfolding accepted_packet_def permitted_rights [OF assms(1)] carried_frame [OF assms(2)] assms(3,4) .

lemma receive_record_accepts:
  assumes "a \<in> set (fst (receive_record P env rec c))" "hands_over a p"
  shows "accepted_packet P env c rec p a"
proof -
  obtain r plaintext rx where dec: "decrypt_packet_in_place P (uc_rx_codec c) rec = (r, plaintext, rx)" by (metis prod_cases3)
  then have "r = Ok ()" and a: "a \<in> set (fst (dispatch_plaintext env rec plaintext (c\<lparr>uc_rx_codec := rx\<rparr>)))"
    using assms(1) by (cases r; simp add: receive_record_def split: if_splits)+
  obtain sid where "uc_state c = Authenticated sid" "p \<in> set (carried c (env_now env) plaintext)" "permitted env sid c p a"
    using dispatch_permitted [OF a assms(2)] permitted_rights [of "c\<lparr>uc_rx_codec := rx\<rparr>" c]
      carried_frame [of "c\<lparr>uc_rx_codec := rx\<rparr>" c] by (auto simp: rights_def)
  then show ?thesis using dec \<open>r = Ok ()\<close> unfolding accepted_packet_def by blast
qed

lemma receive_payload_accepts:
  assumes "a \<in> set (fst (receive_payload P env payload c))" "hands_over a p"
  shows "\<exists>rec. brings_record P env c payload rec \<and> accepted_packet P env c rec p a \<and> uc_auth_ok_sent c"
proof -
  have "\<exists>rec. brings_record P env c payload rec \<and> accepted_packet P env c rec p a"
  proof (cases "is_data_fragment payload")
    case True
    then obtain rec ra where r: "push_at P (uc_data_reassembler c) payload (uc_rx_data_frag_key c) (env_now env) = (Ok (Some rec), ra)"
        "a \<in> set (fst (receive_record P env rec (c\<lparr>uc_data_reassembler := ra\<rparr>)))"
      using assms(1) by (auto simp: receive_payload_def Let_def split: if_splits sum.splits option.splits prod.splits)
    from receive_record_accepts [OF r(2) assms(2)] have "accepted_packet P env c rec p a"
      by (rule accepted_frame [rotated 4]) (simp_all add: rights_def)
    moreover have "brings_record P env c payload rec" using True r(1) by (simp add: brings_record_def)
    ultimately show ?thesis by blast
  next
    case False
    then have "a \<in> set (fst (receive_record P env payload c))"
      using assms(1) by (auto simp: receive_payload_def Let_def split: if_splits)
    from receive_record_accepts [OF this assms(2)] False show ?thesis by (simp add: brings_record_def)
  qed
  moreover from this have "uc_state c \<noteq> AwaitingAuth" by (auto simp: accepted_packet_def)
  ultimately show ?thesis using assms(1) by (auto simp: receive_payload_def Let_def split: if_splits)
qed

lemma session_payload_accepts:
  assumes "a \<in> set (fst (session_payload P env n payload c))" "hands_over a p"
  shows "\<exists>rec. brings_record P env c payload rec \<and> accepted_packet P env c rec p a \<and> uc_auth_ok_sent c \<and> \<not> revoked_now c"
proof -
  let ?c = "c\<lparr>uc_amp_received := saturating_add (uc_amp_received c) n\<rparr>"
  have r: "\<not> revoked_now c" using assms by (auto simp: session_payload_def hands_over_def split: if_splits)
  moreover have "\<not> (a \<in> set (fst (reemit_handshake env h d)))" for h d
    using assms(2) by (auto simp: reemit_handshake_def hands_over_def Let_def split: if_splits)
  ultimately have "a \<in> set (fst (receive_payload P env payload ?c))"
    using assms(1) by (auto simp: session_payload_def Let_def split: if_splits)
  from receive_payload_accepts [OF this assms(2)] obtain rec where
    "brings_record P env ?c payload rec" "accepted_packet P env ?c rec p a" "uc_auth_ok_sent ?c" by blast
  then show ?thesis using r accepted_frame [of ?c c P env rec p a] by (auto simp: rights_def brings_record_def)
qed

section \<open>Answers to retransmitted handshake messages\<close>

fun ingress_run :: "Primitives \<Rightarrow> (IngressEnv \<times> bytes) list \<Rightarrow> UdpClient \<Rightarrow> UdpAction list list \<times> UdpClient" where
  "ingress_run P [] c = ([], c)"
| "ingress_run P ((env, datagram) # rest) c =
     (let (as, c') = handle_session_datagram P env datagram c; (ass, c'') = ingress_run P rest c' in (as # ass, c''))"

lemma ingress_run_append:
  "ingress_run P (xs @ ys) c = (let (as, c') = ingress_run P xs c; (as', c'') = ingress_run P ys c' in (as @ as', c''))"
proof (induction xs arbitrary: c)
  case (Cons x xs)
  then show ?case by (cases x) (simp add: Let_def split_beta)
qed simp

text \<open>The datagrams with which an action repeats a ServerHello.\<close>

fun hello_datagrams :: "UdpAction \<Rightarrow> bytes list" where
  "hello_datagrams (ReemitHello ds) = ds"
| "hello_datagrams _ = []"

definition resent :: "UdpAction list \<Rightarrow> bytes list" where
  "resent as = concat (map hello_datagrams as)"

definition wire_bytes :: "bytes list \<Rightarrow> nat" where
  "wire_bytes ds = sum_list (map length ds)"

fun is_reemit :: "UdpAction \<Rightarrow> bool" where
  "is_reemit (ReemitAuthOk _) = True"
| "is_reemit _ = False"

definition reemits :: "UdpAction list \<Rightarrow> nat" where
  "reemits as = length (filter is_reemit as)"

lemma resent_simps [simp]: "resent [] = []" "resent (a # as) = hello_datagrams a @ resent as"
  "resent (as @ as') = resent as @ resent as'"
  by (simp_all add: resent_def)

lemma wire_bytes_simps [simp]: "wire_bytes [] = 0" "wire_bytes (d # ds) = length d + wire_bytes ds"
  "wire_bytes (ds @ ds') = wire_bytes ds + wire_bytes ds'"
  by (simp_all add: wire_bytes_def)

lemma reemits_simps [simp]: "reemits [] = 0" "reemits (a # as) = (if is_reemit a then 1 else 0) + reemits as"
  "reemits (as @ as') = reemits as + reemits as'"
  by (simp_all add: reemits_def)

text \<open>The headers around a message cost at most 24 bytes a datagram.\<close>

definition RESPONSE_HEADERS :: nat where
  "RESPONSE_HEADERS = FRAG_HDR_LEN + QUIC_LONG_HEADER_EMITTED"

lemma RESPONSE_HEADERS_eq: "RESPONSE_HEADERS = 24"
  by (simp add: RESPONSE_HEADERS_def FRAG_HDR_LEN_def FRAG_MAGIC_def QUIC_LONG_HEADER_EMITTED_def)

lemma long_header_length:
  assumes "length cid = 4"
  shows "length (wrap_quic_long data cid pn) \<le> 20 + length data"
    "length data < 16000 \<Longrightarrow> length (wrap_quic_long data cid pn) \<le> 18 + length data"
proof -
  show "length (wrap_quic_long data cid pn) \<le> 20 + length data"
    using assms by (simp add: wrap_quic_long_def wrap_quic_long_into_def push_varint_def Let_def)
  assume "length data < 16000"
  then have "unat (of_nat (4 + length data) :: u64) = 4 + length data" by (intro unat_of_nat_eq') simp
  then have "(of_nat (4 + length data) :: u64) < 0x4000" using \<open>length data < 16000\<close> by (simp add: word_less_nat_alt)
  then show "length (wrap_quic_long data cid pn) \<le> 18 + length data"
    using assms by (simp add: wrap_quic_long_def wrap_quic_long_into_def push_varint_def Let_def)
qed

lemma wire_bytes_enumerate:
  assumes "\<And>i d. d \<in> set ds \<Longrightarrow> length (f i d) \<le> h + length d"
  shows "wire_bytes (map (\<lambda>(i, d). f i d) (enumerate n ds)) \<le> h * length ds + wire_bytes ds"
  using assms
proof (induction ds arbitrary: n)
  case (Cons d ds)
  have "length (f n d) \<le> h + length d" using Cons.prems by simp
  moreover have "wire_bytes (map (\<lambda>(i, d). f i d) (enumerate (Suc n) ds)) \<le> h * length ds + wire_bytes ds"
    using Cons.prems by (intro Cons.IH) simp
  ultimately show ?case by simp
qed simp

lemma sum_pieces: "(\<Sum>k \<leftarrow> [0..<n]. length (take m (drop (k * m) xs))) = min (n * m) (length xs)"
  by (induction n) (auto simp: min_def)

lemma fragment_wire_bytes:
  assumes "fragment mid msg = Ok ds"
  shows "wire_bytes ds = 6 * length ds + length msg" "\<And>d. d \<in> set ds \<Longrightarrow> length d < 16000"
proof -
  note b = fragment_count_bounds [OF assms]
  have l: "length (hs_fragment mid msg n k) = 6 + length (take MAX_CHUNK (drop (k * MAX_CHUNK) msg))" for n k
    unfolding hs_fragment_def Let_def hs_slice by (simp add: FRAG_MAGIC_def)
  have "wire_bytes ds = (\<Sum>k \<leftarrow> [0..<length ds]. 6 + length (take MAX_CHUNK (drop (k * MAX_CHUNK) msg)))"
    by (subst (1) b(1)) (simp only: wire_bytes_def map_map comp_def l)
  also have "\<dots> = 6 * length ds + (\<Sum>k \<leftarrow> [0..<length ds]. length (take MAX_CHUNK (drop (k * MAX_CHUNK) msg)))"
    by (simp only: sum_list_addf) (simp add: sum_list_triv)
  finally show "wire_bytes ds = 6 * length ds + length msg" unfolding sum_pieces using b(4) by simp
  show "length d < 16000" if "d \<in> set ds" for d
  proof -
    have "d \<in> set (map (hs_fragment mid msg (length ds)) [0..<length ds])" using that b(1) by simp
    then obtain k where "d = hs_fragment mid msg (length ds) k" by auto
    then show ?thesis using hs_fragment_fields(6) [of mid msg "length ds" k] by (simp add: uf_consts)
  qed
qed

lemma response_wire_bytes:
  assumes "length cid = 4"
  shows "wire_bytes (send_handshake_response msg quic cid frag)
    \<le> length msg + RESPONSE_HEADERS * length (send_handshake_response msg quic cid frag)"
proof (cases "frag")
  case True
  show ?thesis
  proof (cases "fragment MSG_SERVER_HELLO msg")
    case (Inr ds)
    have "wire_bytes (map (\<lambda>(i, d). if quic then wrap_quic_long d cid (of_nat i) else d) (enumerate 0 ds)) \<le> 18 * length ds + wire_bytes ds"
      using long_header_length(2) [OF assms] fragment_wire_bytes(2) [OF Inr] by (intro wire_bytes_enumerate) simp
    then show ?thesis using True Inr fragment_wire_bytes(1) [OF Inr] by (simp add: send_handshake_response_def RESPONSE_HEADERS_eq)
  qed (use True in \<open>simp add: send_handshake_response_def\<close>)
next
  case False
  then show ?thesis using long_header_length(1) [OF assms, of msg 0] by (simp add: send_handshake_response_def RESPONSE_HEADERS_eq)
qed

text \<open>Everything but the answer to a retransmission sends no handshake message and keeps the counters.\<close>

definition counters :: "UdpClient \<Rightarrow> nat \<times> nat \<times> u8 \<times> bytes" where
  "counters c = (uc_amp_received c, uc_amp_sent c, uc_auth_ok_reemits c, uc_connection_id c)"

definition calm :: "UdpClient \<Rightarrow> UdpAction list \<times> UdpClient \<Rightarrow> bool" where
  "calm c r \<longleftrightarrow> resent (fst r) = [] \<and> reemits (fst r) = 0 \<and> counters (snd r) = counters c"

lemma calm_nothing: "counters d = counters c \<Longrightarrow> calm c ([], d)"
  by (simp add: calm_def)

lemma calm_from: "calm d r \<Longrightarrow> counters d = counters c \<Longrightarrow> calm c r"
  by (simp add: calm_def)

lemma handle_ctrl_calm: "calm c (handle_ctrl p c)"
  by (simp add: handle_ctrl_def calm_def counters_def split: option.split bool.split)

lemma judge_packet_calm: "calm c (judge_packet env i sid p c)"
  by (simp add: judge_packet_def calm_def counters_def Let_def)

lemma forward_calm: "calm c (forward_udp_uplink_packet env i sid p c)"
  using handle_ctrl_calm judge_packet_calm
  by (simp add: forward_udp_uplink_packet_def calm_def split: sum.split)

lemma forward_all_calm: "calm c (forward_all env i sid ps c)"
proof (induction ps arbitrary: i c)
  case (Cons p ps)
  have "calm c (forward_udp_uplink_packet env i sid p c)" by (rule forward_calm)
  with Cons.IH [of "snd (forward_udp_uplink_packet env i sid p c)" "i + 1"]
  show ?case by (simp add: calm_def Let_def split_beta)
qed (simp add: calm_def)

lemma dispatch_calm: "calm c (dispatch_plaintext env rec plaintext c)"
proof -
  let ?c = "c\<lparr>uc_last_activity := env_now env\<rparr>"
  have e: "counters (c\<lparr>uc_rx_recordizer := r, uc_last_activity := t\<rparr>) = counters c" "counters ?c = counters c"
      "counters (c\<lparr>uc_rx_recordizer := r\<rparr>) = counters c" "counters (?c\<lparr>uc_auth_active := True\<rparr>) = counters c" for r t
    by (simp_all add: counters_def)
  have "calm c (handle_ctrl plaintext ?c)" "calm c (judge_packet env 0 sid plaintext ?c)"
      "calm c (forward_all env 0 sid ps (c\<lparr>uc_rx_recordizer := r, uc_last_activity := t\<rparr>))" for sid ps r t
    using calm_from [OF handle_ctrl_calm e(2)] calm_from [OF judge_packet_calm e(2)] calm_from [OF forward_all_calm e(1)] by blast+
  moreover have "calm c ([StartAuth plaintext rec], ?c\<lparr>uc_auth_active := True\<rparr>)" using e(4) by (simp add: calm_def)
  moreover have "plaintext = [] \<Longrightarrow> calm c (handle_ctrl [] ?c)" using calm_from [OF handle_ctrl_calm e(2)] .
  ultimately show ?thesis using e
    by (simp add: dispatch_plaintext_def Let_def calm_nothing split: UdpSessionState.split option.split sum.split prod.split)
qed

lemma receive_record_calm: "calm c (receive_record P env rec c)"
proof -
  have e: "counters (c\<lparr>uc_rx_codec := rx\<rparr>) = counters c" for rx by (simp add: counters_def)
  show ?thesis using calm_from [OF dispatch_calm e] e
    by (simp add: receive_record_def calm_nothing split: sum.split prod.split)
qed

lemma receive_payload_calm: "calm c (receive_payload P env payload c)"
proof -
  have e: "counters (c\<lparr>uc_data_reassembler := ra\<rparr>) = counters c" for ra by (simp add: counters_def)
  show ?thesis using calm_from [OF receive_record_calm e] e receive_record_calm [of c]
    by (simp add: receive_payload_def calm_nothing Let_def split: sum.split prod.split option.split)
qed

text \<open>What one datagram of length \<open>n\<close> does to the counters, whatever the state of the session.\<close>

definition amp_step :: "UdpClient \<Rightarrow> nat \<Rightarrow> UdpAction list \<times> UdpClient \<Rightarrow> bool" where
  "amp_step c n r \<longleftrightarrow> uc_connection_id (snd r) = uc_connection_id c \<and> uc_amp_received (snd r) \<le> uc_amp_received c + n
     \<and> (resent (fst r) = [] \<and> (uc_amp_sent c \<le> uc_amp_sent (snd r) \<or> usize_max \<le> uc_amp_sent (snd r))
        \<or> uc_amp_sent (snd r) \<le> 3 * uc_amp_received (snd r)
          \<and> uc_amp_sent c + wire_bytes (resent (fst r)) \<le> uc_amp_sent (snd r) + RESPONSE_HEADERS * length (resent (fst r)))"

definition reemit_step :: "UdpClient \<Rightarrow> UdpAction list \<times> UdpClient \<Rightarrow> bool" where
  "reemit_step c r \<longleftrightarrow> reemits (fst r) + (5 - unat (uc_auth_ok_reemits (snd r))) \<le> 5 - unat (uc_auth_ok_reemits c)"

lemma calm_step: "calm c r \<Longrightarrow> amp_step c n r \<and> reemit_step c r"
  by (simp add: calm_def amp_step_def reemit_step_def counters_def)

lemma received_step:
  "amp_step (c\<lparr>uc_amp_received := uc_amp_received c + n\<rparr>) 0 r \<Longrightarrow> amp_step c n r"
  "reemit_step (c\<lparr>uc_amp_received := m\<rparr>) r \<Longrightarrow> reemit_step c r"
  by (auto simp: amp_step_def reemit_step_def)

lemma reemit_amp:
  assumes cid: "length (uc_connection_id c) = 4" and sat: "3 * uc_amp_received c < usize_max"
  shows "amp_step c n (reemit_handshake env hello c)"
proof (cases hello)
  case True
  show ?thesis
    using True sat response_wire_bytes [OF cid, of "uc_server_hello c" "uc_quic_enabled c" "uc_hello_frag_mode c"]
    by (auto simp: reemit_handshake_def amp_step_def saturating_add_def Let_def)
next
  case False
  then show ?thesis by (auto simp: reemit_handshake_def amp_step_def saturating_add_def Let_def)
qed

lemma reemit_handshake_reemits: "reemit_step c (reemit_handshake env h c)"
proof (cases "h \<or> MAX_AUTH_OK_REEMITS \<le> uc_auth_ok_reemits c")
  case True
  then show ?thesis by (auto simp: reemit_handshake_def reemit_step_def Let_def)
next
  case False
  then have "unat (uc_auth_ok_reemits c) < 5" "uc_auth_ok_reemits c \<noteq> 255"
    by (auto simp: MAX_AUTH_OK_REEMITS_def word_le_nat_alt)
  moreover from this have "unat (uc_auth_ok_reemits c + 1) = unat (uc_auth_ok_reemits c) + 1"
    by (simp add: unat_plus_if')
  ultimately show ?thesis using False by (simp add: reemit_handshake_def reemit_step_def Let_def)
qed

lemma session_payload_step:
  "reemit_step c (session_payload P env n payload c)"
  "length (uc_connection_id c) = 4 \<Longrightarrow> 3 * (uc_amp_received c + n) < usize_max \<Longrightarrow> amp_step c n (session_payload P env n payload c)"
proof -
  have quiet: "calm c ((if b then [Forget] else []), c)" for b by (simp add: calm_def)
  show "reemit_step c (session_payload P env n payload c)"
    using received_step(2) [OF conjunct2 [OF calm_step [OF receive_payload_calm]]] received_step(2) [OF reemit_handshake_reemits]
      calm_step [OF quiet] by (simp add: session_payload_def Let_def) (simp add: reemit_step_def)
  assume c: "length (uc_connection_id c) = 4" "3 * (uc_amp_received c + n) < usize_max"
  let ?c = "c\<lparr>uc_amp_received := uc_amp_received c + n\<rparr>"
  have sat: "saturating_add (uc_amp_received c) n = uc_amp_received c + n" using c(2) by (simp add: saturating_add_def)
  have "amp_step c n (receive_payload P env payload ?c)" "amp_step c n (reemit_handshake env h ?c)" "amp_step c n ([], ?c)" for h
    using received_step(1) [OF conjunct1 [OF calm_step [OF receive_payload_calm]]] received_step(1) [OF reemit_amp [of ?c]] c
    by (simp_all) (simp add: amp_step_def)
  then show "amp_step c n (session_payload P env n payload c)"
    using calm_step [OF quiet] by (simp add: session_payload_def sat Let_def)
qed

lemma datagram_step:
  "reemit_step c (handle_session_datagram P env w c)"
  "length (uc_connection_id c) = 4 \<Longrightarrow> 3 * (uc_amp_received c + length w) < usize_max
     \<Longrightarrow> amp_step c (length w) (handle_session_datagram P env w c)"
proof -
  have q: "calm c ([], c)" "calm c ([AckDownlinkProbe tok sz], c)" "calm c ([Reply b], c\<lparr>uc_packet_counter := k\<rparr>)" "calm c ([Reply b], c)"
    for tok sz b k by (simp_all add: calm_def counters_def)
  note quiet = q [THEN calm_step]
  show "reemit_step c (handle_session_datagram P env w c)"
    using session_payload_step(1) quiet by (simp add: handle_session_datagram_def split: sum.split option.split prod.split)
  assume "length (uc_connection_id c) = 4" "3 * (uc_amp_received c + length w) < usize_max"
  from session_payload_step(2) [OF this] quiet
  show "amp_step c (length w) (handle_session_datagram P env w c)"
    by (simp add: handle_session_datagram_def split: sum.split option.split prod.split)
qed

lemma run_amp:
  "length (uc_connection_id c) = 4 \<Longrightarrow> 3 * (uc_amp_received c + (\<Sum>d \<leftarrow> ds. length (snd d))) < usize_max \<Longrightarrow>
   uc_amp_sent c + wire_bytes (resent (concat (fst (ingress_run P ds c))))
     \<le> max (uc_amp_sent c) (3 * (uc_amp_received c + (\<Sum>d \<leftarrow> ds. length (snd d))))
       + RESPONSE_HEADERS * length (resent (concat (fst (ingress_run P ds c))))"
proof (induction ds arbitrary: c)
  case (Cons x ds)
  obtain env w where x: "x = (env, w)" by (cases x)
  obtain as c' where h: "handle_session_datagram P env w c = (as, c')" by fastforce
  let ?l = "\<Sum>d \<leftarrow> ds. length (snd d)" and ?r = "resent (concat (fst (ingress_run P ds c')))"
  have "amp_step c (length w) (as, c')"
    using datagram_step(2) [OF Cons.prems(1), of w P env] Cons.prems(2) by (simp add: x h)
  then have s: "uc_connection_id c' = uc_connection_id c" "uc_amp_received c' \<le> uc_amp_received c + length w"
      "resent as = [] \<and> (uc_amp_sent c \<le> uc_amp_sent c' \<or> usize_max \<le> uc_amp_sent c')
       \<or> uc_amp_sent c' \<le> 3 * uc_amp_received c' \<and> uc_amp_sent c + wire_bytes (resent as) \<le> uc_amp_sent c' + 24 * length (resent as)"
    unfolding amp_step_def RESPONSE_HEADERS_eq by auto
  have IH: "uc_amp_sent c' + wire_bytes ?r \<le> max (uc_amp_sent c') (3 * (uc_amp_received c' + ?l)) + 24 * length ?r"
    using Cons.IH [of c'] s(1,2) Cons.prems by (simp add: x RESPONSE_HEADERS_eq)
  have sat: "3 * (uc_amp_received c + (length w + ?l)) < usize_max" using Cons.prems(2) by (simp add: x)
  have "uc_amp_sent c + wire_bytes (resent as) + wire_bytes ?r
      \<le> max (uc_amp_sent c) (3 * (uc_amp_received c + (length w + ?l))) + 24 * (length (resent as) + length ?r)"
    using s(3)
  proof (elim disjE conjE)
    assume "resent as = []" "uc_amp_sent c \<le> uc_amp_sent c'"
    then show ?thesis using IH s(2) unfolding max_def by (simp split: if_splits)
  next
    assume "resent as = []" "usize_max \<le> uc_amp_sent c'"
    then show ?thesis using IH s(2) sat unfolding max_def by (simp split: if_splits)
  next
    assume "uc_amp_sent c' \<le> 3 * uc_amp_received c'" "uc_amp_sent c + wire_bytes (resent as) \<le> uc_amp_sent c' + 24 * length (resent as)"
    then show ?thesis using IH s(2) unfolding max_def by (simp split: if_splits)
  qed
  then show ?case by (simp add: x h split_beta RESPONSE_HEADERS_eq)
qed simp

lemma run_reemits: "reemits (concat (fst (ingress_run P ds c))) \<le> 5 - unat (uc_auth_ok_reemits c)"
proof (induction ds arbitrary: c)
  case (Cons x ds)
  obtain env w where x: "x = (env, w)" by (cases x)
  show ?case using Cons.IH [of "snd (handle_session_datagram P env w c)"] datagram_step(1) [of c P env w]
    by (simp add: x split_beta reemit_step_def)
qed simp

section \<open>A session to try it on\<close>

definition demo_payload :: bytes where
  "demo_payload = [0x45, 0, 0, 20, 0, 1, 0, 0, 64, 17, 0, 0, 10, 0, 0, 2, 1, 1, 1, 1]"

definition demo_env :: IngressEnv where
  "demo_env = \<lparr>env_now = 0, env_acquire = \<lambda>_. True, env_slot_capacity = MAX_REASSEMBLED_RECORD, env_try_send = \<lambda>_. True,
     env_probe_path = False, env_flags = \<lambda>_. \<lparr>ndp_ready = True, revoked = False, closing = False\<rparr>,
     env_tun_addresses = [], env_client_to_client = False, env_sessions = SessionMap_empty\<rparr>"

definition demo_session :: UdpClient where
  "demo_session = \<lparr>uc_rx_codec = demo_codec, uc_rx_data_frag_key = demo_key, uc_data_frag_enabled = True,
     uc_data_reassembler = DataReassembler_new, uc_rx_recordizer = None, uc_state = Authenticated 1,
     uc_auth_active = False, uc_last_activity = 0, uc_bytes_recv = 0, uc_bandwidth_limit = None, uc_has_upload_tx = False,
     uc_connection_id = [1, 2, 3, 4], uc_quic_enabled = True, uc_packet_counter = 0, uc_server_hello = [], uc_hello_frag_mode = True,
     uc_auth_request = [], uc_auth_ok = [], uc_dst_acl = \<lparr>acl_nets = [], restricted = False\<rparr>, uc_src_guard = None,
     uc_exit_access = \<lparr>exit_ipv4 = True, exit_ipv6 = False\<rparr>, uc_revoked = Some False, uc_path_mtu = None, uc_has_payload_budget = False,
     uc_client_info = None, uc_amp_received = 40, uc_amp_sent = 30, uc_auth_ok_reemits = 0, uc_auth_ok_sent = True\<rparr>"

text \<open>The same session before it authenticates, and the ClientHello of one piece that opened it.\<close>

definition demo_half_open :: UdpClient where
  "demo_half_open = demo_session\<lparr>uc_state := AwaitingAuth, uc_quic_enabled := False, uc_server_hello := replicate 60 1\<rparr>"

definition demo_hello :: bytes where
  "demo_hello = FRAG_MAGIC @ [MSG_CLIENT_HELLO, 0, 1, 9, 9]"



end
