(* ===== verification/Uplink_Laws.thy ===== *)
theory Uplink_Laws
  imports Udp_Uplink Ingress_Laws
begin

unbundle bit_operations_syntax

text \<open>
  The client's sender and the server's receive path put together: what the sender emits reaches the
  server's guards packet by packet, in order and unaltered, and nothing else gets past them.
\<close>

section \<open>Records are not carrier frames\<close>

lemma record_first_byte:
  assumes "length ct + 28 \<le> MAX_RECORD_SIZE" "length nonce = 12" "length tag = 16"
  shows "record_of f nonce ct tag \<noteq> []" "hd (record_of f nonce ct tag) \<noteq> 0xF0" "hd (record_of f nonce ct tag) \<noteq> 0xF1"
proof -
  obtain a b where ab: "to_be_bytes (of_nat (28 + length ct) :: u16) = [a, b]"
      "(from_be_bytes [a, b] :: u16) = of_nat (28 + length ct)"
    by (rule u16_be_bytes)
  have "unat (from_be_bytes [a, b] :: u16) = 28 + length ct"
    using assms(1) unfolding ab(2) by (subst unat_of_nat_u16) (simp_all add: packet_consts)
  moreover have "unat (from_be_bytes [a, b] :: u16) = 256 * unat a + unat b"
    using le_val_less [of "[b, a]"] unat_of_nat_eq' [of "le_val [b, a]", where 'a = 16]
    by (simp add: from_be_bytes_def from_le_bytes_def)
  ultimately have "256 * unat a \<le> 16640" using assms(1) by (simp add: packet_consts)
  then have "a \<noteq> 0xF0" "a \<noteq> 0xF1" by auto
  then show "record_of f nonce ct tag \<noteq> []" "hd (record_of f nonce ct tag) \<noteq> 0xF0" "hd (record_of f nonce ct tag) \<noteq> 0xF1"
    using assms(2,3) by (cases f; simp add: record_of_def record_header_def ab(1) del: of_nat_add)+
qed

lemma sealed_first_byte:
  assumes "sealed_record P s data rec" "codec_wf s"
  shows "rec \<noteq> []" "hd rec \<noteq> 0xF0" "hd rec \<noteq> 0xF1"
proof -
  obtain ct tag where "rec = record_of (framing s) (record_nonce P s) ct tag" "length ct + 28 \<le> MAX_RECORD_SIZE" "length tag = 16"
    using assms(1) unfolding sealed_record_def by blast
  then show "rec \<noteq> []" "hd rec \<noteq> 0xF0" "hd rec \<noteq> 0xF1"
    using record_first_byte [of ct "record_nonce P s" tag "framing s"] length_record_nonce [OF assms(2)] by simp_all
qed

lemma not_carrier_frame:
  assumes "d \<noteq> []" "hd d \<noteq> 0xF0"
  shows "\<not> is_fragment d" "\<not> is_junk d" "\<not> is_mtu_probe d" "\<not> is_mtu_probe_v2 d" "\<not> is_mtu_probe_ack d"
    "\<not> is_mtu_probe_ack_v2 d" "\<not> is_client_hello_fragment d"
proof -
  show f: "\<not> is_fragment d" using assms by (cases d) (auto simp: is_fragment_def FRAG_MAGIC_def)
  then show "\<not> is_junk d" "\<not> is_mtu_probe d" "\<not> is_mtu_probe_v2 d" "\<not> is_mtu_probe_ack d"
    "\<not> is_mtu_probe_ack_v2 d" "\<not> is_client_hello_fragment d"
    by (simp_all add: is_junk_def is_mtu_probe_def is_mtu_probe_v2_def is_mtu_probe_ack_def is_mtu_probe_ack_v2_def
        is_client_hello_fragment_def)
qed

lemma not_data_fragment: "d \<noteq> [] \<Longrightarrow> hd d \<noteq> 0xF1 \<Longrightarrow> \<not> is_data_fragment d"
  by (cases d) (auto simp: is_data_fragment_def DF_MAGIC_def)

lemma fragment_first_byte:
  assumes "fragment_record P rec key rid mp = Ok ds" "d \<in> set ds"
  shows "d \<noteq> []" "hd d = 0xF1" "is_data_fragment d"
proof -
  have "splittable rec mp" using assms(1) by (rule fragment_record_Ok_splittable)
  then have "ds = map (piece_datagram P key rid rec mp) [0..<piece_count rec mp]"
    using assms(1) fragment_record_pieces by simp
  then obtain k where "d = piece_datagram P key rid rec mp k" using assms(2) by auto
  then show "d \<noteq> []" "hd d = 0xF1" "is_data_fragment d"
    by (simp_all add: piece_datagram_def fragment_datagram_def fragment_header_def Let_def is_data_fragment_def DF_MAGIC_def)
qed

text \<open>A record of the same codec under an earlier counter, such as the cached AUTH request.\<close>

definition earlier_record :: "Primitives \<Rightarrow> PacketCodec \<Rightarrow> bytes \<Rightarrow> bool" where
  "earlier_record P s r \<longleftrightarrow> (\<exists>k ct tag. k < counter s \<and> r = record_of (framing s) (record_nonce P (s\<lparr>counter := k\<rparr>)) ct tag
     \<and> length ct + 28 \<le> MAX_RECORD_SIZE \<and> length tag = 16)"


lemma record_nonce_part:
  assumes "length nonce = 12"
  shows "slice (header_len f) (header_len f + 12) (record_of f nonce ct tag) = nonce"
  using assms by (simp add: record_of_def slice_def)

lemma earlier_differs:
  assumes wf: "codec_wf s" and "sealed_record P s data rec" "earlier_record P s r"
  shows "rec \<noteq> r"
proof
  assume eq: "rec = r"
  obtain k ct tag ct' tag' where k: "k < counter s"
    and r: "record_of (framing s) (record_nonce P s) ct tag = record_of (framing s) (record_nonce P (s\<lparr>counter := k\<rparr>)) ct' tag'"
    using assms(2,3) eq unfolding sealed_record_def earlier_record_def by blast
  have "codec_wf (s\<lparr>counter := k\<rparr>)" using wf by (simp add: codec_wf_def)
  then have "record_nonce P s = record_nonce P (s\<lparr>counter := k\<rparr>)"
    using r record_nonce_part length_record_nonce [OF wf] length_record_nonce by metis
  then have "record_nonce P (s\<lparr>counter := counter s\<rparr>) = record_nonce P (s\<lparr>counter := k\<rparr>)" by simp
  from record_nonce_inj [OF wf this] k show False by simp
qed

lemma earlier_first_byte:
  assumes "codec_wf s" "earlier_record P s r"
  shows "hd r \<noteq> 0xF1"
proof -
  obtain k ct tag where r: "r = record_of (framing s) (record_nonce P (s\<lparr>counter := k\<rparr>)) ct tag"
      "length ct + 28 \<le> MAX_RECORD_SIZE" "length tag = 16"
    using assms(2) unfolding earlier_record_def by blast
  have "codec_wf (s\<lparr>counter := k\<rparr>)" using assms(1) by (simp add: codec_wf_def)
  then show ?thesis using r record_first_byte(3) length_record_nonce by blast
qed

lemma earlier_next:
  assumes "earlier_record P s r" "unat (counter s) + 1 < 2 ^ 64"
  shows "earlier_record P (s\<lparr>counter := counter s + 1\<rparr>) r"
proof -
  obtain k ct tag where k: "k < counter s" and r: "r = record_of (framing s) (record_nonce P (s\<lparr>counter := k\<rparr>)) ct tag"
      "length ct + 28 \<le> MAX_RECORD_SIZE" "length tag = 16"
    using assms(1) unfolding earlier_record_def by blast
  have "unat (counter s + 1) = unat (counter s) + 1" using assms(2) by (simp add: unat_plus_if')
  then have "k < counter s + 1" using k by (simp add: word_less_nat_alt)
  with r show ?thesis unfolding earlier_record_def by (intro exI [of _ k] exI [of _ ct] exI [of _ tag]) simp
qed

section \<open>In-order decryption\<close>

text \<open>The receiver has the sender's key and framing and has seen nothing newer than what the sender
  sent last.\<close>

definition rx_ready :: "PacketCodec \<Rightarrow> PacketCodec \<Rightarrow> bool" where
  "rx_ready s r \<longleftrightarrow> cipher r = cipher s \<and> framing r = framing s
     \<and> (initialized (replay_window r) \<longrightarrow> highest (replay_window r) < counter s)"

lemma window_advances:
  assumes "initialized w \<longrightarrow> highest w < c"
  shows "fst (check_and_record w c)" "initialized (snd (check_and_record w c))" "highest (snd (check_and_record w c)) = c"
  using assms by (auto simp: check_and_record_def set_bit_at_def shift_def Let_def)

lemma sealed_opens:
  assumes "sealed_record P s data rec" "rx_ready s r" "unat (counter s) + 1 < 2 ^ 64"
  shows "\<exists>r'. decrypt_packet_in_place P r rec = (Ok (), data, r') \<and> rx_ready (s\<lparr>counter := counter s + 1\<rparr>) r'"
proof -
  let ?w = "snd (check_and_record (replay_window r) (counter s))"
  have w: "fst (check_and_record (replay_window r) (counter s))" "initialized ?w" "highest ?w = counter s"
    using window_advances [of "replay_window r" "counter s"] assms(2) by (simp_all add: rx_ready_def)
  have "decrypt_packet P r rec = deliver r (counter s) data"
    using assms(1,2) by (simp add: sealed_record_def rx_ready_def)
  then have "decrypt_packet P r rec = (Ok data, r\<lparr>replay_window := ?w\<rparr>)"
    using w(1) by (simp add: deliver_def split_beta Let_def)
  then have "decrypt_packet_in_place P r rec = (Ok (), data, r\<lparr>replay_window := ?w\<rparr>)"
    by (auto simp: decrypt_packet_def split: sum.splits prod.splits if_splits)
  moreover have "counter s < counter s + 1"
    using assms(3) by (simp add: word_less_nat_alt unat_plus_if')
  ultimately show ?thesis using w assms(2) by (auto simp: rx_ready_def)
qed


section \<open>The server's side\<close>

text \<open>The parts of a session that decide about packets, and its carrier, do not change.\<close>

definition same_rights :: "UdpClient \<Rightarrow> UdpClient \<Rightarrow> bool" where
  "same_rights c d \<longleftrightarrow> uc_rx_data_frag_key c = uc_rx_data_frag_key d \<and> uc_data_frag_enabled c = uc_data_frag_enabled d
     \<and> uc_rx_recordizer c = None \<and> uc_rx_recordizer d = None \<and> uc_state c = uc_state d
     \<and> uc_bandwidth_limit c = uc_bandwidth_limit d \<and> uc_has_upload_tx c = uc_has_upload_tx d
     \<and> uc_quic_enabled c = uc_quic_enabled d \<and> uc_auth_request c = uc_auth_request d \<and> uc_auth_ok c = uc_auth_ok d
     \<and> uc_dst_acl c = uc_dst_acl d \<and> uc_src_guard c = uc_src_guard d \<and> uc_exit_access c = uc_exit_access d
     \<and> uc_revoked c = uc_revoked d \<and> (uc_path_mtu c = None \<longleftrightarrow> uc_path_mtu d = None)
     \<and> uc_has_payload_budget c = uc_has_payload_budget d \<and> (uc_client_info c = None \<longleftrightarrow> uc_client_info d = None)
     \<and> uc_auth_ok_sent c = uc_auth_ok_sent d"

text \<open>The verdict on one payload of an authenticated session without a recordizer.\<close>

definition uplink_verdict :: "IngressEnv \<Rightarrow> UdpClient \<Rightarrow> bytes \<Rightarrow> UdpAction list" where
  "uplink_verdict env c p = fst (dispatch_plaintext env [] p c)"

lemma handle_ctrl_same:
  assumes "same_rights c d"
  shows "fst (handle_ctrl p d) = fst (handle_ctrl p c)" "same_rights c (snd (handle_ctrl p d))"
    "uc_rx_codec (snd (handle_ctrl p d)) = uc_rx_codec d"
    "uc_data_reassembler (snd (handle_ctrl p d)) = uc_data_reassembler d"
  using assms unfolding handle_ctrl_def same_rights_def by (auto split: option.splits bool.splits)

lemma judge_packet_same:
  assumes "same_rights c d"
  shows "fst (judge_packet env i sid p d) = fst (judge_packet env i sid p c)" "same_rights c (snd (judge_packet env i sid p d))"
    "uc_rx_codec (snd (judge_packet env i sid p d)) = uc_rx_codec d"
    "uc_data_reassembler (snd (judge_packet env i sid p d)) = uc_data_reassembler d"
  using assms unfolding judge_packet_def same_rights_def by (simp_all add: Let_def)

lemma dispatch_same:
  assumes "same_rights c d" "uc_state c = Authenticated sid"
  shows "fst (dispatch_plaintext env rec p d) = uplink_verdict env c p"
    "same_rights c (snd (dispatch_plaintext env rec p d))"
    "uc_rx_codec (snd (dispatch_plaintext env rec p d)) = uc_rx_codec d"
    "uc_data_reassembler (snd (dispatch_plaintext env rec p d)) = uc_data_reassembler d"
proof -
  let ?d = "d\<lparr>uc_last_activity := env_now env\<rparr>" and ?c = "c\<lparr>uc_last_activity := env_now env\<rparr>"
  have s: "same_rights c ?d" "same_rights ?c ?d" "uc_state d = Authenticated sid" "uc_rx_recordizer c = None" "uc_rx_recordizer d = None"
    using assms by (simp_all add: same_rights_def)
  note h = handle_ctrl_same [OF s(1), of p] judge_packet_same [OF s(1), of env 0 sid p]
    handle_ctrl_same(1) [OF s(2), of p] judge_packet_same(1) [OF s(2), of env 0 sid p]
  show "fst (dispatch_plaintext env rec p d) = uplink_verdict env c p"
    "same_rights c (snd (dispatch_plaintext env rec p d))"
    "uc_rx_codec (snd (dispatch_plaintext env rec p d)) = uc_rx_codec d"
    "uc_data_reassembler (snd (dispatch_plaintext env rec p d)) = uc_data_reassembler d"
    using assms(2) s h by (simp_all add: uplink_verdict_def dispatch_plaintext_def Let_def)
qed

text \<open>A datagram that is no carrier frame and no replay of the AUTH request reaches the record path.\<close>

lemma carrier_passes:
  assumes d: "framing_unwrap (framing_legacy (uc_quic_enabled c) cid) w = Ok d" "d \<noteq> []" "hd d \<noteq> 0xF0"
    and c: "uc_state c = Authenticated sid" "uc_auth_ok_sent c" "\<not> revoked_now c" "uc_auth_ok c = [] \<or> d \<noteq> uc_auth_request c"
  shows "handle_session_datagram P env w c =
    receive_payload P env d (c\<lparr>uc_amp_received := saturating_add (uc_amp_received c) (length w)\<rparr>)"
proof -
  have u: "(if uc_quic_enabled c then unwrap_quic_payload w else Ok w) = Ok d"
    using d(1) by (auto simp: framing_legacy_def split: if_splits sum.splits)
  note n = not_carrier_frame [OF d(2,3)]
  have "handle_session_datagram P env w c = session_payload P env (length w) d c"
    unfolding handle_session_datagram_def u by (simp add: n)
  then show ?thesis using c by (auto simp: session_payload_def Let_def)
qed


definition session_open :: "UdpClient \<Rightarrow> bool" where
  "session_open c \<longleftrightarrow> (\<exists>sid. uc_state c = Authenticated sid) \<and> uc_auth_ok_sent c \<and> \<not> revoked_now c \<and> uc_rx_recordizer c = None"

lemma same_rights_open: "same_rights c d \<Longrightarrow> session_open d = session_open c"
  by (simp add: same_rights_def session_open_def revoked_now_def)

lemma same_rights_refl: "session_open c \<Longrightarrow> same_rights c c"
  by (simp add: same_rights_def session_open_def)

lemma same_rights_trans: "same_rights a b \<Longrightarrow> same_rights b c \<Longrightarrow> same_rights a c"
  by (simp add: same_rights_def)

lemma record_received:
  assumes c: "session_open c" "same_rights c d" and env: "env_acquire env 0" "length rec \<le> env_slot_capacity env"
    and rx: "rx_ready s (uc_rx_codec d)" "sealed_record P s p rec" "unat (counter s) + 1 < 2 ^ 64"
  shows "\<exists>e. receive_record P env rec d = (uplink_verdict env c p, e) \<and> same_rights c e
    \<and> rx_ready (s\<lparr>counter := counter s + 1\<rparr>) (uc_rx_codec e) \<and> uc_data_reassembler e = uc_data_reassembler d"
proof -
  obtain r where r: "decrypt_packet_in_place P (uc_rx_codec d) rec = (Ok (), p, r)" "rx_ready (s\<lparr>counter := counter s + 1\<rparr>) r"
    using sealed_opens [OF rx(2,1,3)] by blast
  obtain sid where sid: "uc_state c = Authenticated sid" using c(1) by (auto simp: session_open_def)
  have d: "same_rights c (d\<lparr>uc_rx_codec := r\<rparr>)" using c(2) by (simp add: same_rights_def)
  have "receive_record P env rec d = dispatch_plaintext env rec p (d\<lparr>uc_rx_codec := r\<rparr>)"
    using env by (simp add: receive_record_def r(1))
  then show ?thesis
    using dispatch_same [OF d sid, of env rec p] r(2)
    by (intro exI [of _ "snd (dispatch_plaintext env rec p (d\<lparr>uc_rx_codec := r\<rparr>))"]) (simp add: prod_eq_iff)
qed

text \<open>One piece of a split record, by what the reassembler says about it.\<close>

lemma fragment_step:
  assumes d: "framing_unwrap (framing_legacy (uc_quic_enabled c) cid) w = Ok d" "d \<noteq> []" "hd d = 0xF1" "is_data_fragment d"
    and c: "session_open c" "uc_data_frag_enabled c" "uc_auth_ok c = [] \<or> hd (uc_auth_request c) \<noteq> 0xF1"
    and push: "push_at P (uc_data_reassembler c) d (uc_rx_data_frag_key c) (env_now env) = (Ok r, st)"
  shows "\<exists>x. same_rights c x \<and> uc_rx_codec x = uc_rx_codec c \<and> uc_data_reassembler x = st
    \<and> handle_session_datagram P env w c = (case r of None \<Rightarrow> ([], x) | Some rec \<Rightarrow> receive_record P env rec x)"
proof -
  let ?c = "c\<lparr>uc_amp_received := saturating_add (uc_amp_received c) (length w)\<rparr>"
  let ?x = "?c\<lparr>uc_data_reassembler := st\<rparr>"
  obtain sid where sid: "uc_state c = Authenticated sid" "uc_auth_ok_sent c" "\<not> revoked_now c"
    using c(1) by (auto simp: session_open_def)
  have "hd d \<noteq> 0xF0" "uc_auth_ok c = [] \<or> d \<noteq> uc_auth_request c" using d(3) c(3) by auto
  from carrier_passes [OF d(1,2) this(1) sid this(2)]
  have "handle_session_datagram P env w c = receive_payload P env d ?c" .
  moreover have "receive_payload P env d ?c = (case r of None \<Rightarrow> ([], ?x) | Some rec \<Rightarrow> receive_record P env rec ?x)"
    using sid d(4) c(2) push by (cases r) (simp_all add: receive_payload_def)
  moreover have "same_rights c ?x" using c(1) by (simp add: same_rights_def session_open_def)
  ultimately show ?thesis by (intro exI [of _ ?x]) simp
qed

text \<open>A record that travels whole.\<close>

lemma whole_record_step:
  assumes d: "framing_unwrap (framing_legacy (uc_quic_enabled c) cid) w = Ok rec" "sealed_record P s p rec" "codec_wf s"
    and c: "session_open c" "uc_auth_ok c = [] \<or> earlier_record P s (uc_auth_request c)"
  shows "\<exists>x. same_rights c x \<and> uc_rx_codec x = uc_rx_codec c \<and> uc_data_reassembler x = uc_data_reassembler c
    \<and> handle_session_datagram P env w c = receive_record P env rec x"
proof -
  let ?c = "c\<lparr>uc_amp_received := saturating_add (uc_amp_received c) (length w)\<rparr>"
  obtain sid where sid: "uc_state c = Authenticated sid" "uc_auth_ok_sent c" "\<not> revoked_now c"
    using c(1) by (auto simp: session_open_def)
  note f = sealed_first_byte [OF d(2,3)]
  have "uc_auth_ok c = [] \<or> rec \<noteq> uc_auth_request c" using c(2) earlier_differs [OF d(3,2)] by blast
  from carrier_passes [OF d(1) f(1,2) sid this]
  have "handle_session_datagram P env w c = receive_payload P env rec ?c" .
  moreover have "receive_payload P env rec ?c = receive_record P env rec ?c"
    using sid not_data_fragment [OF f(1,3)] by (simp add: receive_payload_def)
  moreover have "same_rights c ?c" using c(1) by (simp add: same_rights_def session_open_def)
  ultimately show ?thesis by (intro exI [of _ ?c]) simp
qed

text \<open>The datagrams of a split record: silence up to the last one, which hands over the record.\<close>

lemma fragments_run:
  assumes "push_all P key st (zip ds (map env_now es)) = (replicate k (Ok None) @ [Ok (Some rec)], st')"
    and "length ds = Suc k" "length es = Suc k" "map (framing_unwrap (framing_legacy (uc_quic_enabled c) cid)) ws = map Ok ds"
    and "\<forall>d \<in> set ds. d \<noteq> [] \<and> hd d = 0xF1 \<and> is_data_fragment d"
    and "session_open c" "uc_data_frag_enabled c" "uc_auth_ok c = [] \<or> hd (uc_auth_request c) \<noteq> 0xF1"
    and "uc_rx_data_frag_key c = key" "uc_data_reassembler c = st"
  shows "\<exists>x. same_rights c x \<and> uc_rx_codec x = uc_rx_codec c \<and> uc_data_reassembler x = st' \<and> ingress_run P (zip es ws) c
      = (replicate k [] @ [fst (receive_record P (last es) rec x)], snd (receive_record P (last es) rec x))"
  using assms
proof (induction k arbitrary: st ds es ws c)
  case 0
  obtain d e w where l: "ds = [d]" "es = [e]" "ws = [w]" "framing_unwrap (framing_legacy (uc_quic_enabled c) cid) w = Ok d"
    using "0.prems"(2-4) by (auto simp: length_Suc_conv)
  have "push_at P (uc_data_reassembler c) d (uc_rx_data_frag_key c) (env_now e) = (Ok (Some rec), st')"
    using "0.prems"(1,9,10) l by (simp split: prod.splits)
  from fragment_step [OF l(4) _ _ _ "0.prems"(6-8) this] "0.prems"(5) l(1)
  show ?case by (auto simp: l(2,3) split_beta)
next
  case (Suc k)
  obtain d ds' e es' w ws' where l: "ds = d # ds'" "length ds' = Suc k" "es = e # es'" "length es' = Suc k" "ws = w # ws'"
      "framing_unwrap (framing_legacy (uc_quic_enabled c) cid) w = Ok d"
      "map (framing_unwrap (framing_legacy (uc_quic_enabled c) cid)) ws' = map Ok ds'"
    using Suc.prems(2-4) by (auto simp: length_Suc_conv)
  obtain st1 where st1: "push_at P (uc_data_reassembler c) d (uc_rx_data_frag_key c) (env_now e) = (Ok None, st1)"
      "push_all P key st1 (zip ds' (map env_now es')) = (replicate k (Ok None) @ [Ok (Some rec)], st')"
    using Suc.prems(1,9,10) l by (auto split: prod.splits)
  obtain y where y: "same_rights c y" "uc_rx_codec y = uc_rx_codec c" "uc_data_reassembler y = st1"
      "handle_session_datagram P e w c = ([], y)"
    using fragment_step [OF l(6) _ _ _ Suc.prems(6-8) st1(1)] Suc.prems(5) l(1) by auto
  have "session_open y" "uc_data_frag_enabled y" "uc_auth_ok y = [] \<or> hd (uc_auth_request y) \<noteq> 0xF1"
      "uc_rx_data_frag_key y = key" "uc_quic_enabled y = uc_quic_enabled c"
    using y(1) Suc.prems(6-9) same_rights_open [OF y(1)] by (simp_all add: same_rights_def)
  then obtain x where x: "same_rights y x" "uc_rx_codec x = uc_rx_codec y" "uc_data_reassembler x = st'"
      "ingress_run P (zip es' ws') y
      = (replicate k [] @ [fst (receive_record P (last es') rec x)], snd (receive_record P (last es') rec x))"
    using Suc.IH [OF st1(2) l(2,4), of y ws'] l(1,7) Suc.prems(5) y(3) by auto
  then show ?case using same_rights_trans [OF y(1) x(1)] y(2,4) l(3,4,5) by (intro exI [of _ x]) (auto simp: split_beta)
qed

section \<open>One payload, and a stream of them\<close>

text \<open>The environments under which the datagrams of one payload arrive: within the reassembly timeout,
  with a free buffer of the size of a record at the last one.\<close>

definition good_arrival :: "IngressEnv list \<Rightarrow> bool" where
  "good_arrival es \<longleftrightarrow> (\<forall>e \<in> set es. env_now e - env_now (hd es) \<le> DF_REASSEMBLY_TIMEOUT)
     \<and> env_acquire (last es) 0 \<and> MAX_REASSEMBLED_RECORD \<le> env_slot_capacity (last es)"

definition uplink_ready :: "Primitives \<Rightarrow> PacketCodec \<Rightarrow> bool \<Rightarrow> bytes \<Rightarrow> UdpClient \<Rightarrow> bool" where
  "uplink_ready P s frag key c \<longleftrightarrow> codec_wf s \<and> rx_ready s (uc_rx_codec c) \<and> session_open c
     \<and> (frag \<longrightarrow> uc_data_frag_enabled c \<and> uc_rx_data_frag_key c = key)
     \<and> df_entries (uc_data_reassembler c) = [] \<and> df_buffered_bytes (uc_data_reassembler c) = 0
     \<and> (uc_auth_ok c = [] \<or> earlier_record P s (uc_auth_request c))"

lemma sealed_length:
  assumes "sealed_record P s p rec" "codec_wf s"
  shows "length rec \<le> MAX_REASSEMBLED_RECORD"
  using assms(1) header_len_le(1) [of "framing s"]
  by (auto simp: sealed_record_def record_of_def length_record_nonce [OF assms(2)] MAX_REASSEMBLED_RECORD_def packet_consts)

lemma ready_next:
  assumes "uplink_ready P s frag key c" "same_rights c d" "unat (counter s) + 1 < 2 ^ 64"
    and "rx_ready (s\<lparr>counter := counter s + 1\<rparr>) (uc_rx_codec d)"
    and "df_entries (uc_data_reassembler d) = []" "df_buffered_bytes (uc_data_reassembler d) = 0"
  shows "uplink_ready P (s\<lparr>counter := counter s + 1\<rparr>) frag key d"
  using assms same_rights_open [OF assms(2)] earlier_next [OF _ assms(3)]
  by (auto simp: uplink_ready_def same_rights_def codec_wf_def)

lemma payload_arrives:
  assumes ready: "uplink_ready P s frag key c" and law: "hmac_law P" and up: "uplink_record P frag budget key s rid p ds rid'"
    and cnt: "unat (counter s) + 1 < 2 ^ 64" and es: "good_arrival es" "length es = length ds"
    and ws: "map (framing_unwrap (framing_legacy (uc_quic_enabled c) cid)) ws = map Ok ds"
  shows "\<exists>d. ingress_run P (zip es ws) c = (replicate (length ds - 1) [] @ [uplink_verdict (last es) c p], d)
    \<and> same_rights c d \<and> uplink_ready P (s\<lparr>counter := counter s + 1\<rparr>) frag key d"
proof -
  have c: "session_open c" "codec_wf s" "rx_ready s (uc_rx_codec c)" "df_entries (uc_data_reassembler c) = []"
      "df_buffered_bytes (uc_data_reassembler c) = 0" "uc_auth_ok c = [] \<or> earlier_record P s (uc_auth_request c)"
    using ready by (simp_all add: uplink_ready_def)
  obtain rec where rec: "sealed_record P s p rec" "if frag \<and> budget < length rec
      then fragment_record P rec key rid (budget - HEADER_LEN) = Ok ds \<and> rid' = rid + 1 else ds = [rec] \<and> rid' = rid"
    using up unfolding uplink_record_def by blast
  have env: "env_acquire (last es) 0" "length rec \<le> env_slot_capacity (last es)"
    using es(1) sealed_length [OF rec(1) c(2)] by (simp_all add: good_arrival_def)
  have "\<exists>x. same_rights c x \<and> uc_rx_codec x = uc_rx_codec c \<and> df_entries (uc_data_reassembler x) = []
      \<and> df_buffered_bytes (uc_data_reassembler x) = 0 \<and> ingress_run P (zip es ws) c =
        (replicate (length ds - 1) [] @ [fst (receive_record P (last es) rec x)], snd (receive_record P (last es) rec x))"
  proof (cases "frag \<and> budget < length rec")
    case True
    then have ok: "fragment_record P rec key rid (budget - HEADER_LEN) = Ok ds" using rec(2) by simp
    have t: "length (map env_now es) = length ds"
        "\<forall>t \<in> set (map env_now es). t - hd (map env_now es) \<le> DF_REASSEMBLY_TIMEOUT"
      using es by (simp, cases es) (simp_all add: good_arrival_def)
    obtain st where st: "push_all P key (uc_data_reassembler c) (zip ds (map env_now es))
        = (replicate (length ds - 1) (Ok None) @ [Ok (Some rec)], st)" "df_entries st = []" "df_buffered_bytes st = 0"
      using pieces_in_order [OF law ok c(4,5) t] by blast
    have "0 < length ds" using st(1) by (cases ds) auto
    then have n: "length ds = Suc (length ds - 1)" "length es = Suc (length ds - 1)" using es(2) by simp_all
    have "\<forall>d \<in> set ds. d \<noteq> [] \<and> hd d = 0xF1 \<and> is_data_fragment d" using fragment_first_byte [OF ok] by blast
    moreover have "uc_data_frag_enabled c" "uc_rx_data_frag_key c = key" using ready True by (simp_all add: uplink_ready_def)
    moreover have "uc_auth_ok c = [] \<or> hd (uc_auth_request c) \<noteq> 0xF1" using c(6) earlier_first_byte [OF c(2)] by blast
    ultimately show ?thesis using fragments_run [OF st(1) n ws _ c(1)] st(2,3) by blast
  next
    case False
    then obtain e w where l: "ds = [rec]" "es = [e]" "ws = [w]"
        "framing_unwrap (framing_legacy (uc_quic_enabled c) cid) w = Ok rec"
      using rec(2) es(2) ws by (auto simp: length_Suc_conv)
    show ?thesis using whole_record_step [OF l(4) rec(1) c(2,1,6), of e] c(4,5) by (auto simp: l split_beta)
  qed
  then obtain x where x: "same_rights c x" "uc_rx_codec x = uc_rx_codec c" "df_entries (uc_data_reassembler x) = []"
      "df_buffered_bytes (uc_data_reassembler x) = 0" "ingress_run P (zip es ws) c =
        (replicate (length ds - 1) [] @ [fst (receive_record P (last es) rec x)], snd (receive_record P (last es) rec x))"
    by blast
  obtain d where d: "receive_record P (last es) rec x = (uplink_verdict (last es) c p, d)" "same_rights c d"
      "rx_ready (s\<lparr>counter := counter s + 1\<rparr>) (uc_rx_codec d)" "uc_data_reassembler d = uc_data_reassembler x"
    using record_received [OF c(1) x(1) env _ rec(1) cnt] c(3) x(2) by auto
  moreover have "uplink_ready P (s\<lparr>counter := counter s + 1\<rparr>) frag key d"
    using ready_next [OF ready d(2) cnt d(3)] d(4) x(3,4) by simp
  ultimately show ?thesis using x(5) by (intro exI [of _ d]) simp
qed


lemma ready_verdict:
  assumes "uplink_ready P s frag key c" "same_rights c d"
  shows "uplink_verdict env d p = uplink_verdict env c p"
proof -
  obtain sid where "uc_state c = Authenticated sid" using assms(1) by (auto simp: uplink_ready_def session_open_def)
  from dispatch_same(1) [OF assms(2) this] show ?thesis by (simp add: uplink_verdict_def)
qed

lemma stream_arrives:
  assumes "uplink_stream P frag budget key s rid ps dss" "hmac_law P" "uplink_ready P s frag key c"
    and "unat (counter s) + length ps < 2 ^ 64" "list_all2 (\<lambda>es ds. good_arrival es \<and> length es = length ds) ess dss"
    and "map (framing_unwrap (framing_legacy (uc_quic_enabled c) cid)) ws = map Ok (concat dss)"
  shows "concat (fst (ingress_run P (zip (concat ess) ws) c)) = concat (map2 (\<lambda>es p. uplink_verdict (last es) c p) ess ps)"
  using assms
proof (induction arbitrary: c ess ws rule: uplink_stream.induct)
  case (none s rid)
  then show ?case by simp
next
  case (more s rid p ds rid' ps dss)
  obtain es ess' where ess: "ess = es # ess'" "good_arrival es" "length es = length ds"
      "list_all2 (\<lambda>es ds. good_arrival es \<and> length es = length ds) ess' dss"
    using more.prems(4) by (auto simp: list_all2_Cons2)
  obtain u v where ws: "ws = u @ v" "map (framing_unwrap (framing_legacy (uc_quic_enabled c) cid)) u = map Ok ds"
      "map (framing_unwrap (framing_legacy (uc_quic_enabled c) cid)) v = map Ok (concat dss)"
    using more.prems(5) by (auto simp: map_eq_append_conv append_eq_map_conv)
  have cnt: "unat (counter s) + 1 < 2 ^ 64" using more.prems(3) by simp
  obtain d where d: "ingress_run P (zip es u) c = (replicate (length ds - 1) [] @ [uplink_verdict (last es) c p], d)"
      "same_rights c d" "uplink_ready P (s\<lparr>counter := counter s + 1\<rparr>) frag key d"
    using payload_arrives [OF more.prems(2,1) more.hyps(1) cnt ess(2,3) ws(2)] by blast
  have "unat (counter s + 1) = unat (counter s) + 1" using cnt by (simp add: unat_plus_if')
  then have IH: "concat (fst (ingress_run P (zip (concat ess') v) d)) = concat (map2 (\<lambda>es p. uplink_verdict (last es) d p) ess' ps)"
    using more.IH [OF more.prems(1) d(3) _ ess(4), of v] ws(3) more.prems(3) d(2) by (simp add: same_rights_def)
  have v: "(\<lambda>es p. uplink_verdict (last es) d p) = (\<lambda>es p. uplink_verdict (last es) c p)"
    using ready_verdict [OF more.prems(2) d(2)] by simp
  have "length u = length es" using ws(2) ess(3) map_eq_imp_length_eq by metis
  then have "zip (concat ess) ws = zip es u @ zip (concat ess') v" by (simp add: ess(1) ws(1))
  then show ?case using IH unfolding v by (simp add: ingress_run_append d(1) ess(1) case_prod_unfold Let_def)
qed

lemma stream_shape:
  assumes "uplink_stream P frag budget key s rid ps dss"
  shows "length dss = length ps \<and> [] \<notin> set dss"
  using assms
proof induction
  case (more s rid p ds rid' ps dss)
  have "fragment_record P rec key rid n \<noteq> Ok []" for rec n
    using fragment_record_pieces [of rec n] fragment_record_Ok_splittable [of P rec key rid n "[]"]
      splittable_bounds(4) [of rec n] by auto
  then show ?case using more by (auto simp: uplink_record_def split: if_splits)
qed simp

lemma arrivals_of_lengths:
  "map length ess = map length dss \<Longrightarrow> list_all good_arrival ess \<Longrightarrow>
   list_all2 (\<lambda>es ds. good_arrival es \<and> length es = length ds) ess dss"
  by (auto simp: list_all2_conv_all_nth list_all_length list_eq_iff_nth_eq)

section \<open>Only permitted packets pass\<close>

lemma demo_session_ready: "uplink_ready plain_primitives demo_codec True demo_key demo_session"
  using demo_codec_facts
  by (simp add: uplink_ready_def demo_session_def rx_ready_def session_open_def revoked_now_def ReplayWindow_new_def
      DataReassembler_new_def)

lemma demo_arrival: "0 < n \<Longrightarrow> good_arrival (replicate n demo_env)"
  by (simp add: good_arrival_def demo_env_def)

lemma demo_verdict:
  "uplink_verdict demo_env demo_session demo_payload = [Forward demo_payload (send_client_packet (env_flags demo_env) [] False 1
     (uc_exit_access demo_session) demo_payload SessionMap_empty)]"
  by (simp add: uplink_verdict_def dispatch_plaintext_def judge_packet_def demo_session_def demo_payload_def demo_env_def
      is_ctrl_def CTRL_MAGIC_def is_unrestricted_def Let_def)

lemma demo_datagram:
  "\<exists>w. fst (handle_session_datagram plain_primitives demo_env w demo_session) = uplink_verdict demo_env demo_session demo_payload"
proof -
  have fits: "length demo_payload + length [] \<le> MAX_TUNNEL_MTU" by (simp add: demo_payload_def packet_consts)
  have cnt: "unat (counter demo_codec) < 2 ^ 64 - 1 - 1000" "unat (counter demo_codec) + 1 < 2 ^ 64"
    by (simp_all add: demo_codec_facts)
  obtain rec where rec: "sealed_record plain_primitives demo_codec demo_payload rec"
    by (rule encrypt_into_sealed [OF plain_primitives_laws(1) demo_codec_facts(1) cnt(1) fits])
  then have up: "uplink_record plain_primitives False 0 demo_key demo_codec 0 demo_payload [rec] 0"
    by (auto simp: uplink_record_def)
  let ?w = "wrap_quic_short_into rec [1, 2, 3, 4] 0"
  have w: "map (framing_unwrap (framing_legacy (uc_quic_enabled demo_session) [])) [?w] = map Ok [rec]"
    using legacy_payload [of "[1, 2, 3, 4]" rec 0] by (simp add: demo_session_def framing_legacy_def)
  have "uplink_ready plain_primitives demo_codec False demo_key demo_session"
    using demo_session_ready by (simp add: uplink_ready_def)
  from payload_arrives [OF this plain_primitives_laws(3) up cnt(2), of "[demo_env]", OF _ _ w] demo_arrival [of 1]
  have "fst (handle_session_datagram plain_primitives demo_env ?w demo_session) = uplink_verdict demo_env demo_session demo_payload"
    by (auto split: prod.splits)
  then show ?thesis by blast
qed

text \<open>C2. Whatever a datagram of a session makes the server deliver or queue is a packet of the record the
  datagram brings: the payload under the outer envelope is that record or the fragment that completes it, the
  session's codec decrypted it and its replay window accepted it, and the packet is its plaintext or, on a
  session with a recordizer, one of the packets the recordizer decodes from it. The session has
  authenticated, its AuthOK went out and it is not revoked; the packet passes the source guard and the
  destination ACL; it is delivered where the routing of client packets sends it when the user has no
  bandwidth cap, and queued for pacing otherwise.\<close>

theorem only_permitted_packets_pass:
  assumes "a \<in> set (fst (handle_session_datagram P env datagram c))" "(\<exists>d. a = Forward p d) \<or> a = Pace p"
  shows "uc_auth_ok_sent c \<and> \<not> revoked_now c \<and> (\<exists>sid payload rec plaintext rx. uc_state c = Authenticated sid
     \<and> (if uc_quic_enabled c then unwrap_quic_payload datagram else Ok datagram) = Ok payload
     \<and> (if is_data_fragment payload
        then fst (push_at P (uc_data_reassembler c) payload (uc_rx_data_frag_key c) (env_now env)) = Ok (Some rec)
        else rec = payload)
     \<and> decrypt_packet_in_place P (uc_rx_codec c) rec = (Ok (), plaintext, rx)
     \<and> (case (if is_control_v2 plaintext then None else uc_rx_recordizer c) of
          None \<Rightarrow> p = plaintext
        | Some rz \<Rightarrow> (\<exists>ps. fst (decode_with rz plaintext (env_now env)) = Ok ps \<and> p \<in> set ps))
     \<and> (case uc_src_guard c of None \<Rightarrow> True | Some g \<Rightarrow> src_allows_packet g p)
     \<and> (is_unrestricted (uc_dst_acl c) \<or> dst_allows_packet (uc_dst_acl c) p)
     \<and> a = (if (case uc_bandwidth_limit c of None \<Rightarrow> 0 | Some l \<Rightarrow> l) = 0
         then Forward p (send_client_packet (env_flags env) (env_tun_addresses env) (env_client_to_client env)
           sid (uc_exit_access c) p (env_sessions env))
         else Pace p))"
proof -
  have h: "hands_over a p" using assms(2) by (simp add: hands_over_def)
  then obtain n payload where pl: "(if uc_quic_enabled c then unwrap_quic_payload datagram else Ok datagram) = Ok payload"
      "a \<in> set (fst (session_payload P env n payload c))"
    using assms(1) by (auto simp: handle_session_datagram_def hands_over_def split: if_splits sum.splits option.splits)
  from session_payload_accepts [OF pl(2) h]
  obtain sid rec plaintext rx where s: "uc_auth_ok_sent c" "\<not> revoked_now c" "uc_state c = Authenticated sid"
      "brings_record P env c payload rec" "decrypt_packet_in_place P (uc_rx_codec c) rec = (Ok (), plaintext, rx)"
      "p \<in> set (carried c (env_now env) plaintext)" "permitted env sid c p a"
    unfolding accepted_packet_def by blast
  have "case (if is_control_v2 plaintext then None else uc_rx_recordizer c) of
          None \<Rightarrow> p = plaintext
        | Some rz \<Rightarrow> (\<exists>ps. fst (decode_with rz plaintext (env_now env)) = Ok ps \<and> p \<in> set ps)"
  proof (cases "if is_control_v2 plaintext then None else uc_rx_recordizer c")
    case None
    then show ?thesis using s(6) unfolding carried_def by simp
  next
    case (Some rz)
    then show ?thesis using s(6) unfolding carried_def by (cases "fst (decode_with rz plaintext (env_now env))") simp_all
  qed
  moreover have "a = (if (case uc_bandwidth_limit c of None \<Rightarrow> 0 | Some l \<Rightarrow> l) = 0
         then Forward p (send_client_packet (env_flags env) (env_tun_addresses env) (env_client_to_client env)
           sid (uc_exit_access c) p (env_sessions env))
         else Pace p)" using s(7) by (simp add: permitted_def Let_def split: if_splits)
  ultimately show ?thesis using s pl(1) unfolding permitted_def brings_record_def by blast
qed

theorem only_permitted_packets_pass_witness:
  "\<exists>w d. Forward demo_payload d \<in> set (fst (handle_session_datagram plain_primitives demo_env w demo_session))
    \<and> uc_auth_ok_sent demo_session \<and> \<not> revoked_now demo_session
    \<and> (\<exists>rec rx. decrypt_packet_in_place plain_primitives (uc_rx_codec demo_session) rec = (Ok (), demo_payload, rx))"
proof -
  obtain w where "fst (handle_session_datagram plain_primitives demo_env w demo_session) = uplink_verdict demo_env demo_session demo_payload"
    using demo_datagram by blast
  then obtain d where w: "Forward demo_payload d \<in> set (fst (handle_session_datagram plain_primitives demo_env w demo_session))"
    by (simp add: demo_verdict)
  have n: "(if b then None else uc_rx_recordizer demo_session) = None" for b by (simp add: demo_session_def)
  show ?thesis using only_permitted_packets_pass [OF w, of demo_payload] w unfolding n option.case by blast
qed

end
