(* ===== verification/Spec2Isabelle.thy ===== *)
theory Spec2Isabelle
  imports Replay_Window Recordizer_Receiver Pmtu Icmp Acl Dhcp_Replies Session_Laws Control_V2_Laws Uplink_Laws
begin

text \<open>
  \<^bold>\<open>qeli, the data plane of a VPN.\<close> A client and a server exchange the IP packets of a tunnel over TCP or
  UDP. The sources are the Rust crate \<^verbatim>\<open>src/qeli/src\<close>; the paths below are relative to it. This development
  models the deterministic core of the crate and proves what it promises.

  \<^bold>\<open>How the parts interact.\<close> A packet on its way from the client to the server may first be multiplexed by
  the recordizer, is padded by the obfuscator, sealed into a record by the packet codec, split into
  authenticated fragments when the record exceeds the path, wrapped into the outer framing and sent in
  batches. The server unwraps, reassembles, decrypts, checks the replay window, undoes the recordizer,
  tells control frames from packets, checks source guard and destination ACL, and delivers the packet to
  another client or to the TUN device through the session map. The size of the path comes from the MTU
  probes and the search over them; too large inner packets are answered or fragmented by the ICMP part.
  Addresses come from the pools, directly or through the DHCP server, which the rate limiter protects.

  \<^bold>\<open>Conventions.\<close> \<^verbatim>\<open>u8\<close> to \<^verbatim>\<open>u128\<close> are words of their width, \<^verbatim>\<open>usize\<close> is a natural number with its checked and
  saturating operations written out, \<^verbatim>\<open>Instant\<close> and \<^verbatim>\<open>Duration\<close> are nanoseconds, byte slices are lists of
  8-bit words, a \<^verbatim>\<open>Result\<close> is a sum (\<open>Err\<close>, \<open>Ok\<close>), a panic is \<open>None\<close>, a \<^verbatim>\<open>HashMap\<close> is an association list where
  its size or order matters and a map otherwise, \<^verbatim>\<open>&mut self\<close> is state passing. Cryptography that the crate
  takes from libraries (AEAD, HMAC, SHA-256) is the record \<open>Primitives\<close> of \<^verbatim>\<open>Crypto_Primitives\<close>; the laws
  used are that opening a sealed box gives the plaintext and that the outputs have their lengths, and
  \<open>plain_primitives\<close> satisfies them. Random draws, the clock, the buffer pool, the batch call of the socket
  and \<^verbatim>\<open>serde_json\<close> are arguments in the same way.

  \<^bold>\<open>Theories and sources.\<close>
  \<^item> \<^verbatim>\<open>Qeli_Prelude\<close>: integers and their wire forms, slices, tables, and the locale \<open>accounted_table\<close> of a table
    whose buffered bytes are counted; it is interpreted on both reassemblers that promise it. \<^verbatim>\<open>Floats\<close>:
    the \<^verbatim>\<open>f64\<close> values of the configuration.
  \<^item> \<^verbatim>\<open>Replay_Window\<close> (\<^verbatim>\<open>protocol/packet.rs\<close>, \<^verbatim>\<open>ReplayWindow\<close>): the 2048-bit window over 32 words with the
    in-place shift. The locale \<open>replay_guard\<close> states what a window promises; the interpretation on
    \<open>check_and_record\<close> shows that the words refine a set of numbers, and the verdict of every packet of every
    sequence follows.
  \<^item> \<^verbatim>\<open>Packet_Codec\<close> (\<^verbatim>\<open>protocol/packet.rs\<close>, \<^verbatim>\<open>crypto/cipher.rs\<close>): \<^verbatim>\<open>PacketCodec\<close> with both framings, the nonce
    permutation, the stream reader and the padding budgets. A session's records are delivered once each in
    any order, nonces never repeat, rejected records change nothing.
  \<^item> \<^verbatim>\<open>Quic\<close> (\<^verbatim>\<open>protocol/quic.rs\<close>), \<^verbatim>\<open>Udp_Framing\<close> (\<^verbatim>\<open>transport_core/udp_client_framing.rs\<close>, the short header of
    \<^verbatim>\<open>protocol/roaming.rs\<close>): the outer envelopes and that each is read back.
  \<^item> \<^verbatim>\<open>Data_Frag\<close> (\<^verbatim>\<open>protocol/data_frag.rs\<close>): authenticated fragments and their reassembler: pieces in any order
    with duplicates give the record once, and the buffers stay bounded whatever arrives.
  \<^item> \<^verbatim>\<open>Recordizer_Config\<close>, \<^verbatim>\<open>Recordizer\<close>, \<^verbatim>\<open>Recordizer_Sender\<close>, \<^verbatim>\<open>Recordizer_Receiver\<close>
    (\<^verbatim>\<open>protocol/recordizer.rs\<close>, its configuration in \<^verbatim>\<open>config/mod.rs\<close>): batching and splitting of packets.
    The push loop of the sender is a \<^theory_text>\<open>partial_function\<close>; \<open>push_returns\<close> shows that it always returns. The
    receiver decodes every session of the sender to the pushed packets.
  \<^item> \<^verbatim>\<open>Udp_Frag\<close> (\<^verbatim>\<open>protocol/udp_frag.rs\<close>), \<^verbatim>\<open>Pmtu\<close> (\<^verbatim>\<open>protocol/pmtu.rs\<close>): fragments of the handshake messages,
    the MTU probes and the search, which ends with the capacity of the path.
  \<^item> \<^verbatim>\<open>Ip_Addr\<close>, \<^verbatim>\<open>Ip_Packet\<close> (\<^verbatim>\<open>protocol/ip.rs\<close>), \<^verbatim>\<open>Icmp\<close> (\<^verbatim>\<open>protocol/icmp.rs\<close>), \<^verbatim>\<open>Acl\<close> (\<^verbatim>\<open>server/acl.rs\<close>):
    addresses, the parser of untrusted packets with its bounds, IPv4 fragmentation and the MTU errors, and the
    exact meaning of the two access lists.
  \<^item> \<^verbatim>\<open>Pool_Config\<close>, \<^verbatim>\<open>Pool\<close>, \<^verbatim>\<open>Pool_Leases\<close>, \<^verbatim>\<open>Pool_Laws\<close>, \<^verbatim>\<open>Pool_Modes\<close>, \<^verbatim>\<open>Pool_Window\<close> (\<^verbatim>\<open>server/pool.rs\<close>, the pool
    part of \<^verbatim>\<open>config/server.rs\<close>): both allocators. The locale \<open>address_pool\<close> states the contract of a pool; it is
    interpreted on the IPv4 and on the IPv6 allocator, and the laws of reachable pools and of allocation for a
    mode rest on it.
  \<^item> \<^verbatim>\<open>Rate_Limiter\<close> (\<^verbatim>\<open>server/mod.rs\<close>), \<^verbatim>\<open>Dhcp_Packet\<close>, \<^verbatim>\<open>Dhcp\<close>, \<^verbatim>\<open>Dhcp_Laws\<close>, \<^verbatim>\<open>Dhcp_Replies\<close> (\<^verbatim>\<open>server/dhcp.rs\<close>):
    the limiter per address, with what dropping its table in a flood costs, option parsing, every handler, and that an answer never gives away an address
    that is leased to another client.
  \<^item> \<^verbatim>\<open>Sessions\<close>, \<^verbatim>\<open>Session_Laws\<close> (\<^verbatim>\<open>server/mod.rs\<close>, \<^verbatim>\<open>server/handler.rs\<close>): the session map with its aliases,
    client routes and the delivery of a client's packet.
  \<^item> \<^verbatim>\<open>Ctrl\<close> (\<^verbatim>\<open>protocol/ctrl.rs\<close>), \<^verbatim>\<open>Control_V2\<close>, \<^verbatim>\<open>Control_V2_Laws\<close> (\<^verbatim>\<open>protocol/control_v2.rs\<close>): control frames,
    management messages and their reassembler: its answer to the parts of a message in any order and at any times, and
    that it stays bounded.
  \<^item> \<^verbatim>\<open>Obfuscate\<close> (\<^verbatim>\<open>protocol/obfuscate.rs\<close>), \<^verbatim>\<open>Udp_Uplink\<close> (\<^verbatim>\<open>send_client_udp_payloads\<close> of \<^verbatim>\<open>client/mod.rs\<close>): padding
    and the client's UDP sender.
  \<^item> \<^verbatim>\<open>Udp_Ingress\<close>, \<^verbatim>\<open>Ingress_Laws\<close> (\<^verbatim>\<open>handle_udp_datagram\<close> and \<^verbatim>\<open>forward_udp_uplink_packet\<close> of
    \<^verbatim>\<open>server/udp_handler.rs\<close>): the receive path of a source that has a session, and the limits on what it sends
    again for retransmissions, headers included.
  \<^item> \<^verbatim>\<open>Uplink_Laws\<close> and this theory: sender and receive path together. What the client sends meets the guards
    packet by packet, once and in order, and nothing passes that a record of the session did not carry or
    the guards do not allow.

  \<^bold>\<open>Bounds and termination.\<close> The limits of the code are constants of the model with the values of the code. No
  definition uses fuel: loops are structural recursion, \<^theory_text>\<open>function\<close> with a measure, or the one partial function
  above. Record counters are 64-bit words; the codec refuses to seal in the last thousand numbers, so the
  theorems about sessions assume that the session ends before. The byte counters of the retransmission budget
  saturate at the largest \<^verbatim>\<open>u64\<close>, and the theorem about them assumes they did not get there.

  \<^bold>\<open>Not modelled.\<close> The handshake and authentication (key exchange, key derivation, Argon2, TLS and REALITY
  camouflage, capability negotiation) rest on computational assumptions about libraries; the data plane takes
  their keys and the admitted session as arguments. Sockets, TUN devices, tasks and timers, host commands for
  routes, firewall and DNS, the web panel, the control socket, configuration files, accounting and the
  bindings for other platforms are input and output around the core. Of \<^verbatim>\<open>server/udp_handler.rs\<close> the branch
  for new sources, the reapers and the downlink are left out; of \<^verbatim>\<open>client/mod.rs\<close> all but the UDP sender. The
  roaming extension is modelled only in its outer header. Counters for diagnosis and log output are left out
  everywhere.
\<close>

section \<open>The client's packets at the server's guards\<close>

text \<open>C1. The uplink over UDP, end to end. Let the client's socket be live, the framings of both sides agree,
  the budgets be those of a valid path, and let the server's session hold the keys of the client with nothing
  newer received and no reassembly pending. Then sending a list of packets within the payload budget
  succeeds - with whatever padding the generator draws, whole or split into fragments, batched as the socket
  accepts them - and when the datagrams arrive in order, those of one record within the reassembly timeout
  and with a free buffer at its end, the server does for each packet, once and in the order of sending,
  what its rules say about that packet: hand it to the delivery or the pacing queue, take it as a control
  frame, or drop it.\<close>

theorem uplink_end_to_end:
  assumes laws: "aead_laws P" "hmac_law P" "\<And>i. obf_rng_law (R i)" and live: "socket_live send"
    and carrier: "framings_meet f (framing_legacy (uc_quic_enabled c) cid)"
    and budgets: "payload_budget \<le> MAX_TUNNEL_MTU" "HEADER_LEN < record_budget"
      "43 + payload_budget \<le> MAX_FRAGMENTS * (record_budget - HEADER_LEN)"
    and ready: "uplink_ready P (tx_codec st) frag key c"
    and ps: "\<forall>p \<in> set ps. length p \<le> payload_budget" "unat (counter (tx_codec st)) + length ps \<le> 2 ^ 64 - 1001"
  shows "\<exists>st' ws ns. send_client_udp_payloads P R send pc nc payload_budget record_budget frag key f ps 0 st = Some (Sent, st')
    \<and> wire st' = queued st @ ws \<and> length ns = length ps \<and> 0 \<notin> set ns \<and> sum_list ns = length ws
    \<and> (\<forall>ess. map length ess = ns \<and> list_all good_arrival ess \<longrightarrow>
         concat (fst (ingress_run P (zip (concat ess) ws) c)) = concat (map2 (\<lambda>es p. uplink_verdict (last es) c p) ess ps))"
proof -
  have wf: "codec_wf (tx_codec st)" using ready by (simp add: uplink_ready_def)
  obtain st' ws dss where s: "send_client_udp_payloads P R send pc nc payload_budget record_budget frag key f ps 0 st = Some (Sent, st')"
      "wire st' = queued st @ ws" "map (framing_unwrap (framing_legacy (uc_quic_enabled c) cid)) ws = map Ok (concat dss)"
      "uplink_stream P frag record_budget key (tx_codec st) (tx_record_id st) ps dss"
    using payloads_sent [where R = R, OF laws(1,3) live carrier budgets wf ps(2,1), of pc nc frag key 0] by blast
  have len: "length ws = length (concat dss)" using s(3) map_eq_imp_length_eq by metis
  have cnt: "unat (counter (tx_codec st)) + length ps < 2 ^ 64" using ps(2) by simp
  have "concat (fst (ingress_run P (zip (concat ess) ws) c)) = concat (map2 (\<lambda>es p. uplink_verdict (last es) c p) ess ps)"
    if "map length ess = map length dss" "list_all good_arrival ess" for ess
    by (rule stream_arrives [OF s(4) laws(2) ready cnt arrivals_of_lengths [OF that] s(3)])
  then show ?thesis using s(1,2) stream_shape [OF s(4)] len
    by (intro exI [of _ st'] exI [of _ ws] exI [of _ "map length dss"]) (auto simp: length_concat)
qed

definition demo_send :: "unit send_batch" where
  "demo_send sk chunk = (Some (length chunk), ())"

definition demo_rng :: ObfRng where
  "demo_rng = \<lparr>ob_sample = \<lambda>_. 0, ob_range = \<lambda>_ lo _. lo, ob_fill = \<lambda>_ n. replicate n 0\<rparr>"

definition demo_tx :: "unit UdpTx" where
  "demo_tx = \<lparr>tx_codec = demo_codec, tx_record_id = 0, quic_pn = 0, datagrams = [], sock = (), wire = []\<rparr>"

theorem uplink_end_to_end_witness:
  "\<exists>st' ws ess. send_client_udp_payloads plain_primitives (\<lambda>_. demo_rng) demo_send
      \<lparr>pad_enabled = True, pad_min_bytes = 4, pad_max_bytes = 8, pad_randomize = False, pad_probability = Finite 1\<rparr>
      \<lparr>norm_enabled = False, norm_round_sizes = []\<rparr> 1400 100 True demo_key (LegacyQuic [1, 2, 3, 4]) [demo_payload, demo_payload] 0 demo_tx
      = Some (Sent, st') \<and> wire st' = ws
    \<and> concat (fst (ingress_run plain_primitives (zip (concat ess) ws) demo_session))
      = uplink_verdict demo_env demo_session demo_payload @ uplink_verdict demo_env demo_session demo_payload"
proof -
  have R: "obf_rng_law demo_rng" by (simp add: obf_rng_law_def demo_rng_def)
  have send: "socket_live demo_send" by (auto simp: socket_live_def demo_send_def)
  have meet: "framings_meet (LegacyQuic [1, 2, 3, 4]) (framing_legacy (uc_quic_enabled demo_session) [])"
    by (simp add: framings_meet_def framing_legacy_def demo_session_def)
  have budgets: "(1400 :: nat) \<le> MAX_TUNNEL_MTU" "HEADER_LEN < 100" "43 + 1400 \<le> MAX_FRAGMENTS * (100 - HEADER_LEN)"
    by (simp_all add: packet_consts df_consts)
  have ready: "uplink_ready plain_primitives (tx_codec demo_tx) True demo_key demo_session"
    using demo_session_ready by (simp add: demo_tx_def)
  have ps: "\<forall>p \<in> set [demo_payload, demo_payload]. length p \<le> 1400"
    "unat (counter (tx_codec demo_tx)) + length [demo_payload, demo_payload] \<le> 2 ^ 64 - 1001"
    by (simp_all add: demo_payload_def demo_tx_def demo_codec_facts)
  obtain st' ws ns where s: "send_client_udp_payloads plain_primitives (\<lambda>_. demo_rng) demo_send
      \<lparr>pad_enabled = True, pad_min_bytes = 4, pad_max_bytes = 8, pad_randomize = False, pad_probability = Finite 1\<rparr>
      \<lparr>norm_enabled = False, norm_round_sizes = []\<rparr> 1400 100 True demo_key (LegacyQuic [1, 2, 3, 4]) [demo_payload, demo_payload] 0 demo_tx
      = Some (Sent, st')" "wire st' = queued demo_tx @ ws" "length ns = length [demo_payload, demo_payload]" "0 \<notin> set ns"
    "\<forall>ess. map length ess = ns \<and> list_all good_arrival ess \<longrightarrow>
       concat (fst (ingress_run plain_primitives (zip (concat ess) ws) demo_session))
       = concat (map2 (\<lambda>es p. uplink_verdict (last es) demo_session p) ess [demo_payload, demo_payload])"
    using uplink_end_to_end [OF plain_primitives_laws(1,3) R send meet budgets ready ps] by blast
  obtain a b where ns: "ns = [a, b]" "0 < a" "0 < b" using s(3,4) by (auto simp: length_Suc_conv)
  let ?ess = "[replicate a demo_env, replicate b demo_env]"
  have "concat (fst (ingress_run plain_primitives (zip (concat ?ess) ws) demo_session))
       = concat (map2 (\<lambda>es p. uplink_verdict (last es) demo_session p) ?ess [demo_payload, demo_payload])"
    using s(5) [rule_format, of ?ess] ns demo_arrival by simp
  then show ?thesis using s(1,2) ns by (intro exI [of _ st'] exI [of _ ws] exI [of _ ?ess]) (simp add: queued_def demo_tx_def)
qed

end
